(* ===== verification/Prelude.thy ===== *)
theory Prelude
  imports Main "HOL-Library.Word" "HOL-Library.Char_ord" "HOL-Library.List_Lexorder"
begin

text \<open>
  Shared vocabulary of the rmuduo development.

  \<^item> Fixed-width integers: \<open>uint8_t\<close> to \<open>uint64_t\<close> are words of that width, \<open>size_t\<close>
    values are \<open>nat\<close> (they count bytes of objects that exist in memory).
  \<^item> C++ \<open>char\<close> is \<open>char\<close> and \<open>std::string\<close> / \<open>std::string_view\<close> is \<open>string\<close>; the casts
    between \<open>char\<close> and \<open>uint8_t\<close> are \<open>u8_of\<close> and \<open>chr_of\<close>.
  \<^item> The byte shuffling of the big- and little-endian codecs is reduced to the two
    functions \<open>byte_at\<close> and \<open>put_byte\<close>, whose bits are known by one lemma.
  \<^item> \<open>std::map\<close> is an association list kept strictly sorted by key.
  \<^item> A forward copy loop (\<open>std::copy\<close>) is written element by element, so that overlapping
    source and destination ranges are handled as the library handles them.
\<close>

unbundle bit_operations_syntax

type_synonym u8 = "8 word"
type_synonym u16 = "16 word"
type_synonym u32 = "32 word"
type_synonym u64 = "64 word"

named_theorems codec_simps \<open>reading back what an append helper wrote\<close>
named_theorems view_simps \<open>how an operation acts on the readable bytes of a buffer\<close>
named_theorems inv_intros \<open>preservation of the component invariants\<close>


section \<open>Characters and bytes\<close>

definition u8_of :: "char \<Rightarrow> u8" where
  "u8_of c = word_of_nat (of_char c)"

definition chr_of :: "u8 \<Rightarrow> char" where
  "chr_of w = char_of (unat w)"

lemma of_char_less_256: "(of_char c :: nat) < 256"
  by (cases c) (auto simp: of_char_def)

lemma u8_of_chr_of [simp]: "u8_of (chr_of w) = w"
proof -
  have "unat w < 256" using unsigned_less [of w] by simp
  then show ?thesis by (simp add: u8_of_def chr_of_def)
qed

lemma chr_of_u8_of [simp]: "chr_of (u8_of c) = c"
proof -
  have "unat (word_of_nat (of_char c) :: u8) = of_char c"
    using of_char_less_256 [of c] by (simp add: unat_of_nat)
  then show ?thesis by (simp add: u8_of_def chr_of_def)
qed

lemma chr_of_eq_iff [simp]: "chr_of a = chr_of b \<longleftrightarrow> a = b"
  by (metis u8_of_chr_of)

lemma chr_of_zero: "chr_of 0 = CHR 0x00"
  by code_simp


section \<open>Bytes of a word\<close>

text \<open>
  \<open>byte_at n v\<close> is \<open>static_cast<char>((v >> n) & 0xFF)\<close>, and \<open>put_byte c n\<close> is
  \<open>static_cast<uintN_t>(static_cast<uint8_t>(c)) << n\<close>.
\<close>

definition byte_at :: "nat \<Rightarrow> 'a::len word \<Rightarrow> char" where
  "byte_at n v = chr_of (ucast (drop_bit n v AND 0xFF))"

definition put_byte :: "char \<Rightarrow> nat \<Rightarrow> 'a::len word" where
  "put_byte c n = push_bit n (ucast (u8_of c))"

lemma bit_byte_mask: "bit (0xFF :: 'a::len word) i \<longleftrightarrow> i < 8 \<and> i < LENGTH('a)"
proof -
  have "(0xFF :: 'a word) = mask 8" by (simp add: mask_eq_exp_minus_1)
  then show ?thesis by (simp only: bit_mask_iff possible_bit_word) auto
qed

lemma bit_put_byte_at:
  "bit (put_byte (byte_at n v) m :: 'b::len word) i \<longleftrightarrow>
     m \<le> i \<and> i < LENGTH('b) \<and> i - m < 8 \<and> bit (v :: 'a::len word) (n + (i - m))"
  by (auto simp: put_byte_def byte_at_def bit_simps bit_byte_mask
      simp del: bit_numeral_iff bit_numeral_word_iff dest: bit_imp_le_length)

lemma less_octets:
  assumes "i < 64"
  obtains "i < 8" | "8 \<le> i" "i < 16" | "16 \<le> i" "i < 24" | "24 \<le> i" "i < 32"
    | "32 \<le> i" "i < 40" | "40 \<le> i" "i < 48" | "48 \<le> i" "i < 56" | "56 \<le> i" "i < (64::nat)"
  using assms by linarith

lemma octet_sub_less:
  "8 \<le> i \<Longrightarrow> i < 16 \<Longrightarrow> i - 8 < 8" "16 \<le> i \<Longrightarrow> i < 24 \<Longrightarrow> i - 16 < 8"
  "24 \<le> i \<Longrightarrow> i < 32 \<Longrightarrow> i - 24 < 8" "32 \<le> i \<Longrightarrow> i < 40 \<Longrightarrow> i - 32 < 8"
  "40 \<le> i \<Longrightarrow> i < 48 \<Longrightarrow> i - 40 < 8" "48 \<le> i \<Longrightarrow> i < 56 \<Longrightarrow> i - 48 < 8"
  "56 \<le> i \<Longrightarrow> i < 64 \<Longrightarrow> i - 56 < (8::nat)"
  by linarith+

lemma octets_16:
  "put_byte (byte_at 8 v) 8 OR put_byte (byte_at 0 v) 0 = (v :: u16)"
proof (rule bit_word_eqI)
  fix i assume "i < LENGTH(16)"
  then have "i < 64" "i < 16" by simp_all
  then show "bit (put_byte (byte_at 8 v) 8 OR put_byte (byte_at 0 v) 0 :: u16) i = bit v i"
    by (cases rule: less_octets [of i]) (auto simp: bit_or_iff bit_put_byte_at octet_sub_less)
qed

lemma octets_24:
  "put_byte (byte_at 16 v) 16 OR put_byte (byte_at 8 v) 8 OR put_byte (byte_at 0 v) 0
     = take_bit 24 (v :: u32)"
proof (rule bit_word_eqI)
  fix i assume "i < LENGTH(32)"
  then have "i < 64" "i < 32" by simp_all
  then show "bit (put_byte (byte_at 16 v) 16 OR put_byte (byte_at 8 v) 8 OR put_byte (byte_at 0 v) 0 :: u32) i
      = bit (take_bit 24 v) i"
    by (cases rule: less_octets [of i]) (auto simp: bit_or_iff bit_take_bit_iff bit_put_byte_at octet_sub_less)
qed

lemma octets_32:
  "put_byte (byte_at 24 v) 24 OR put_byte (byte_at 16 v) 16 OR put_byte (byte_at 8 v) 8
     OR put_byte (byte_at 0 v) 0 = (v :: u32)"
proof (rule bit_word_eqI)
  fix i assume "i < LENGTH(32)"
  then have "i < 64" "i < 32" by simp_all
  then show "bit (put_byte (byte_at 24 v) 24 OR put_byte (byte_at 16 v) 16 OR put_byte (byte_at 8 v) 8
      OR put_byte (byte_at 0 v) 0 :: u32) i = bit v i"
    by (cases rule: less_octets [of i]) (auto simp: bit_or_iff bit_put_byte_at octet_sub_less)
qed

lemma octets_64:
  "put_byte (byte_at 56 v) 56 OR put_byte (byte_at 48 v) 48 OR put_byte (byte_at 40 v) 40
     OR put_byte (byte_at 32 v) 32 OR put_byte (byte_at 24 v) 24 OR put_byte (byte_at 16 v) 16
     OR put_byte (byte_at 8 v) 8 OR put_byte (byte_at 0 v) 0 = (v :: u64)"
  (is "?w = v")
proof (rule bit_word_eqI)
  fix i assume "i < LENGTH(64)"
  then have "i < 64" by simp
  then show "bit ?w i = bit v i"
    by (cases rule: less_octets [of i]) (auto simp: bit_or_iff bit_put_byte_at octet_sub_less)
qed

lemma take_bit_24_id: "(v :: u32) < 0x1000000 \<Longrightarrow> take_bit 24 v = v"
  by (simp add: word_unat_eq_iff unsigned_take_bit_eq take_bit_nat_eq_self_iff word_less_nat_alt)


section \<open>Forward copies\<close>

text \<open>
  \<open>std::copy(begin + s, begin + s + n, begin + d)\<close> inside one vector: one element at a time,
  in increasing order, reading what earlier iterations may already have overwritten.
\<close>

primrec copy_within :: "nat \<Rightarrow> nat \<Rightarrow> nat \<Rightarrow> 'a list \<Rightarrow> 'a list" where
  "copy_within s d 0 xs = xs"
| "copy_within s d (Suc n) xs = copy_within (Suc s) (Suc d) n (xs[d := xs ! s])"

text \<open>\<open>std::copy(src, src + n, begin + d)\<close> from another object.\<close>

definition overwrite :: "nat \<Rightarrow> 'a list \<Rightarrow> 'a list \<Rightarrow> 'a list" where
  "overwrite d ys xs = take d xs @ ys @ drop (d + length ys) xs"

lemma length_copy_within [simp]: "length (copy_within s d n xs) = length xs"
  by (induction n arbitrary: s d xs) simp_all

lemma length_overwrite [simp]:
  "d + length ys \<le> length xs \<Longrightarrow> length (overwrite d ys xs) = length xs"
  by (simp add: overwrite_def)

text \<open>With the destination at or before the source, the forward copy moves the block.\<close>

lemma nth_copy_within:
  "d \<le> s \<Longrightarrow> s + n \<le> length xs \<Longrightarrow> i < length xs \<Longrightarrow>
     copy_within s d n xs ! i = (if d \<le> i \<and> i < d + n then xs ! (s + (i - d)) else xs ! i)"
proof (induction n arbitrary: s d xs)
  case 0
  then show ?case by auto
next
  case (Suc n)
  have "copy_within (Suc s) (Suc d) n (xs[d := xs ! s]) ! i =
      (if Suc d \<le> i \<and> i < Suc d + n then xs[d := xs ! s] ! (Suc s + (i - Suc d))
       else xs[d := xs ! s] ! i)"
    using Suc.prems by (intro Suc.IH) simp_all
  also have "\<dots> = (if d \<le> i \<and> i < d + Suc n then xs ! (s + (i - d)) else xs ! i)"
  proof (cases "Suc d \<le> i")
    case True
    then have "Suc s + (i - Suc d) = s + (i - d)" by simp
    with True Suc.prems show ?thesis by (simp add: nth_list_update)
  next
    case False
    with Suc.prems show ?thesis by (auto simp: nth_list_update)
  qed
  finally show ?case by simp
qed

lemma copy_within_block:
  assumes "d \<le> s" "s + n \<le> length xs"
  shows "take n (drop d (copy_within s d n xs)) = take n (drop s xs)"
  using assms by (intro nth_equalityI) (simp_all add: nth_copy_within)

lemma take_drop_overwrite:
  "d + length ys \<le> length xs \<Longrightarrow> r \<le> d \<Longrightarrow>
     take (d + length ys - r) (drop r (overwrite d ys xs)) = take (d - r) (drop r xs) @ ys"
  by (simp add: overwrite_def drop_take)


section \<open>Ordered maps\<close>

text \<open>
  \<open>std::map<K, V>\<close>: iteration is in increasing key order; \<open>emplace\<close> keeps an existing entry,
  \<open>m[k] = v\<close> replaces it. \<open>std::string\<close> keys compare byte-wise as unsigned characters, which is
  the lexicographic order on \<open>string\<close>. \<open>find\<close> is \<open>map_of\<close>.
\<close>

type_synonym ('k, 'v) std_map = "('k \<times> 'v) list"

definition std_map_ok :: "('k::linorder, 'v) std_map \<Rightarrow> bool" where
  "std_map_ok m \<longleftrightarrow> sorted_wrt (<) (map fst m)"

fun std_emplace :: "'k::linorder \<Rightarrow> 'v \<Rightarrow> ('k, 'v) std_map \<Rightarrow> ('k, 'v) std_map" where
  "std_emplace k v [] = [(k, v)]"
| "std_emplace k v (p # m) =
     (if k < fst p then (k, v) # p # m
      else if k = fst p then p # m
      else p # std_emplace k v m)"

fun std_assign :: "'k::linorder \<Rightarrow> 'v \<Rightarrow> ('k, 'v) std_map \<Rightarrow> ('k, 'v) std_map" where
  "std_assign k v [] = [(k, v)]"
| "std_assign k v (p # m) =
     (if k < fst p then (k, v) # p # m
      else if k = fst p then (k, v) # m
      else p # std_assign k v m)"

lemma std_map_ok_Nil [simp]: "std_map_ok []"
  by (simp add: std_map_ok_def)

lemma std_map_ok_Cons:
  "std_map_ok (p # m) \<longleftrightarrow> (\<forall>k \<in> fst ` set m. fst p < k) \<and> std_map_ok m"
  by (simp add: std_map_ok_def)

lemma fst_set_std_emplace: "fst ` set (std_emplace k v m) = insert k (fst ` set m)"
  by (induction m) auto

lemma fst_set_std_assign: "fst ` set (std_assign k v m) = insert k (fst ` set m)"
  by (induction m) auto

lemma std_emplace_ok [inv_intros]: "std_map_ok m \<Longrightarrow> std_map_ok (std_emplace k v m)"
  by (induction m) (auto simp: std_map_ok_Cons fst_set_std_emplace)

lemma std_assign_ok [inv_intros]: "std_map_ok m \<Longrightarrow> std_map_ok (std_assign k v m)"
  by (induction m) (auto simp: std_map_ok_Cons fst_set_std_assign)

lemma set_std_emplace_subset: "set (std_emplace k v m) \<subseteq> insert (k, v) (set m)"
  by (induction m) auto

lemma map_of_less_None: "\<forall>k' \<in> fst ` set m. k < k' \<Longrightarrow> map_of m (k::'k::linorder) = None"
  by (metis less_irrefl map_of_eq_None_iff)

lemma map_of_std_emplace:
  "std_map_ok m \<Longrightarrow> map_of (std_emplace k v m) =
     (if map_of m k = None then (map_of m)(k \<mapsto> v) else map_of m)"
proof (induction m)
  case Nil
  then show ?case by (simp add: fun_eq_iff)
next
  case (Cons p m)
  show ?case
  proof (cases "k < fst p")
    case True
    with Cons.prems have "\<forall>k' \<in> fst ` set (p # m). k < k'"
      by (auto simp: std_map_ok_Cons)
    then have "map_of (p # m) k = None" by (rule map_of_less_None)
    with True show ?thesis by (simp add: fun_eq_iff)
  next
    case False
    with Cons show ?thesis by (cases p) (auto simp: std_map_ok_Cons fun_eq_iff)
  qed
qed

lemma map_of_std_assign: "map_of (std_assign k v m) = (map_of m)(k \<mapsto> v)"
  by (induction m) (auto simp: fun_eq_iff)

text \<open>Inserting beyond every key appends, which is how an ordered dump is read back.\<close>

lemma std_emplace_append:
  "\<forall>k' \<in> fst ` set m. k' < k \<Longrightarrow> std_emplace k v m = m @ [(k, v)]"
  by (induction m) auto

lemma foldl_emplace_sorted:
  "std_map_ok (m @ ps) \<Longrightarrow> foldl (\<lambda>m (k, v). std_emplace k v m) m ps = m @ ps"
proof (induction ps arbitrary: m)
  case Nil
  then show ?case by simp
next
  case (Cons p ps)
  obtain k v where p: "p = (k, v)" by (cases p)
  have "\<forall>k' \<in> fst ` set m. k' < k"
    using Cons.prems by (auto simp: std_map_ok_def sorted_wrt_append p)
  then have "std_emplace k v m = m @ [(k, v)]" by (rule std_emplace_append)
  moreover have "std_map_ok ((m @ [p]) @ ps)" using Cons.prems by simp
  ultimately show ?case using Cons.IH [of "m @ [p]"] by (simp add: p)
qed


section \<open>Searching strings\<close>

text \<open>\<open>find\<close> of a character, and \<open>starts_with\<close>.\<close>

definition find_char :: "char \<Rightarrow> string \<Rightarrow> nat option" where
  "find_char c s = (if c \<in> set s then Some (length (takeWhile (\<lambda>d. d \<noteq> c) s)) else None)"

definition starts_with :: "string \<Rightarrow> string \<Rightarrow> bool" where
  "starts_with p s \<longleftrightarrow> take (length p) s = p"

lemma find_char_append: "c \<notin> set s \<Longrightarrow> find_char c (s @ c # t) = Some (length s)"
  by (simp add: find_char_def takeWhile_append)

lemma find_char_None: "c \<notin> set s \<Longrightarrow> find_char c s = None"
  by (simp add: find_char_def)

lemma find_char_less: "find_char c s = Some i \<Longrightarrow> i < length s"
  by (induction s arbitrary: i) (auto simp: find_char_def split: if_splits)


section \<open>Decimal numbers\<close>

text \<open>\<open>std::to_string\<close> of an unsigned value.\<close>

fun dec_digits :: "nat \<Rightarrow> string \<Rightarrow> string" where
  "dec_digits n acc =
     (let acc = char_of (48 + n mod 10) # acc in if n < 10 then acc else dec_digits (n div 10) acc)"

declare dec_digits.simps [simp del]

definition to_string :: "nat \<Rightarrow> string" where
  "to_string n = dec_digits n []"

end
