(* ===== verification/Interfaces.thy ===== *)
theory Interfaces
  imports Prelude
begin

text \<open>
  The contracts between the components, as locales.

  \<^item> \<open>byte_stream\<close>: what the protocol parsers rely on from the connection buffer. It is
    interpreted on the model of \<open>Buffer\<close> in theory \<open>Buffer\<close>.
  \<^item> \<open>incremental_parser\<close>: what a parser that is called again whenever bytes arrive must
    satisfy so that the way TCP cuts the stream into segments does not matter. It is
    interpreted on the RTMP handshake, on the RTMP chunk parser and on the HTTP request parser.
  \<^item> \<open>credential_store\<close> and its extension \<open>revocable_store\<close>: what the back end relies on from the
    managers of login tokens and of RTMP tickets, both interpreted in theory \<open>Auth\<close>.
  \<^item> \<open>inductive_invariant\<close> and its extension \<open>forward_simulation\<close>: a step relation whose steps an
    abstract machine can follow, interpreted on the event loop in theory \<open>EventLoop\<close>.
  \<^item> \<open>functional_refinement\<close>: operations that act on an abstract value, a special case of the
    former, interpreted on the byte buffer in theory \<open>Buffer\<close>.
  \<^item> \<open>decreasing_steps\<close>: runs that are bounded and can be completed, interpreted on the start of a
    loop thread (\<open>EventLoopThread\<close>) and on the functors of a server (\<open>TcpServer\<close>, \<open>ServerShutdown\<close>).
  \<^item> \<open>outgoing_channel\<close>: what callers rely on from \<open>send\<close>, interpreted on a connection in theory
    \<open>TcpConnection\<close> and on the connections of the RTMP server in theory \<open>RtmpRelay\<close>.
\<close>

section \<open>Byte queues\<close>

locale byte_stream =
  fixes ok :: "'b \<Rightarrow> bool"
    and contents :: "'b \<Rightarrow> string"
    and put :: "string \<Rightarrow> 'b \<Rightarrow> 'b"
    and skip :: "nat \<Rightarrow> 'b \<Rightarrow> 'b"
  assumes ok_put: "ok b \<Longrightarrow> ok (put d b)"
    and contents_put: "ok b \<Longrightarrow> contents (put d b) = contents b @ d"
    and ok_skip: "ok b \<Longrightarrow> ok (skip n b)"
    and contents_skip: "ok b \<Longrightarrow> contents (skip n b) = drop n (contents b)"
begin

lemma ok_feed: "ok b \<Longrightarrow> ok (fold put segs b)"
  by (induction segs arbitrary: b) (simp_all add: ok_put)

lemma contents_feed: "ok b \<Longrightarrow> contents (fold put segs b) = contents b @ concat segs"
  by (induction segs arbitrary: b) (simp_all add: ok_put contents_put)

lemma contents_skip_skip: "ok b \<Longrightarrow> contents (skip n (skip m b)) = contents (skip (m + n) b)"
  by (simp add: ok_skip contents_skip add.commute)

text \<open>Consuming a prefix and receiving more bytes commute.\<close>

lemma contents_put_skip:
  "ok b \<Longrightarrow> n \<le> length (contents b) \<Longrightarrow> contents (put d (skip n b)) = contents (skip n (put d b))"
  by (simp add: ok_skip ok_put contents_put contents_skip)

text \<open>Everything put in comes out once, in order, however it is cut up on the way.\<close>

lemma feed_then_skip_all:
  "ok b \<Longrightarrow> contents b = [] \<Longrightarrow> contents (skip (length (concat segs)) (fold put segs b)) = []"
  by (simp add: ok_feed contents_skip contents_feed)

end


section \<open>Incremental parsers\<close>

text \<open>
  One attempt of a parser on the bytes received so far: it may wait for more (possibly having
  updated its state), consume a prefix and emit results, or reject the stream.
\<close>

datatype ('s, 'e, 'o) outcome = Wait 's | Consume nat 's "'o list" | Reject 'e

text \<open>The driver loop: attempts until one of them consumes nothing.\<close>

function run_steps ::
  "('s \<Rightarrow> string \<Rightarrow> ('s, 'e, 'o) outcome) \<Rightarrow> 's \<Rightarrow> string \<Rightarrow> 'e + ('s \<times> string \<times> 'o list)" where
  "run_steps step s v =
     (case step s v of
        Wait s' \<Rightarrow> Inr (s', v, [])
      | Reject e \<Rightarrow> Inl e
      | Consume n s' os \<Rightarrow>
          (if n = 0 \<or> length v < n then Inr (s', v, os)
           else case run_steps step s' (drop n v) of
                  Inl e \<Rightarrow> Inl e
                | Inr (s'', rest, os') \<Rightarrow> Inr (s'', rest, os @ os')))"
  by pat_completeness auto
termination
  by (relation "measure (\<lambda>(step, s, v). length v)") auto

declare run_steps.simps [simp del]

text \<open>Feeding the stream segment by segment, keeping the unconsumed tail in between.\<close>

fun feed_steps ::
  "('s \<Rightarrow> string \<Rightarrow> ('s, 'e, 'o) outcome) \<Rightarrow> 's \<Rightarrow> string \<Rightarrow> string list
     \<Rightarrow> 'e + ('s \<times> string \<times> 'o list)" where
  "feed_steps step s rest [] = Inr (s, rest, [])"
| "feed_steps step s rest (seg # segs) =
     (case run_steps step s (rest @ seg) of
        Inl e \<Rightarrow> Inl e
      | Inr (s', rest', os) \<Rightarrow>
          (case feed_steps step s' rest' segs of
             Inl e \<Rightarrow> Inl e
           | Inr (s'', rest'', os') \<Rightarrow> Inr (s'', rest'', os @ os')))"

locale incremental_parser =
  fixes step :: "'s \<Rightarrow> string \<Rightarrow> ('s, 'e, 'o) outcome"
    and good :: "'s \<Rightarrow> string \<Rightarrow> bool"
  assumes consume_ext: "good s (v @ w) \<Longrightarrow> step s v = Consume n s' os \<Longrightarrow>
        step s (v @ w) = Consume n s' os \<and> 0 < n \<and> n \<le> length v \<and> good s' (drop n (v @ w))"
    and reject_ext: "good s (v @ w) \<Longrightarrow> step s v = Reject e \<Longrightarrow> step s (v @ w) = Reject e"
    and wait_ext: "good s (v @ w) \<Longrightarrow> step s v = Wait s' \<Longrightarrow>
        step s' v = Wait s' \<and> step s' (v @ w) = step s (v @ w) \<and> good s' (v @ w)"
begin

lemma run_cong: "step s v = step s' v \<Longrightarrow> run_steps step s v = run_steps step s' v"
  by (simp add: run_steps.simps)

text \<open>Running on a prefix and then on the rest is running on the whole.\<close>

lemma run_append:
  assumes "good s (v @ w)"
  shows "run_steps step s (v @ w) =
    (case run_steps step s v of
       Inl e \<Rightarrow> Inl e
     | Inr (s', rest, os) \<Rightarrow>
         (case run_steps step s' (rest @ w) of
            Inl e \<Rightarrow> Inl e
          | Inr (s'', rest', os') \<Rightarrow> Inr (s'', rest', os @ os')))"
  using assms
proof (induction "length v" arbitrary: s v rule: less_induct)
  case less
  show ?case
  proof (cases "step s v")
    case (Wait s')
    then have "step s' (v @ w) = step s (v @ w)" using wait_ext less.prems by blast
    then have "run_steps step s' (v @ w) = run_steps step s (v @ w)" by (rule run_cong)
    then show ?thesis
      by (simp add: run_steps.simps [of step s v] Wait split: sum.splits)
  next
    case (Reject e)
    then show ?thesis
      using reject_ext [OF less.prems Reject] by (simp add: run_steps.simps)
  next
    case (Consume n s' os)
    from consume_ext [OF less.prems Consume]
    have whole: "step s (v @ w) = Consume n s' os" and n: "0 < n" "n \<le> length v"
      and good': "good s' (drop n v @ w)" by auto
    from n have "length (drop n v) < length v" by simp
    note IH = less.hyps [OF this good']
    show ?thesis
      using n
      by (simp add: run_steps.simps [of step s "v @ w"] run_steps.simps [of step s v] whole Consume IH
          split: sum.splits prod.splits)
  qed
qed

text \<open>Admissibility survives a run.\<close>

lemma run_good:
  "good s (v @ w) \<Longrightarrow> run_steps step s v = Inr (s', rest, os) \<Longrightarrow> good s' (rest @ w)"
proof (induction "length v" arbitrary: s v os rule: less_induct)
  case less
  show ?case
  proof (cases "step s v")
    case (Wait s1)
    with wait_ext [OF less.prems(1) Wait] less.prems(2) show ?thesis
      by (auto simp: run_steps.simps [of step s v])
  next
    case (Reject e)
    with less.prems show ?thesis by (simp add: run_steps.simps [of step s v])
  next
    case (Consume n s1 os1)
    from consume_ext [OF less.prems(1) Consume]
    have n: "0 < n" "n \<le> length v" and good': "good s1 (drop n v @ w)" by auto
    from less.prems(2) n obtain os2 where "run_steps step s1 (drop n v) = Inr (s', rest, os2)"
      by (auto simp: run_steps.simps [of step s v] Consume split: sum.splits prod.splits if_splits)
    moreover from n have "length (drop n v) < length v" by simp
    ultimately show ?thesis using less.hyps good' by blast
  qed
qed

text \<open>A run ends in a state that waits on the tail it leaves.\<close>

lemma run_ends_waiting:
  "good s (v @ w) \<Longrightarrow> run_steps step s v = Inr (s', rest, os) \<Longrightarrow> step s' rest = Wait s'"
proof (induction "length v" arbitrary: s v os rule: less_induct)
  case less
  show ?case
  proof (cases "step s v")
    case (Wait s1)
    with wait_ext [OF less.prems(1) Wait] less.prems(2) show ?thesis
      by (auto simp: run_steps.simps [of step s v])
  next
    case (Reject e)
    with less.prems show ?thesis by (simp add: run_steps.simps [of step s v])
  next
    case (Consume n s1 os1)
    from consume_ext [OF less.prems(1) Consume]
    have n: "0 < n" "n \<le> length v" and good': "good s1 (drop n v @ w)" by auto
    from less.prems(2) n obtain os2 where "run_steps step s1 (drop n v) = Inr (s', rest, os2)"
      by (auto simp: run_steps.simps [of step s v] Consume split: sum.splits prod.splits if_splits)
    moreover from n have "length (drop n v) < length v" by simp
    ultimately show ?thesis using less.hyps good' by blast
  qed
qed

text \<open>Segment by segment or all at once: the same state, the same tail, the same results.\<close>

lemma feed_eq_run:
  "good s (rest @ concat segs) \<Longrightarrow> step s rest = Wait s \<Longrightarrow>
     feed_steps step s rest segs = run_steps step s (rest @ concat segs)"
proof (induction segs arbitrary: s rest)
  case Nil
  then show ?case by (simp add: run_steps.simps)
next
  case (Cons seg segs)
  have good: "good s ((rest @ seg) @ concat segs)" using Cons.prems(1) by simp
  show ?case
  proof (cases "run_steps step s (rest @ seg)")
    case (Inl e)
    with run_append [OF good] show ?thesis by simp
  next
    case (Inr r)
    obtain s' rest' os where r: "r = (s', rest', os)" by (cases r)
    have "feed_steps step s' rest' segs = run_steps step s' (rest' @ concat segs)"
      using Inr r by (intro Cons.IH run_good [OF good] run_ends_waiting [OF good]) simp_all
    with run_append [OF good] Inr r show ?thesis by simp
  qed
qed

end

section \<open>Stores of credentials with an expiry time\<close>

text \<open>
  What login tokens and RTMP tickets have in common: issuing drops what has expired and binds a
  name that is not in use; checking finds a live entry that allows the query and drops it when it
  has expired. The time is an argument; \<open>issue\<close> may fail to return.
\<close>

definition unexpired :: "('e \<Rightarrow> int) \<Rightarrow> int \<Rightarrow> 'e option \<Rightarrow> 'e option" where
  "unexpired expiry now x =
     (case x of None \<Rightarrow> None | Some e \<Rightarrow> if expiry e \<le> now then None else Some e)"

locale credential_store =
  fixes entries :: "'s \<Rightarrow> string \<Rightarrow> 'e option"
    and expiry :: "'e \<Rightarrow> int"
    and allows :: "'q \<Rightarrow> 'e \<Rightarrow> bool"
    and issue :: "int \<Rightarrow> 'i \<Rightarrow> 's \<Rightarrow> (string \<times> 'e \<times> 's) option"
    and check :: "int \<Rightarrow> string \<Rightarrow> 'q \<Rightarrow> 's \<Rightarrow> 'e option \<times> 's"
  assumes check_value: "fst (check now k q s) =
        (case unexpired expiry now (entries s k) of
           None \<Rightarrow> None | Some e \<Rightarrow> if allows q e then Some e else None)"
    and check_entries: "entries (snd (check now k q s)) =
        (entries s)(k := unexpired expiry now (entries s k))"
    and issue_fresh: "issue now i s = Some (k, e, s') \<Longrightarrow> unexpired expiry now (entries s k) = None"
    and issue_entries: "issue now i s = Some (k, e, s') \<Longrightarrow>
        entries s' = (\<lambda>k'. unexpired expiry now (entries s k'))(k := Some e)"
begin

lemma check_live:
  "entries s k = Some e \<Longrightarrow> now < expiry e \<Longrightarrow> fst (check now k q s) = (if allows q e then Some e else None)"
  by (simp add: check_value unexpired_def)

lemma check_expired: "entries s k = Some e \<Longrightarrow> expiry e \<le> now \<Longrightarrow> fst (check now k q s) = None"
  by (simp add: check_value unexpired_def)

lemma check_unknown: "entries s k = None \<Longrightarrow> fst (check now k q s) = None"
  by (simp add: check_value unexpired_def)

lemma check_sound:
  "fst (check now k q s) = Some e \<Longrightarrow> entries s k = Some e \<and> now < expiry e \<and> allows q e"
  by (auto simp: check_value unexpired_def split: option.splits if_splits)

text \<open>A live entry survives everything that happens before its expiry.\<close>

lemma check_keeps:
  "entries s k = Some e \<Longrightarrow> now < expiry e \<Longrightarrow> entries (snd (check now k' q s)) k = Some e"
  by (auto simp: check_entries unexpired_def)

lemma issue_keeps:
  "entries s k = Some e \<Longrightarrow> now < expiry e \<Longrightarrow> issue now i s = Some (k', e', s') \<Longrightarrow>
     entries s' k = Some e"
  using issue_fresh [of now i s k' e' s'] issue_entries [of now i s k' e' s']
  by (auto simp: unexpired_def)

lemma issue_adds: "issue now i s = Some (k, e, s') \<Longrightarrow> entries s' k = Some e"
  by (simp add: issue_entries)

end

text \<open>Stores from which a credential can be taken back.\<close>

locale revocable_store = credential_store +
  fixes revoke :: "string \<Rightarrow> 'a \<Rightarrow> 'a"
  assumes revoke_entries: "entries (revoke k s) = (entries s)(k := None)"
begin

lemma revoked: "fst (check now k q (revoke k s)) = None"
  by (simp add: check_unknown revoke_entries)

lemma revoke_keeps: "k' \<noteq> k \<Longrightarrow> entries (revoke k' s) k = entries s k"
  by (simp add: revoke_entries)

end


section \<open>Refinement\<close>

text \<open>
  A step relation with an invariant, and a simulation of it by a simpler machine: every step of the
  detailed system is matched by any number of steps of the abstract one.
\<close>

locale inductive_invariant =
  fixes init :: "'s \<Rightarrow> bool"
    and step :: "'s \<Rightarrow> 's \<Rightarrow> bool"
    and inv :: "'s \<Rightarrow> bool"
  assumes init_inv: "init s \<Longrightarrow> inv s"
    and step_inv: "inv s \<Longrightarrow> step s s' \<Longrightarrow> inv s'"
begin

lemma steps_inv: "step\<^sup>*\<^sup>* s s' \<Longrightarrow> inv s \<Longrightarrow> inv s'"
  by (induction rule: rtranclp_induct) (auto intro: step_inv)

lemma reachable_inv: "init s \<Longrightarrow> step\<^sup>*\<^sup>* s s' \<Longrightarrow> inv s'"
  by (blast intro: steps_inv init_inv)

end

locale forward_simulation = inductive_invariant +
  fixes abs :: "'s \<Rightarrow> 'a"
    and astep :: "'a \<Rightarrow> 'a \<Rightarrow> bool"
  assumes step_abs: "inv s \<Longrightarrow> step s s' \<Longrightarrow> astep\<^sup>*\<^sup>* (abs s) (abs s')"
begin

lemma steps_abs: "step\<^sup>*\<^sup>* s s' \<Longrightarrow> inv s \<Longrightarrow> astep\<^sup>*\<^sup>* (abs s) (abs s')"
proof (induction rule: rtranclp_induct)
  case (step y z)
  have "inv y" by (rule steps_inv [OF step(1,4)])
  from step_abs [OF this step(2)] step(3,4) show ?case by (meson rtranclp_trans)
qed simp

lemma reachable_abs: "init s \<Longrightarrow> step\<^sup>*\<^sup>* s s' \<Longrightarrow> astep\<^sup>*\<^sup>* (abs s) (abs s')"
  by (blast intro: steps_abs init_inv)

text \<open>What the abstract steps preserve, the detailed ones do.\<close>

lemma abstract_invariant:
  assumes "\<And>a a'. P a \<Longrightarrow> astep a a' \<Longrightarrow> P a'" "P (abs s)" "inv s" "step\<^sup>*\<^sup>* s s'"
  shows "P (abs s')"
proof -
  have "astep\<^sup>*\<^sup>* (abs s) (abs s')" by (rule steps_abs [OF assms(4,3)])
  then show ?thesis using assms(2) by (induction rule: rtranclp_induct) (auto intro: assms(1))
qed

end

text \<open>Operations that act on an abstract value as other operations do.\<close>

locale functional_refinement =
  fixes ok :: "'s \<Rightarrow> bool"
    and meaning :: "'s \<Rightarrow> 'a"
    and op :: "'e \<Rightarrow> 's \<Rightarrow> 's"
    and aop :: "'e \<Rightarrow> 'a \<Rightarrow> 'a"
  assumes op_ok: "ok s \<Longrightarrow> ok (op e s)"
    and op_meaning: "ok s \<Longrightarrow> meaning (op e s) = aop e (meaning s)"
begin

lemma ops_ok: "ok s \<Longrightarrow> ok (fold op es s)"
  by (induction es arbitrary: s) (simp_all add: op_ok)

lemma ops_meaning: "ok s \<Longrightarrow> meaning (fold op es s) = fold aop es (meaning s)"
  by (induction es arbitrary: s) (simp_all add: op_ok op_meaning)

end

sublocale functional_refinement \<subseteq> simulation: forward_simulation ok "\<lambda>s s'. \<exists>e. s' = op e s" ok meaning "\<lambda>a a'. \<exists>e. a' = aop e a"
proof unfold_locales
  fix s s' assume "ok s" "\<exists>e. s' = op e s"
  then have "\<exists>e. meaning s' = aop e (meaning s)" using op_meaning by blast
  then show "(\<lambda>a a'. \<exists>e. a' = aop e a)\<^sup>*\<^sup>* (meaning s) (meaning s')" by (rule r_into_rtranclp)
qed (auto simp: op_ok)


section \<open>Runs that end\<close>

text \<open>A step relation that keeps an invariant and lowers a measure: every run is bounded and can be completed.\<close>

locale decreasing_steps =
  fixes move :: "'s \<Rightarrow> 's \<Rightarrow> bool"
    and good :: "'s \<Rightarrow> bool"
    and rank :: "'s \<Rightarrow> nat"
  assumes move_good: "good s \<Longrightarrow> move s s' \<Longrightarrow> good s'"
    and move_rank: "good s \<Longrightarrow> move s s' \<Longrightarrow> rank s' < rank s"

sublocale decreasing_steps \<subseteq> inductive_invariant good move good
  by unfold_locales (auto intro: move_good)

context decreasing_steps
begin

lemma run_rank: "good s \<Longrightarrow> (move ^^ n) s s' \<Longrightarrow> rank s' + n \<le> rank s"
proof (induction n arbitrary: s)
  case (Suc n)
  obtain s1 where s: "move s s1" "(move ^^ n) s1 s'" using relpowp_Suc_D2 [OF Suc.prems(2)] by blast
  from Suc.IH [OF move_good [OF Suc.prems(1) s(1)] s(2)] move_rank [OF Suc.prems(1) s(1)] show ?case by simp
qed simp

lemma run_bounded: "good s \<Longrightarrow> (move ^^ n) s s' \<Longrightarrow> n \<le> rank s"
  using run_rank [of s n s'] by simp

lemma run_ends: "good s \<Longrightarrow> \<exists>s'. move\<^sup>*\<^sup>* s s' \<and> (\<nexists>s''. move s' s'')"
proof (induction "rank s" arbitrary: s rule: less_induct)
  case less
  show ?case
  proof (cases "\<exists>s1. move s s1")
    case True
    then obtain s1 where s: "move s s1" by blast
    from less.hyps [OF move_rank [OF less.prems s] move_good [OF less.prems s]] s show ?thesis
      by (meson converse_rtranclp_into_rtranclp)
  qed blast
qed

end


section \<open>Sending\<close>

text \<open>
  What the users of a connection rely on from \<open>send\<close>: data sent on a connection that is up is added
  at the end of its outgoing stream, and dropped otherwise; sending does not close it. A request
  may be for another connection, so what it adds to this one's stream is a parameter.
\<close>

locale outgoing_channel =
  fixes usable :: "'c \<Rightarrow> bool"
    and up :: "'c \<Rightarrow> bool"
    and stream :: "'c \<Rightarrow> 'a list"
    and carried :: "'d \<Rightarrow> 'a list"
    and put_data :: "'d \<Rightarrow> 'c \<Rightarrow> 'c"
  assumes put_usable: "usable c \<Longrightarrow> usable (put_data d c)"
    and put_up: "usable c \<Longrightarrow> up (put_data d c) = up c"
    and put_stream: "usable c \<Longrightarrow> stream (put_data d c) = stream c @ (if up c then carried d else [])"
begin

lemma puts: "usable c \<Longrightarrow> usable (fold put_data ds c) \<and> up (fold put_data ds c) = up c \<and>
    stream (fold put_data ds c) = stream c @ (if up c then concat (map carried ds) else [])"
  by (induction ds arbitrary: c) (auto simp: put_usable put_up put_stream)

lemmas puts_stream = puts [THEN conjunct2, THEN conjunct2]

end

end
