(* ===== verification/Buffer.thy ===== *)
theory Buffer
  imports Interfaces
begin

text \<open>
  The input and output buffer of every connection (\<open>src/net/Buffer.h\<close>, \<open>src/net/Buffer.cc\<close>).

  The vector and the two indices are kept as they are in the class; a \<open>const char*\<close> into the
  buffer is its offset from \<open>begin()\<close>. \<open>view\<close> is the readable region, and the lemmas of
  this theory say how every operation acts on it: the buffer refines a byte queue, stated as
  the locale \<open>byte_stream\<close> and used by every parser of the development. The system
  calls \<open>readv\<close> and \<open>write\<close> are parameters; they may return at most what they were asked for.
\<close>

section \<open>State\<close>

record Buffer =
  buffer :: string
  readerIndex :: nat
  writerIndex :: nat

definition kCheapPrepend :: nat where "kCheapPrepend = 8"
definition kInitialSize :: nat where "kInitialSize = 1024"

definition newBuffer :: "nat \<Rightarrow> Buffer" where
  "newBuffer initialSize =
     \<lparr>buffer = replicate (kCheapPrepend + initialSize) (chr_of 0),
      readerIndex = kCheapPrepend, writerIndex = kCheapPrepend\<rparr>"

definition readableBytes :: "Buffer \<Rightarrow> nat" where
  "readableBytes b = writerIndex b - readerIndex b"

definition writableBytes :: "Buffer \<Rightarrow> nat" where
  "writableBytes b = length (buffer b) - writerIndex b"

definition prependableByte :: "Buffer \<Rightarrow> nat" where
  "prependableByte b = readerIndex b"

text \<open>Pointers into the buffer are offsets from \<open>begin()\<close>.\<close>

definition peek :: "Buffer \<Rightarrow> nat" where
  "peek b = readerIndex b"

definition beginWrite :: "Buffer \<Rightarrow> nat" where
  "beginWrite b = writerIndex b"

text \<open>The bytes \<open>[peek(), peek() + readableBytes())\<close>.\<close>

definition view :: "Buffer \<Rightarrow> string" where
  "view b = take (readableBytes b) (drop (peek b) (buffer b))"


section \<open>Operations\<close>

definition retrieveAll :: "Buffer \<Rightarrow> Buffer" where
  "retrieveAll b = b\<lparr>readerIndex := kCheapPrepend, writerIndex := kCheapPrepend\<rparr>"

definition retrieve :: "nat \<Rightarrow> Buffer \<Rightarrow> Buffer" where
  "retrieve len b =
     (if len \<le> readableBytes b then b\<lparr>readerIndex := readerIndex b + len\<rparr>
      else retrieveAll b)"

definition retrieveUntil :: "nat \<Rightarrow> Buffer \<Rightarrow> Buffer" where
  "retrieveUntil endp b = retrieve (endp - peek b) b"

text \<open>
  \<open>std::string(peek(), len)\<close> copies \<open>len\<close> bytes whatever the readable size; a read past
  the end of the vector is undefined behaviour in C++ and \<open>None\<close> here.
\<close>

definition retrieveAsString :: "nat \<Rightarrow> Buffer \<Rightarrow> (string \<times> Buffer) option" where
  "retrieveAsString len b =
     (if peek b + len \<le> length (buffer b)
      then Some (take len (drop (peek b) (buffer b)), retrieve len b) else None)"

definition retrieveAllAsString :: "Buffer \<Rightarrow> (string \<times> Buffer) option" where
  "retrieveAllAsString b = retrieveAsString (readableBytes b) b"

definition vector_resize :: "nat \<Rightarrow> string \<Rightarrow> string" where
  "vector_resize n xs = take n xs @ replicate (n - length xs) (chr_of 0)"

definition makeSpace :: "nat \<Rightarrow> Buffer \<Rightarrow> Buffer" where
  "makeSpace len b =
     (if writableBytes b + prependableByte b < len + kCheapPrepend
      then b\<lparr>buffer := vector_resize (writerIndex b + len) (buffer b)\<rparr>
      else let readable = readableBytes b in
        b\<lparr>buffer := copy_within (readerIndex b) kCheapPrepend
             (writerIndex b - readerIndex b) (buffer b),
          readerIndex := kCheapPrepend,
          writerIndex := kCheapPrepend + readable\<rparr>)"

definition ensureWritableBytes :: "nat \<Rightarrow> Buffer \<Rightarrow> Buffer" where
  "ensureWritableBytes len b = (if writableBytes b < len then makeSpace len b else b)"

definition buf_append :: "string \<Rightarrow> Buffer \<Rightarrow> Buffer" where
  "buf_append data b =
     (let b' = ensureWritableBytes (length data) b in
      b'\<lparr>buffer := overwrite (beginWrite b') data (buffer b'),
         writerIndex := writerIndex b' + length data\<rparr>)"

text \<open>\<open>std::search(start, beginWrite(), kCRLF, kCRLF + 2)\<close>, with \<open>None\<close> for the null pointer.\<close>

fun search_crlf :: "nat \<Rightarrow> string \<Rightarrow> nat option" where
  "search_crlf i (c # d # cs) =
     (if c = CHR 0x0D \<and> d = CHR 0x0A then Some i else search_crlf (Suc i) (d # cs))"
| "search_crlf i _ = None"

definition findCRLF_from :: "nat \<Rightarrow> Buffer \<Rightarrow> nat option" where
  "findCRLF_from start b =
     search_crlf start (take (beginWrite b - start) (drop start (buffer b)))"

definition findCRLF :: "Buffer \<Rightarrow> nat option" where
  "findCRLF b = findCRLF_from (peek b) b"

text \<open>
  \<open>readv\<close> over the writable tail and a 64 KiB stack buffer: the parameter maps the total
  length of the vectors to an error number or to the bytes the kernel delivered.
\<close>

definition extrabuf_size :: nat where "extrabuf_size = 65536"

definition readCapacity :: "Buffer \<Rightarrow> nat" where
  "readCapacity b =
     (if writableBytes b < extrabuf_size then writableBytes b + extrabuf_size
      else writableBytes b)"

definition readFd :: "(nat \<Rightarrow> int + string) \<Rightarrow> Buffer \<Rightarrow> (int + nat) \<times> Buffer" where
  "readFd readv b =
     (let writable = writableBytes b in
      case readv (readCapacity b) of
        Inl saveErrno \<Rightarrow> (Inl saveErrno, b)
      | Inr data \<Rightarrow>
          (let n = length data in
           if n \<le> writable
           then (Inr n, b\<lparr>buffer := overwrite (writerIndex b) data (buffer b),
                          writerIndex := writerIndex b + n\<rparr>)
           else let b' = b\<lparr>buffer := overwrite (writerIndex b) (take writable data) (buffer b),
                           writerIndex := length (buffer b)\<rparr>
                in (Inr n, buf_append (drop writable data) b')))"

text \<open>\<open>write(fd, peek(), readableBytes())\<close>: the buffer is unchanged, the caller retrieves.\<close>

definition writeFd :: "(string \<Rightarrow> int + nat) \<Rightarrow> Buffer \<Rightarrow> int + nat" where
  "writeFd write b = write (view b)"


section \<open>Invariant and action on the readable bytes\<close>

definition buffer_ok :: "Buffer \<Rightarrow> bool" where
  "buffer_ok b \<longleftrightarrow>
     kCheapPrepend \<le> readerIndex b \<and> readerIndex b \<le> writerIndex b \<and>
     writerIndex b \<le> length (buffer b)"

lemmas buffer_defs = readableBytes_def writableBytes_def prependableByte_def peek_def
  beginWrite_def kCheapPrepend_def

lemma newBuffer_ok [simp, inv_intros]: "buffer_ok (newBuffer n)"
  by (simp add: buffer_ok_def newBuffer_def)

lemma view_newBuffer [view_simps]: "view (newBuffer n) = []"
  by (simp add: view_def newBuffer_def buffer_defs)

lemma length_view [simp]: "buffer_ok b \<Longrightarrow> length (view b) = readableBytes b"
  by (auto simp: view_def buffer_ok_def buffer_defs)

lemma retrieveAll_ok [simp, inv_intros]: "buffer_ok b \<Longrightarrow> buffer_ok (retrieveAll b)"
  by (auto simp: buffer_ok_def retrieveAll_def)

lemma retrieve_ok [simp, inv_intros]: "buffer_ok b \<Longrightarrow> buffer_ok (retrieve n b)"
  by (auto simp: buffer_ok_def retrieve_def retrieveAll_def buffer_defs)

lemma view_retrieveAll [view_simps]: "view (retrieveAll b) = []"
  by (simp add: view_def retrieveAll_def buffer_defs)

lemma view_retrieve [view_simps]: "buffer_ok b \<Longrightarrow> view (retrieve n b) = drop n (view b)"
  by (auto simp: view_def retrieve_def retrieveAll_def buffer_ok_def buffer_defs drop_take add.commute)

lemma makeSpace_ok: "buffer_ok b \<Longrightarrow> buffer_ok (makeSpace n b)"
  by (auto simp: buffer_ok_def makeSpace_def vector_resize_def buffer_defs Let_def)

lemma view_makeSpace: "buffer_ok b \<Longrightarrow> view (makeSpace n b) = view b"
proof -
  assume ok: "buffer_ok b"
  show ?thesis
  proof (cases "writableBytes b + prependableByte b < n + kCheapPrepend")
    case True
    then show ?thesis
      using ok by (auto simp: makeSpace_def view_def vector_resize_def buffer_ok_def buffer_defs)
  next
    case False
    have "take (writerIndex b - readerIndex b)
        (drop kCheapPrepend (copy_within (readerIndex b) kCheapPrepend
           (writerIndex b - readerIndex b) (buffer b)))
      = take (writerIndex b - readerIndex b) (drop (readerIndex b) (buffer b))"
      using ok by (intro copy_within_block) (auto simp: buffer_ok_def)
    with False show ?thesis by (simp add: makeSpace_def view_def buffer_defs Let_def)
  qed
qed

lemma writable_makeSpace: "buffer_ok b \<Longrightarrow> writableBytes b < n \<Longrightarrow> n \<le> writableBytes (makeSpace n b)"
  by (auto simp: buffer_ok_def makeSpace_def vector_resize_def buffer_defs Let_def)

text \<open>The block move of \<open>makeSpace\<close> never overlaps itself: the destination is strictly before.\<close>

lemma makeSpace_moves_down:
  assumes "writableBytes b < n" "\<not> writableBytes b + prependableByte b < n + kCheapPrepend"
  shows "kCheapPrepend < readerIndex b"
  using assms by (simp add: prependableByte_def)

lemma ensureWritable:
  assumes "buffer_ok b"
  shows "buffer_ok (ensureWritableBytes n b)" "view (ensureWritableBytes n b) = view b"
    "n \<le> writableBytes (ensureWritableBytes n b)"
  using assms by (auto simp: ensureWritableBytes_def makeSpace_ok view_makeSpace writable_makeSpace)

text \<open>Writing \<open>data\<close> at the write index, as \<open>append\<close> and \<open>readFd\<close> do, when it fits.\<close>

lemma write_at_end:
  assumes "buffer_ok b" "length data \<le> writableBytes b"
  defines "b' \<equiv> b\<lparr>buffer := overwrite (writerIndex b) data (buffer b),
                   writerIndex := writerIndex b + length data\<rparr>"
  shows "buffer_ok b'" "view b' = view b @ data" "length (buffer b') = length (buffer b)"
proof -
  have fits: "writerIndex b + length data \<le> length (buffer b)"
    using assms(1,2) by (auto simp: buffer_ok_def writableBytes_def)
  then show "length (buffer b') = length (buffer b)"
    by (simp add: b'_def)
  then show "buffer_ok b'"
    using assms(1) fits by (auto simp: buffer_ok_def b'_def)
  show "view b' = view b @ data"
    using assms(1) fits take_drop_overwrite [of "writerIndex b" data "buffer b" "readerIndex b"]
    by (simp add: view_def b'_def buffer_ok_def buffer_defs)
qed

lemma buf_append_ok [simp, inv_intros]: "buffer_ok b \<Longrightarrow> buffer_ok (buf_append data b)"
  using write_at_end(1) [OF ensureWritable(1,3), of b data]
  by (simp add: buf_append_def Let_def beginWrite_def)

lemma view_buf_append [view_simps]: "buffer_ok b \<Longrightarrow> view (buf_append data b) = view b @ data"
  using write_at_end(2) [OF ensureWritable(1,3), of b data]
  by (simp add: buf_append_def Let_def beginWrite_def ensureWritable)

lemma readableBytes_retrieve_le: "readableBytes (retrieve n b) \<le> readableBytes b"
  by (auto simp: readableBytes_def retrieve_def retrieveAll_def)

lemma retrieveAllAsString_view:
  "buffer_ok b \<Longrightarrow> \<exists>b'. retrieveAllAsString b = Some (view b, b') \<and> buffer_ok b' \<and> view b' = []"
  by (auto simp: retrieveAllAsString_def retrieveAsString_def buffer_ok_def view_def retrieve_def
      retrieveAll_def buffer_defs)

lemma retrieveAsString_view:
  "buffer_ok b \<Longrightarrow> n \<le> readableBytes b \<Longrightarrow>
     retrieveAsString n b = Some (take n (view b), retrieve n b)"
  by (auto simp: retrieveAsString_def buffer_ok_def view_def buffer_defs min_def)

interpretation buf: byte_stream buffer_ok view buf_append retrieve
  by unfold_locales (simp_all add: view_simps)


section \<open>Reading from the socket\<close>

lemma readFd_error: "readv (readCapacity b) = Inl e \<Longrightarrow> readFd readv b = (Inl e, b)"
  by (simp add: readFd_def)

lemma readFd_data:
  assumes ok: "buffer_ok b" and data: "readv (readCapacity b) = Inr data"
  shows "fst (readFd readv b) = Inr (length data)"
    "buffer_ok (snd (readFd readv b))" "view (snd (readFd readv b)) = view b @ data"
proof -
  have "fst (readFd readv b) = Inr (length data) \<and> buffer_ok (snd (readFd readv b)) \<and>
      view (snd (readFd readv b)) = view b @ data"
  proof (cases "length data \<le> writableBytes b")
    case True
    with write_at_end [OF ok True] data show ?thesis by (simp add: readFd_def Let_def)
  next
    case False
    let ?head = "take (writableBytes b) data"
    let ?b = "b\<lparr>buffer := overwrite (writerIndex b) ?head (buffer b),
                writerIndex := length (buffer b)\<rparr>"
    have len: "length ?head = writableBytes b" using False by simp
    then have "writerIndex b + length ?head = length (buffer b)"
      using ok by (simp add: buffer_ok_def writableBytes_def)
    then have "buffer_ok ?b" "view ?b = view b @ ?head"
      using write_at_end [OF ok, of ?head] len by simp_all
    with False data show ?thesis by (simp add: readFd_def Let_def view_simps)
  qed
  then show "fst (readFd readv b) = Inr (length data)" "buffer_ok (snd (readFd readv b))"
    "view (snd (readFd readv b)) = view b @ data" by simp_all
qed


section \<open>Searching for line ends\<close>

lemma search_crlf_Some:
  "search_crlf i xs = Some k \<Longrightarrow>
     \<exists>pre post. xs = pre @ CHR 0x0D # CHR 0x0A # post \<and> k = i + length pre \<and>
       (\<forall>j < length pre. \<not> (xs ! j = CHR 0x0D \<and> xs ! Suc j = CHR 0x0A))"
proof (induction i xs rule: search_crlf.induct)
  case (1 i c d cs)
  show ?case
  proof (cases "c = CHR 0x0D \<and> d = CHR 0x0A")
    case True
    with 1 show ?thesis by (intro exI [of _ "[]"] exI [of _ cs]) auto
  next
    case False
    with "1.prems" have "search_crlf (Suc i) (d # cs) = Some k" by (simp split: if_splits)
    from "1.IH" [OF False this] obtain pre post where *: "d # cs = pre @ CHR 0x0D # CHR 0x0A # post"
      "k = Suc i + length pre"
      "\<forall>j < length pre. \<not> ((d # cs) ! j = CHR 0x0D \<and> (d # cs) ! Suc j = CHR 0x0A)"
      by blast
    have "\<forall>j < length (c # pre). \<not> ((c # d # cs) ! j = CHR 0x0D \<and> (c # d # cs) ! Suc j = CHR 0x0A)"
    proof (intro allI impI)
      fix j assume "j < length (c # pre)"
      with False *(3) show "\<not> ((c # d # cs) ! j = CHR 0x0D \<and> (c # d # cs) ! Suc j = CHR 0x0A)"
        by (cases j) auto
    qed
    with * show ?thesis by (intro exI [of _ "c # pre"] exI [of _ post]) simp
  qed
qed simp_all

lemma search_crlf_None:
  "search_crlf i xs = None \<longleftrightarrow>
     (\<forall>j. Suc j < length xs \<longrightarrow> \<not> (xs ! j = CHR 0x0D \<and> xs ! Suc j = CHR 0x0A))"
proof (induction i xs rule: search_crlf.induct)
  case (1 i c d cs)
  show ?case
  proof (cases "c = CHR 0x0D \<and> d = CHR 0x0A")
    case True
    then show ?thesis by force
  next
    case False
    with 1 show ?thesis by (auto simp: nth_Cons' All_less_Suc2 dest: spec [of _ "Suc _"])
  qed
qed simp_all

lemma search_crlf_shift: "search_crlf i xs = map_option ((+) i) (search_crlf 0 xs)"
proof -
  have "search_crlf (i + j) xs = map_option ((+) i) (search_crlf j xs)" for j
    by (induction j xs rule: search_crlf.induct) (simp_all flip: add_Suc_right)
  from this [of 0] show ?thesis by simp
qed

text \<open>In terms of the readable bytes.\<close>

lemma findCRLF_view: "findCRLF b = map_option ((+) (peek b)) (search_crlf 0 (view b))"
  by (simp add: findCRLF_def findCRLF_from_def view_def readableBytes_def beginWrite_def peek_def
      search_crlf_shift [of "readerIndex b"])

lemma search_crlf_append: "search_crlf i xs = Some k \<Longrightarrow> search_crlf i (xs @ ys) = Some k"
  by (induction i xs rule: search_crlf.induct) (auto split: if_splits)

lemma search_crlf_found:
  "\<forall>j < length pre. \<not> ((pre @ [CHR 0x0D]) ! j = CHR 0x0D \<and> (pre @ [CHR 0x0D]) ! Suc j = CHR 0x0A) \<Longrightarrow>
     search_crlf i (pre @ CHR 0x0D # CHR 0x0A # post) = Some (i + length pre)"
proof (induction pre arbitrary: i)
  case Nil
  then show ?case by simp
next
  case (Cons c pre)
  from Cons.prems have "\<forall>j < length pre.
      \<not> ((pre @ [CHR 0x0D]) ! j = CHR 0x0D \<and> (pre @ [CHR 0x0D]) ! Suc j = CHR 0x0A)" by auto
  note IH = Cons.IH [OF this, of "Suc i"]
  from Cons.prems have "\<not> (c = CHR 0x0D \<and> (pre @ [CHR 0x0D]) ! 0 = CHR 0x0A)" by force
  with IH show ?case by (cases pre) auto
qed


section \<open>Refinement of a byte queue\<close>

text \<open>
  The calls the connection and its parsers make on a buffer, and what each of them means for
  the bytes waiting in it. A read is given by what the kernel delivered.
\<close>

datatype BufferOp =
    OpAppend string
  | OpRetrieve nat
  | OpRetrieveAll
  | OpEnsure nat
  | OpReadFd "int + string"

fun buffer_step :: "BufferOp \<Rightarrow> Buffer \<Rightarrow> Buffer" where
  "buffer_step (OpAppend d) b = buf_append d b"
| "buffer_step (OpRetrieve n) b = retrieve n b"
| "buffer_step OpRetrieveAll b = retrieveAll b"
| "buffer_step (OpEnsure n) b = ensureWritableBytes n b"
| "buffer_step (OpReadFd r) b = snd (readFd (\<lambda>_. r) b)"

fun queue_step :: "BufferOp \<Rightarrow> string \<Rightarrow> string" where
  "queue_step (OpAppend d) q = q @ d"
| "queue_step (OpRetrieve n) q = drop n q"
| "queue_step OpRetrieveAll q = []"
| "queue_step (OpEnsure n) q = q"
| "queue_step (OpReadFd r) q = (case r of Inl _ \<Rightarrow> q | Inr d \<Rightarrow> q @ d)"

lemma buffer_step_refines:
  "buffer_ok b \<Longrightarrow> buffer_ok (buffer_step op b) \<and> view (buffer_step op b) = queue_step op (view b)"
proof (cases op)
  case (OpReadFd r)
  assume "buffer_ok b"
  then show ?thesis
    using readFd_data [of b "\<lambda>_. r"] by (cases r) (simp_all add: OpReadFd readFd_error)
qed (simp_all add: view_simps ensureWritable)

interpretation buf_queue: functional_refinement buffer_ok view buffer_step queue_step
  by unfold_locales (simp_all add: buffer_step_refines)

text \<open>
  C24: every sequence of buffer operations keeps \<open>kCheapPrepend \<le> readerIndex \<le> writerIndex \<le>
  size\<close> and makes the readable bytes evolve exactly as a byte queue: growing, moving the data
  down and the two-part \<open>readv\<close> never lose, duplicate or reorder a byte.
\<close>

theorem buffer_refines_queue:
  "buffer_ok (fold buffer_step ops (newBuffer n)) \<and>
   view (fold buffer_step ops (newBuffer n)) = fold queue_step ops []"
  using buf_queue.ops_ok [OF newBuffer_ok] buf_queue.ops_meaning [OF newBuffer_ok] by (simp add: view_simps)

text \<open>
  a successful \<open>readFd\<close> reports the number of bytes the kernel delivered and appends
  exactly those bytes to the readable region, also when they overflow into the stack buffer; it
  never asks the kernel for fewer than 64 KiB.
\<close>

theorem readFd_appends:
  assumes "buffer_ok b" and "readv (readCapacity b) = Inr data"
  shows "fst (readFd readv b) = Inr (length data) \<and> buffer_ok (snd (readFd readv b)) \<and>
    view (snd (readFd readv b)) = view b @ data \<and> extrabuf_size \<le> readCapacity b"
  using readFd_data [of b readv] assms by (simp add: readCapacity_def)

theorem readFd_appends_witness:
  "view (snd (readFd (\<lambda>cap. Inr (take cap ''abcdef'')) (buf_append ''xy'' (newBuffer 4)))) = ''xyabcdef''"
proof -
  let ?b = "buf_append ''xy'' (newBuffer 4)"
  have "extrabuf_size \<le> readCapacity ?b" by (simp add: readCapacity_def)
  then have "take (readCapacity ?b) ''abcdef'' = ''abcdef''" by (simp add: extrabuf_size_def)
  then show ?thesis
    using readFd_appends [of ?b "\<lambda>cap. Inr (take cap ''abcdef'')" "''abcdef''"]
    by (simp add: view_simps)
qed

text \<open>
  \<open>findCRLF\<close> finds the first line end of the readable bytes and nothing else: a result is
  a pointer inside the readable region at the first carriage return followed by a line feed,
  and the null pointer means that no such pair is there.
\<close>

theorem findCRLF_first:
  "case findCRLF b of
     None \<Rightarrow> \<forall>j. Suc j < length (view b) \<longrightarrow>
               \<not> (view b ! j = CHR 0x0D \<and> view b ! Suc j = CHR 0x0A)
   | Some p \<Rightarrow> \<exists>line rest. view b = line @ CHR 0x0D # CHR 0x0A # rest \<and>
               p = peek b + length line \<and>
               (\<forall>j < length line. \<not> (view b ! j = CHR 0x0D \<and> view b ! Suc j = CHR 0x0A))"
proof (cases "search_crlf 0 (view b)")
  case None
  with search_crlf_None [of 0 "view b"] show ?thesis by (simp add: findCRLF_view None del: not_None_eq)
next
  case (Some k)
  from search_crlf_Some [OF this] show ?thesis by (auto simp: findCRLF_view Some)
qed

theorem findCRLF_first_witness:
  "view (buf_append ''GET'' (newBuffer 8)) = ''GET'' \<and> findCRLF (buf_append ''GET'' (newBuffer 8)) = None"
proof -
  let ?b = "buf_append ''GET'' (newBuffer 8)"
  have v: "view ?b = ''GET''" by (simp add: view_simps)
  from findCRLF_first [of ?b] have "findCRLF ?b = None"
    by (auto simp: v Cons_eq_append_conv split: option.splits)
  with v show ?thesis by simp
qed

end
