(* ===== verification/RtmpTypes.thy ===== *)
theory RtmpTypes
  imports Prelude
begin

text \<open>
  Constants, enumerations and the message record shared by the RTMP theories
  (\<open>src/rtmp/RtmpTypes.h\<close>, \<open>src/rtmp/RtmpMessage.h\<close>).
\<close>

definition kVersion :: u8 where "kVersion = 3"
definition kDefaultChunkSize :: u32 where "kDefaultChunkSize = 128"
definition kDefaultAcknowledgementWindow :: u32 where "kDefaultAcknowledgementWindow = 5000000"
definition kDefaultPeerBandwidth :: u32 where "kDefaultPeerBandwidth = 5000000"

definition kChunkHeaderType0 :: u8 where "kChunkHeaderType0 = 0"
definition kChunkHeaderType1 :: u8 where "kChunkHeaderType1 = 1"
definition kChunkHeaderType2 :: u8 where "kChunkHeaderType2 = 2"
definition kChunkHeaderType3 :: u8 where "kChunkHeaderType3 = 3"

lemmas chunk_header_types = kChunkHeaderType0_def kChunkHeaderType1_def kChunkHeaderType2_def
  kChunkHeaderType3_def

definition kMessageTypeSetChunkSize :: u8 where "kMessageTypeSetChunkSize = 1"
definition kMessageTypeWindowAcknowledgementSize :: u8 where
  "kMessageTypeWindowAcknowledgementSize = 5"
definition kMessageTypeSetPeerBandwidth :: u8 where "kMessageTypeSetPeerBandwidth = 6"
definition kMessageTypeAudio :: u8 where "kMessageTypeAudio = 8"
definition kMessageTypeVideo :: u8 where "kMessageTypeVideo = 9"
definition kMessageTypeDataAmf0 :: u8 where "kMessageTypeDataAmf0 = 18"
definition kMessageTypeCommandAmf0 :: u8 where "kMessageTypeCommandAmf0 = 20"

lemmas message_types = kMessageTypeSetChunkSize_def kMessageTypeWindowAcknowledgementSize_def
  kMessageTypeSetPeerBandwidth_def kMessageTypeAudio_def kMessageTypeVideo_def
  kMessageTypeDataAmf0_def kMessageTypeCommandAmf0_def

definition kChunkStreamIdControl :: u32 where "kChunkStreamIdControl = 2"
definition kChunkStreamIdCommand :: u32 where "kChunkStreamIdCommand = 3"

datatype HandshakeState = kWaitC0C1 | kSendS0S1S2 | kWaitC2 | kHandshakeDone

datatype ConnectionRole = kUnknown | kPublisher | kPlayer

definition MakeStreamKey :: "string \<Rightarrow> string \<Rightarrow> string" where
  "MakeStreamKey app stream_name = ''/'' @ app @ ''/'' @ stream_name"

record RtmpMessage =
  timestamp :: u32
  messageLength :: u32
  typeId :: u8
  messageStreamId :: u32
  chunkStreamId :: u32
  payload :: string

end
