(* ===== verification/RtmpChunkParser.thy ===== *)
theory RtmpChunkParser
  imports Buffer RtmpTypes
begin

text \<open>
  The RTMP chunk parser (\<open>src/rtmp/RtmpChunkParser.h\<close>, \<open>RtmpChunkParser.cc\<close>).

  The parser is called again with the same buffer whenever bytes arrive; it mutates the state of
  a chunk stream while it reads a header, also when it then finds that the chunk is not complete
  and leaves the buffer as it is. All of that is in the model: every operation returns the
  state it leaves behind. Copying a chunk past the end of the message's payload string would be
  undefined behaviour in C++; the model has it as the failure \<open>OutOfBounds\<close>, which is proved
  unreachable. \<open>chunk_step\<close> restates one attempt as a function of the readable bytes alone, which
  is the form the interface \<open>incremental_parser\<close> speaks about.
\<close>

section \<open>State\<close>

record ChunkStreamState =
  cs_timestamp :: u32
  cs_timestampDelta :: u32
  cs_extendedTimestamp :: u32
  cs_messageLength :: u32
  cs_typeId :: u8
  cs_messageStreamId :: u32
  cs_bytesRead :: u32
  cs_payload :: string
  cs_headerInitialized :: bool

definition newChunkStreamState :: ChunkStreamState where
  "newChunkStreamState =
     \<lparr>cs_timestamp = 0, cs_timestampDelta = 0, cs_extendedTimestamp = 0, cs_messageLength = 0,
      cs_typeId = 0, cs_messageStreamId = 0, cs_bytesRead = 0, cs_payload = [],
      cs_headerInitialized = False\<rparr>"

record RtmpChunkParser =
  inChunkSize :: u32
  chunkStreams :: "u32 \<rightharpoonup> ChunkStreamState"

definition newRtmpChunkParser :: RtmpChunkParser where
  "newRtmpChunkParser = \<lparr>inChunkSize = kDefaultChunkSize, chunkStreams = Map.empty\<rparr>"

definition setInChunkSize :: "u32 \<Rightarrow> RtmpChunkParser \<Rightarrow> RtmpChunkParser" where
  "setInChunkSize chunk_size p = p\<lparr>inChunkSize := chunk_size\<rparr>"

datatype ParseFailure = ParseError string | OutOfBounds


section \<open>Reading headers\<close>

definition ReadUint24BE :: "string \<Rightarrow> u32" where
  "ReadUint24BE data = put_byte (data ! 0) 16 OR put_byte (data ! 1) 8 OR put_byte (data ! 2) 0"

definition ReadUint32BE :: "string \<Rightarrow> u32" where
  "ReadUint32BE data = put_byte (data ! 0) 24 OR put_byte (data ! 1) 16 OR
     put_byte (data ! 2) 8 OR put_byte (data ! 3) 0"

definition ReadUint32LE :: "string \<Rightarrow> u32" where
  "ReadUint32LE data = put_byte (data ! 3) 24 OR put_byte (data ! 2) 16 OR
     put_byte (data ! 1) 8 OR put_byte (data ! 0) 0"

text \<open>The format, the chunk stream id and the header size; size 0 asks for more bytes.\<close>

definition parseBasicHeader :: "string \<Rightarrow> u8 \<times> u32 \<times> nat" where
  "parseBasicHeader data =
     (if length data < 1 then (0, 0, 0)
      else
        let first = u8_of (data ! 0);
            fmt = drop_bit 6 first;
            csid_mark = first AND 0x3F
        in
        if csid_mark \<ge> 2 then (fmt, ucast csid_mark, 1)
        else if csid_mark = 0 then
          (if length data < 2 then (fmt, 0, 0)
           else (fmt, 64 + ucast (u8_of (data ! 1)), 2))
        else if length data < 3 then (fmt, 0, 0)
        else (fmt, 64 + ucast (u8_of (data ! 1)) + push_bit 8 (ucast (u8_of (data ! 2))), 3))"

definition assign_payload :: "ChunkStreamState \<Rightarrow> ChunkStreamState" where
  "assign_payload st =
     st\<lparr>cs_payload := replicate (unat (cs_messageLength st)) (CHR 0x00)\<rparr>"

text \<open>
  The message header of the given format: an error, or the bytes used (0 asks for more), and the
  state as the code leaves it in either case.
\<close>

definition parseMessageHeader ::
  "string \<Rightarrow> u8 \<Rightarrow> ChunkStreamState \<Rightarrow> (string + nat) \<times> ChunkStreamState" where
  "parseMessageHeader data fmt st =
     (if fmt = kChunkHeaderType0 then
        (if length data < 11 then (Inr 0, st)
         else
           let ts = ReadUint24BE data;
               st = st\<lparr>cs_messageLength := ReadUint24BE (drop 3 data),
                       cs_typeId := u8_of (data ! 6),
                       cs_messageStreamId := ReadUint32LE (drop 7 data),
                       cs_timestampDelta := 0\<rparr>
           in
           if ts = 0x00FFFFFF then
             (if length data < 11 + 4 then (Inr 0, st)
              else let ext = ReadUint32BE (drop 11 data) in
                (Inr 15, assign_payload (st\<lparr>cs_extendedTimestamp := ext, cs_timestamp := ext,
                           cs_bytesRead := 0, cs_headerInitialized := True\<rparr>)))
           else
             (Inr 11, assign_payload (st\<lparr>cs_extendedTimestamp := 0, cs_timestamp := ts,
                        cs_bytesRead := 0, cs_headerInitialized := True\<rparr>)))
      else if \<not> cs_headerInitialized st then
        (Inl ''received continuation chunk before first fmt=0 header'', st)
      else if fmt = kChunkHeaderType1 then
        (if length data < 7 then (Inr 0, st)
         else
           let delta = ReadUint24BE data;
               st = st\<lparr>cs_messageLength := ReadUint24BE (drop 3 data),
                       cs_typeId := u8_of (data ! 6)\<rparr>
           in
           if delta = 0x00FFFFFF then
             (if length data < 7 + 4 then (Inr 0, st)
              else let ext = ReadUint32BE (drop 7 data) in
                (Inr 11, assign_payload (st\<lparr>cs_extendedTimestamp := ext, cs_timestampDelta := ext,
                           cs_timestamp := cs_timestamp st + ext, cs_bytesRead := 0\<rparr>)))
           else
             (Inr 7, assign_payload (st\<lparr>cs_extendedTimestamp := 0, cs_timestampDelta := delta,
                       cs_timestamp := cs_timestamp st + delta, cs_bytesRead := 0\<rparr>)))
      else if fmt = kChunkHeaderType2 then
        (if length data < 3 then (Inr 0, st)
         else
           let delta = ReadUint24BE data in
           if delta = 0x00FFFFFF then
             (if length data < 3 + 4 then (Inr 0, st)
              else let ext = ReadUint32BE (drop 3 data) in
                (Inr 7, assign_payload (st\<lparr>cs_extendedTimestamp := ext, cs_timestampDelta := ext,
                          cs_timestamp := cs_timestamp st + ext, cs_bytesRead := 0\<rparr>)))
           else
             (Inr 3, assign_payload (st\<lparr>cs_extendedTimestamp := 0, cs_timestampDelta := delta,
                       cs_timestamp := cs_timestamp st + delta, cs_bytesRead := 0\<rparr>)))
      else if fmt = kChunkHeaderType3 then
        (let st = (if cs_bytesRead st = 0 \<and> cs_messageLength st > 0
                   then assign_payload (st\<lparr>cs_timestamp := cs_timestamp st + cs_timestampDelta st\<rparr>)
                   else st)
         in
         if cs_extendedTimestamp st \<noteq> 0 then
           (if length data < 4 then (Inr 0, st) else (Inr 4, st))
         else (Inr 0, st))
      else (Inl ''invalid chunk header fmt'', st))"


section \<open>One chunk\<close>

definition lookupStream :: "RtmpChunkParser \<Rightarrow> u32 \<Rightarrow> ChunkStreamState" where
  "lookupStream p csid =
     (case chunkStreams p csid of None \<Rightarrow> newChunkStreamState | Some st \<Rightarrow> st)"

definition storeStream :: "u32 \<Rightarrow> ChunkStreamState \<Rightarrow> RtmpChunkParser \<Rightarrow> RtmpChunkParser" where
  "storeStream csid st p = p\<lparr>chunkStreams := (chunkStreams p)(csid \<mapsto> st)\<rparr>"

definition finishedMessage :: "u32 \<Rightarrow> ChunkStreamState \<Rightarrow> RtmpMessage" where
  "finishedMessage csid st =
     \<lparr>timestamp = cs_timestamp st, messageLength = cs_messageLength st, typeId = cs_typeId st,
      messageStreamId = cs_messageStreamId st, chunkStreamId = csid, payload = cs_payload st\<rparr>"

text \<open>
  One attempt on the buffer: \<open>None\<close> is the return value true, \<open>Some\<close> the return value false (or
  undefined behaviour). The chunk stream entry is created by \<open>operator[]\<close> before the message
  header is read.
\<close>

definition parseOneChunk ::
  "Buffer \<Rightarrow> RtmpMessage list \<Rightarrow> RtmpChunkParser
     \<Rightarrow> ParseFailure option \<times> Buffer \<times> RtmpMessage list \<times> RtmpChunkParser" where
  "parseOneChunk buf messages p =
     (let data = view buf;
          readable = readableBytes buf;
          (fmt, csid, basic_header_size) = parseBasicHeader data
      in
      if basic_header_size = 0 then (None, buf, messages, p)
      else
        let (header, st) = parseMessageHeader (drop basic_header_size data) fmt (lookupStream p csid);
            p = storeStream csid st p
        in
        case header of
          Inl e \<Rightarrow> (Some (ParseError e), buf, messages, p)
        | Inr message_header_size \<Rightarrow>
            (let fmt3_without_extra_header =
                   fmt = kChunkHeaderType3 \<and> cs_headerInitialized st \<and> cs_extendedTimestamp st = 0;
                 offset = basic_header_size + message_header_size;
                 remaining = cs_messageLength st - cs_bytesRead st;
                 chunk_payload = min remaining (inChunkSize p)
             in
             if message_header_size = 0 \<and> \<not> fmt3_without_extra_header then (None, buf, messages, p)
             else if \<not> cs_headerInitialized st then (None, buf, messages, p)
             else if readable < offset + unat chunk_payload then (None, buf, messages, p)
             else if length (cs_payload st) < unat (cs_bytesRead st) + unat chunk_payload
               then (Some OutOfBounds, buf, messages, p)
             else
               let st = st\<lparr>cs_payload := overwrite (unat (cs_bytesRead st))
                              (take (unat chunk_payload) (drop offset data)) (cs_payload st),
                           cs_bytesRead := cs_bytesRead st + chunk_payload\<rparr>;
                   buf = retrieve (offset + unat chunk_payload) buf
               in
               if cs_bytesRead st = cs_messageLength st
               then (None, buf, messages @ [finishedMessage csid st],
                     storeStream csid (st\<lparr>cs_bytesRead := 0, cs_payload := []\<rparr>) p)
               else (None, buf, messages, storeStream csid st p)))"

text \<open>The same attempt on the readable bytes.\<close>

definition chunk_step ::
  "RtmpChunkParser \<Rightarrow> string
     \<Rightarrow> (RtmpChunkParser, ParseFailure \<times> RtmpChunkParser, RtmpMessage) outcome" where
  "chunk_step p data =
     (let (fmt, csid, h) = parseBasicHeader data in
      if h = 0 then Wait p
      else
        let (header, st) = parseMessageHeader (drop h data) fmt (lookupStream p csid);
            p1 = storeStream csid st p;
            n = unat (min (cs_messageLength st - cs_bytesRead st) (inChunkSize p))
        in
        case header of
          Inl e \<Rightarrow> Reject (ParseError e, p1)
        | Inr mh \<Rightarrow>
            (if mh = 0 \<and> \<not> (fmt = kChunkHeaderType3 \<and> cs_headerInitialized st \<and>
                             cs_extendedTimestamp st = 0) \<or>
                \<not> cs_headerInitialized st \<or> length data < h + mh + n
             then Wait p1
             else if length (cs_payload st) < unat (cs_bytesRead st) + n then Reject (OutOfBounds, p1)
             else
               let st = st\<lparr>cs_payload := overwrite (unat (cs_bytesRead st))
                              (take n (drop (h + mh) data)) (cs_payload st),
                           cs_bytesRead := cs_bytesRead st + word_of_nat n\<rparr>
               in
               if cs_bytesRead st = cs_messageLength st
               then Consume (h + mh + n) (storeStream csid (st\<lparr>cs_bytesRead := 0, cs_payload := []\<rparr>) p)
                      [finishedMessage csid st]
               else Consume (h + mh + n) (storeStream csid st p) []))"

lemma storeStream_twice [simp]: "storeStream c s (storeStream c t p) = storeStream c s p"
  by (simp add: storeStream_def)

lemma inChunkSize_storeStream [simp]: "inChunkSize (storeStream c s p) = inChunkSize p"
  by (simp add: storeStream_def)

lemma parseOneChunk_step:
  "buffer_ok buf \<Longrightarrow>
   parseOneChunk buf ms p =
     (case chunk_step p (view buf) of
        Wait p' \<Rightarrow> (None, buf, ms, p')
      | Reject (f, p') \<Rightarrow> (Some f, buf, ms, p')
      | Consume n p' os \<Rightarrow> (None, retrieve n buf, ms @ os, p'))"
  by (simp add: parseOneChunk_def chunk_step_def Let_def split: prod.splits sum.splits)

section \<open>The parse loop\<close>

lemma parseOneChunk_readable_le:
  "parseOneChunk buf ms p = (r, buf', ms', p') \<Longrightarrow> readableBytes buf' \<le> readableBytes buf"
  by (auto simp: parseOneChunk_def Let_def readableBytes_retrieve_le
      split: prod.splits sum.splits if_splits)

function parse ::
  "Buffer \<Rightarrow> RtmpMessage list \<Rightarrow> RtmpChunkParser
     \<Rightarrow> ParseFailure option \<times> Buffer \<times> RtmpMessage list \<times> RtmpChunkParser" where
  "parse buf messages p =
     (if readableBytes buf > 0 then
        (let before = readableBytes buf in
         case parseOneChunk buf messages p of
           (Some f, buf', messages', p') \<Rightarrow> (Some f, buf', messages', p')
         | (None, buf', messages', p') \<Rightarrow>
             (if readableBytes buf' = before then (None, buf', messages', p')
              else parse buf' messages' p'))
      else (None, buf, messages, p))"
  by pat_completeness auto
termination
  by (relation "measure (\<lambda>(buf, ms, p). readableBytes buf)")
    (auto dest!: parseOneChunk_readable_le [OF sym])

declare parse.simps [simp del]

lemma parseBasicHeader_size:
  "parseBasicHeader d = (fmt, csid, h) \<Longrightarrow> h \<le> length d \<and> h \<le> 3"
  by (auto simp: parseBasicHeader_def Let_def Suc_le_eq split: if_splits)

lemma chunk_step_consumes:
  "chunk_step p v = Consume n p' os \<Longrightarrow> 0 < n \<and> n \<le> length v"
  by (auto simp: chunk_step_def Let_def split: prod.splits sum.splits if_splits)

lemma chunk_step_Nil: "chunk_step p [] = Wait p"
  by (simp add: chunk_step_def parseBasicHeader_def)

lemma run_steps_Wait: "step s v = Wait s' \<Longrightarrow> run_steps step s v = Inr (s', v, [])"
  by (simp add: run_steps.simps)

text \<open>The loop over the buffer is the generic driver on the readable bytes.\<close>

lemma parse_run:
  "buffer_ok buf \<Longrightarrow>
   (case run_steps chunk_step p (view buf) of
      Inl (f, p') \<Rightarrow> \<exists>buf' ms'. parse buf ms p = (Some f, buf', ms', p')
    | Inr (p', rest, os) \<Rightarrow> \<exists>buf'. parse buf ms p = (None, buf', ms @ os, p') \<and>
        buffer_ok buf' \<and> view buf' = rest)"
proof (induction buf ms p rule: parse.induct)
  case (1 buf ms p)
  show ?case
  proof (cases "chunk_step p (view buf)")
    case (Wait p')
    show ?thesis
    proof (cases "view buf = []")
      case True
      with "1.prems" length_view [of buf] Wait show ?thesis
        by (auto simp: parse.simps [of buf] run_steps_Wait chunk_step_Nil)
    next
      case False
      then have "0 < readableBytes buf"
        using length_view [OF "1.prems"] by (metis length_greater_0_conv)
      with "1.prems" Wait show ?thesis
        by (auto simp: parse.simps [of buf] run_steps_Wait parseOneChunk_step)
    qed
  next
    case (Reject e)
    then have "view buf \<noteq> []" by (auto simp: chunk_step_Nil)
    then have "0 < readableBytes buf"
      using length_view [OF "1.prems"] by (metis length_greater_0_conv)
    with "1.prems" Reject show ?thesis
      by (cases e) (auto simp: parse.simps [of buf] run_steps.simps parseOneChunk_step)
  next
    case (Consume n p' os)
    have n: "0 < n" "n \<le> length (view buf)" using chunk_step_consumes [OF Consume] by simp_all
    have one: "parseOneChunk buf ms p = (None, retrieve n buf, ms @ os, p')"
      using "1.prems" Consume by (simp add: parseOneChunk_step)
    have pos: "0 < readableBytes buf" using n "1.prems" length_view [of buf] by linarith
    have "length (view (retrieve n buf)) \<noteq> length (view buf)"
      using n "1.prems" by (simp only: view_retrieve) simp
    then have less: "readableBytes (retrieve n buf) \<noteq> readableBytes buf"
      using "1.prems" by simp
    from "1.IH" [OF pos refl one [symmetric] refl refl refl less] "1.prems"
    have IH: "case run_steps chunk_step p' (drop n (view buf)) of
        Inl (f, p'') \<Rightarrow> \<exists>buf' ms'. parse (retrieve n buf) (ms @ os) p' = (Some f, buf', ms', p'')
      | Inr (p'', rest, os') \<Rightarrow> \<exists>buf'. parse (retrieve n buf) (ms @ os) p' = (None, buf', (ms @ os) @ os', p'') \<and>
          buffer_ok buf' \<and> view buf' = rest" by (simp add: view_simps)
    have "parse buf ms p = parse (retrieve n buf) (ms @ os) p'"
      using pos one less by (simp add: parse.simps [of buf])
    with IH n show ?thesis
      by (auto simp: run_steps.simps [of chunk_step p "view buf"] Consume split: sum.splits)
  qed
qed

section \<open>Headers are decided by their own bytes\<close>

lemma parseBasicHeader_append:
  "parseBasicHeader d = (fmt, csid, h) \<Longrightarrow> h \<noteq> 0 \<Longrightarrow> parseBasicHeader (d @ w) = (fmt, csid, h)"
  by (auto simp: parseBasicHeader_def Let_def nth_append split: if_splits)

lemma read_append:
  "3 \<le> length d \<Longrightarrow> ReadUint24BE (d @ w) = ReadUint24BE d"
  "4 \<le> length d \<Longrightarrow> ReadUint32BE (d @ w) = ReadUint32BE d"
  "4 \<le> length d \<Longrightarrow> ReadUint32LE (d @ w) = ReadUint32LE d"
  by (auto simp: ReadUint24BE_def ReadUint32BE_def ReadUint32LE_def nth_append)

lemma parseMessageHeader_append:
  assumes "parseMessageHeader d fmt st = (r, st')"
    and "r \<noteq> Inr 0 \<or> fmt = kChunkHeaderType3 \<and> cs_extendedTimestamp st' = 0"
  shows "parseMessageHeader (d @ w) fmt st = (r, st')"
proof -
  consider (h0) "fmt = 0" | (h1) "fmt = 1" | (h2) "fmt = 2" | (h3) "fmt = 3"
    | (other) "fmt \<notin> {0, 1, 2, 3}" by blast
  then show ?thesis
  proof cases
    case h0
    with assms show ?thesis
      by (simp add: parseMessageHeader_def Let_def read_append nth_append_left chunk_header_types
          split: if_splits)
  next
    case h1
    with assms show ?thesis
      by (simp add: parseMessageHeader_def Let_def read_append nth_append_left chunk_header_types
          split: if_splits)
  next
    case h2
    with assms show ?thesis
      by (simp add: parseMessageHeader_def Let_def read_append chunk_header_types
          split: if_splits)
  next
    case h3
    with assms show ?thesis
      by (auto simp: parseMessageHeader_def Let_def assign_payload_def chunk_header_types
          split: if_splits)
  next
    case other
    with assms show ?thesis by (simp add: parseMessageHeader_def chunk_header_types split: if_splits)
  qed
qed


section \<open>No out-of-bounds copy\<close>

definition stream_ok :: "ChunkStreamState \<Rightarrow> bool" where
  "stream_ok st \<longleftrightarrow> cs_bytesRead st \<le> cs_messageLength st \<and>
     (cs_bytesRead st \<noteq> 0 \<longrightarrow> length (cs_payload st) = unat (cs_messageLength st))"

text \<open>
  A header of format 0 or 1 whose extended timestamp has not arrived leaves the new message
  length with the old byte count. That is repaired when the same header, still first in the
  buffer, is read again.
\<close>

definition header_pending :: "string \<Rightarrow> u32 \<Rightarrow> bool" where
  "header_pending v c \<longleftrightarrow> (let (fmt, csid, h) = parseBasicHeader v in
     csid = c \<and> h \<noteq> 0 \<and> (fmt = kChunkHeaderType0 \<or> fmt = kChunkHeaderType1))"

definition parser_ok :: "RtmpChunkParser \<Rightarrow> string \<Rightarrow> bool" where
  "parser_ok p v \<longleftrightarrow>
     (\<forall>c st. chunkStreams p c = Some st \<longrightarrow> stream_ok st \<or> header_pending v c)"

lemma newRtmpChunkParser_ok: "parser_ok newRtmpChunkParser v"
  by (simp add: parser_ok_def newRtmpChunkParser_def)

lemma header_pending_append: "header_pending v c \<Longrightarrow> header_pending (v @ w) c"
  by (auto simp: header_pending_def parseBasicHeader_append split: prod.splits)

lemma parser_ok_append: "parser_ok p v \<Longrightarrow> parser_ok p (v @ w)"
  using header_pending_append by (force simp: parser_ok_def)

lemma parser_ok_setInChunkSize: "parser_ok p v \<Longrightarrow> parser_ok (setInChunkSize n p) v"
  by (simp add: parser_ok_def setInChunkSize_def)

lemma stream_ok_new: "stream_ok newChunkStreamState"
  by (simp add: stream_ok_def newChunkStreamState_def)

lemma parseMessageHeader_stream_ok:
  "parseMessageHeader d fmt st = (r, st') \<Longrightarrow> stream_ok st \<Longrightarrow>
     stream_ok st' \<or> fmt = kChunkHeaderType0 \<or> fmt = kChunkHeaderType1"
  by (auto simp: parseMessageHeader_def Let_def stream_ok_def assign_payload_def split: if_splits)

lemma parseMessageHeader_complete:
  assumes "parseMessageHeader d fmt st = (Inr mh, st')"
    and "mh \<noteq> 0 \<or> fmt = kChunkHeaderType3"
    and "stream_ok st \<or> fmt = kChunkHeaderType0 \<or> fmt = kChunkHeaderType1"
  shows "cs_bytesRead st' \<le> cs_messageLength st' \<and>
    (cs_messageLength st' = 0 \<or> length (cs_payload st') = unat (cs_messageLength st'))"
  using assms
  by (auto simp: parseMessageHeader_def Let_def stream_ok_def assign_payload_def chunk_header_types
      word_gt_0 split: if_splits)

lemma copied_bytes:
  fixes br ml sz :: u32
  assumes "br \<le> ml"
  defines "n \<equiv> unat (min (ml - br) sz)"
  shows "unat br + n \<le> unat ml" "br + word_of_nat n \<le> ml"
    "unat (br + word_of_nat n) = unat br + n"
proof -
  have "min (ml - br) sz \<le> ml - br" by simp
  then have "n \<le> unat (ml - br)" unfolding n_def by (simp only: word_le_nat_alt)
  also have "unat (ml - br) = unat ml - unat br" using assms(1) by (simp add: unat_sub)
  finally show *: "unat br + n \<le> unat ml" using assms(1) by (simp add: word_le_nat_alt)
  have "unat ml < 2 ^ 32" using unsigned_less [of ml] by simp
  with * show **: "unat (br + word_of_nat n) = unat br + n"
    by (simp add: n_def unat_plus_if')
  from * ** show "br + word_of_nat n \<le> ml" by (simp add: word_le_nat_alt)
qed

lemma stream_ok_lookup:
  "parser_ok p v \<Longrightarrow> stream_ok (lookupStream p c) \<or> header_pending v c"
  by (auto simp: parser_ok_def lookupStream_def stream_ok_new split: option.splits)

lemma parser_ok_store:
  "parser_ok p v \<Longrightarrow> stream_ok st \<or> header_pending v c \<Longrightarrow> parser_ok (storeStream c st p) v"
  by (auto simp: parser_ok_def storeStream_def)

text \<open>Once the first chunk is consumed only the stream it belongs to may have been inconsistent.\<close>

lemma parser_ok_store_consumed:
  assumes "parser_ok p v" "parseBasicHeader v = (fmt, c, h)" "stream_ok st"
  shows "parser_ok (storeStream c st p) w"
  using assms by (auto simp: parser_ok_def storeStream_def header_pending_def)

lemma parseMessageHeader_keeps_ok:
  assumes "parser_ok p v" "parseBasicHeader v = (fmt, c, h)" "h \<noteq> 0"
    "parseMessageHeader d fmt (lookupStream p c) = (r, st)"
  shows "parser_ok (storeStream c st p) v"
proof (rule parser_ok_store [OF assms(1)])
  show "stream_ok st \<or> header_pending v c"
    using stream_ok_lookup [OF assms(1), of c] parseMessageHeader_stream_ok [OF assms(4)] assms(2,3)
    by (auto simp: header_pending_def)
qed

lemma chunk_step_ok:
  assumes ok: "parser_ok p v"
  shows "case chunk_step p v of
      Wait p' \<Rightarrow> parser_ok p' v
    | Consume n p' os \<Rightarrow> parser_ok p' (drop n v)
    | Reject (f, p') \<Rightarrow> f \<noteq> OutOfBounds \<and> parser_ok p' v"
proof -
  obtain fmt c h where bh: "parseBasicHeader v = (fmt, c, h)" by (cases "parseBasicHeader v")
  obtain r st where mh: "parseMessageHeader (drop h v) fmt (lookupStream p c) = (r, st)" by force
  show ?thesis
  proof (cases "h = 0")
    case True
    with ok bh show ?thesis by (simp add: chunk_step_def)
  next
    case False
    note ok1 = parseMessageHeader_keeps_ok [OF ok bh False mh]
    show ?thesis
    proof (cases r)
      case (Inl e)
      with ok1 bh mh False show ?thesis by (simp add: chunk_step_def Let_def)
    next
      case (Inr k)
      let ?br = "cs_bytesRead st" and ?ml = "cs_messageLength st"
      let ?n = "unat (min (?ml - ?br) (inChunkSize p))"
      let ?wait = "k = 0 \<and> \<not> (fmt = kChunkHeaderType3 \<and> cs_headerInitialized st \<and>
          cs_extendedTimestamp st = 0) \<or> \<not> cs_headerInitialized st \<or> length v < h + k + ?n"
      show ?thesis
      proof (cases ?wait)
        case True
        with Inr ok1 bh mh False show ?thesis by (simp add: chunk_step_def Let_def)
      next
        case no_wait: False
        have "stream_ok (lookupStream p c) \<or> fmt = kChunkHeaderType0 \<or> fmt = kChunkHeaderType1"
          using stream_ok_lookup [OF ok, of c] bh by (auto simp: header_pending_def)
        with parseMessageHeader_complete [of "drop h v" fmt "lookupStream p c" k st] mh Inr no_wait
        have br: "?br \<le> ?ml" and len: "?ml = 0 \<or> length (cs_payload st) = unat ?ml" by auto
        note copy = copied_bytes [OF br, of "inChunkSize p"]
        have fits: "unat ?br + ?n \<le> length (cs_payload st)"
          using copy(1) len by auto
        have size: "length (take ?n (drop (h + k) v)) = ?n"
          using no_wait by (auto simp: min_absorb2)
        define st' where "st' = st\<lparr>cs_payload := overwrite (unat ?br) (take ?n (drop (h + k) v)) (cs_payload st),
            cs_bytesRead := ?br + word_of_nat ?n\<rparr>"
        have "stream_ok st'" "stream_ok (st'\<lparr>cs_bytesRead := 0, cs_payload := []\<rparr>)"
          using copy(2) len fits size by (auto simp: st'_def stream_ok_def)
        note kept = this [THEN parser_ok_store_consumed [OF ok bh]]
        have "chunk_step p v =
            (if cs_bytesRead st' = cs_messageLength st'
             then Consume (h + k + ?n) (storeStream c (st'\<lparr>cs_bytesRead := 0, cs_payload := []\<rparr>) p)
                    [finishedMessage c st']
             else Consume (h + k + ?n) (storeStream c st' p) [])"
          using no_wait fits False unfolding st'_def
          by (simp add: chunk_step_def Let_def bh mh Inr del: de_Morgan_conj)
        with kept show ?thesis by (cases "cs_bytesRead st' = cs_messageLength st'") simp_all
      qed
    qed
  qed
qed

text \<open>The invariant relates the parser to the bytes still in the buffer.\<close>

definition parser_inv :: "Buffer \<Rightarrow> RtmpChunkParser \<Rightarrow> bool" where
  "parser_inv buf p \<longleftrightarrow> buffer_ok buf \<and> parser_ok p (view buf)"

lemma parseOneChunk_inv:
  assumes "parser_inv buf p" "parseOneChunk buf ms p = (r, buf', ms', p')"
  shows "parser_inv buf' p'" "r \<noteq> Some OutOfBounds"
proof -
  from assms(1) have ok: "buffer_ok buf" "parser_ok p (view buf)" by (auto simp: parser_inv_def)
  show "parser_inv buf' p'" "r \<noteq> Some OutOfBounds"
    using chunk_step_ok [OF ok(2)] assms(2) ok
    by (auto simp: parseOneChunk_step parser_inv_def view_simps split: outcome.splits)
qed

lemma parse_inv:
  "parser_inv buf p \<Longrightarrow> parse buf ms p = (r, buf', ms', p') \<Longrightarrow>
     parser_inv buf' p' \<and> r \<noteq> Some OutOfBounds"
proof (induction buf ms p rule: parse.induct)
  case (1 buf ms p)
  obtain r1 buf1 ms1 p1 where one: "parseOneChunk buf ms p = (r1, buf1, ms1, p1)"
    by (cases "parseOneChunk buf ms p")
  note inv1 = parseOneChunk_inv [OF "1.prems"(1) one]
  show ?case
  proof (cases "0 < readableBytes buf \<and> r1 = None \<and> readableBytes buf1 \<noteq> readableBytes buf")
    case True
    then have "parse buf1 ms1 p1 = (r, buf', ms', p')"
      using "1.prems"(2) one by (simp add: parse.simps [of buf])
    with True one inv1 "1.IH" show ?thesis by fastforce
  next
    case False
    with "1.prems" one inv1 show ?thesis
      by (auto simp: parse.simps [of buf] split: if_splits option.splits)
  qed
qed

text \<open>
  Everything a connection may do with a parser and its input buffer: bytes arrive, the parser is
  run (with whatever outcome), the peer changes the chunk size.
\<close>

inductive parser_reach :: "Buffer \<Rightarrow> RtmpChunkParser \<Rightarrow> bool" where
  initial: "parser_reach (newBuffer n) newRtmpChunkParser"
| receive: "parser_reach buf p \<Longrightarrow> parser_reach (buf_append data buf) p"
| parsed: "parser_reach buf p \<Longrightarrow> parse buf ms p = (r, buf', ms', p') \<Longrightarrow> parser_reach buf' p'"
| resize: "parser_reach buf p \<Longrightarrow> parser_reach buf (setInChunkSize chunk_size p)"

lemma parser_reach_inv: "parser_reach buf p \<Longrightarrow> parser_inv buf p"
proof (induction rule: parser_reach.induct)
  case (parsed buf p ms r buf' ms' p')
  then show ?case using parse_inv by blast
qed (auto simp: parser_inv_def newRtmpChunkParser_ok view_simps parser_ok_append
    parser_ok_setInChunkSize)

text \<open>
  C9: Whatever bytes arrive, however they are cut into segments and whatever chunk size the peer
  sets, the parser never copies a chunk outside the payload string of its message.
\<close>

theorem parse_never_out_of_bounds:
  assumes "parser_reach buf p"
  shows "fst (parse buf messages p) \<noteq> Some OutOfBounds"
  using parse_inv [OF parser_reach_inv [OF assms]] by (cases "parse buf messages p") auto

theorem parse_never_out_of_bounds_witness:
  "fst (parse (buf_append [chr_of 0x83, chr_of 1] (newBuffer 16)) [] newRtmpChunkParser)
     \<noteq> Some OutOfBounds"
  by (rule parse_never_out_of_bounds [OF parser_reach.receive [OF parser_reach.initial]])

section \<open>Independence of segmentation\<close>

text \<open>
  A chunk can be read again without harm when its header determines the stream state by itself:
  format 0, or format 3 inside a message. The other headers add a timestamp delta each time they
  are read, also when the chunk turns out to be incomplete.
\<close>

definition header_safe :: "RtmpChunkParser \<Rightarrow> string \<Rightarrow> bool" where
  "header_safe p u \<longleftrightarrow> (let (fmt, csid, h) = parseBasicHeader u; st = lookupStream p csid in
     h = 0 \<or> fmt = kChunkHeaderType0 \<or> \<not> cs_headerInitialized st \<or>
     fmt = kChunkHeaderType3 \<and> cs_bytesRead st \<noteq> 0)"

function restart_safe :: "RtmpChunkParser \<Rightarrow> string \<Rightarrow> bool" where
  "restart_safe p u \<longleftrightarrow> header_safe p u \<and>
     (case chunk_step p u of
        Consume n p' _ \<Rightarrow> if n = 0 \<or> length u < n then True else restart_safe p' (drop n u)
      | _ \<Rightarrow> True)"
  by pat_completeness auto
termination
  by (relation "measure (\<lambda>(p, u). length u)") auto

declare restart_safe.simps [simp del]

lemma lookup_storeStream [simp]: "lookupStream (storeStream c st p) c = st"
  by (simp add: lookupStream_def storeStream_def)

lemma chunk_step_cong:
  assumes "parseBasicHeader u = (fmt, c, h)"
    and "parseMessageHeader (drop h u) fmt st = parseMessageHeader (drop h u) fmt (lookupStream p c)"
  shows "chunk_step (storeStream c st p) u = (if h = 0 then Wait (storeStream c st p) else chunk_step p u)"
proof -
  obtain r st1 where "parseMessageHeader (drop h u) fmt (lookupStream p c) = (r, st1)" by force
  with assms show ?thesis by (cases "h = 0"; cases r) (auto simp: chunk_step_def Let_def)
qed

lemma chunk_step_no_header: "parseBasicHeader v = (fmt, c, 0) \<Longrightarrow> chunk_step p v = Wait p"
  by (simp add: chunk_step_def)

lemma parseMessageHeader_keeps_state:
  assumes "parseMessageHeader d fmt st = (Inr k, st')"
    and "fmt = kChunkHeaderType0 \<or> \<not> cs_headerInitialized st \<or>
         fmt = kChunkHeaderType3 \<and> cs_bytesRead st \<noteq> 0"
  shows "fmt = kChunkHeaderType0 \<or> fmt = kChunkHeaderType3 \<and> cs_bytesRead st \<noteq> 0 \<and> st' = st"
  using assms by (auto simp: parseMessageHeader_def chunk_header_types Let_def split: if_splits)

lemma parseMessageHeader_again:
  assumes "parseMessageHeader d fmt st = (Inr k, st')"
    and "fmt = kChunkHeaderType0 \<or> \<not> cs_headerInitialized st \<or>
         fmt = kChunkHeaderType3 \<and> cs_bytesRead st \<noteq> 0"
  shows "parseMessageHeader (d @ w) fmt st' = parseMessageHeader (d @ w) fmt st"
proof -
  consider "fmt = kChunkHeaderType0" | "st' = st"
    using parseMessageHeader_keeps_state [OF assms] by blast
  then show ?thesis
  proof cases
    case 1
    with assms(1) show ?thesis
      by (simp add: parseMessageHeader_def Let_def assign_payload_def read_append nth_append_left
          split: if_splits) (auto simp: read_append)
  qed simp
qed

lemma chunk_step_done_ext:
  assumes "\<And>p'. chunk_step p v \<noteq> Wait p'"
  shows "chunk_step p (v @ w) = chunk_step p v"
proof -
  obtain fmt c h where bh: "parseBasicHeader v = (fmt, c, h)" by (cases "parseBasicHeader v")
  have h: "h \<noteq> 0" using assms [of p] bh chunk_step_no_header [of v fmt c p] by auto
  note bh' = parseBasicHeader_append [OF bh h, of w]
  have hl: "h \<le> length v" using parseBasicHeader_size [OF bh] by simp
  obtain r st where mh: "parseMessageHeader (drop h v) fmt (lookupStream p c) = (r, st)" by force
  have "r \<noteq> Inr 0 \<or> fmt = kChunkHeaderType3 \<and> cs_extendedTimestamp st = 0"
    using assms [of "storeStream c st p"] bh mh h by (auto simp: chunk_step_def Let_def split: if_splits)
  note mh' = parseMessageHeader_append [OF mh this, of w]
  show ?thesis
  proof (cases r)
    case (Inl e)
    with bh bh' mh mh' h hl show ?thesis by (simp add: chunk_step_def)
  next
    case (Inr k)
    let ?n = "unat (min (cs_messageLength st - cs_bytesRead st) (inChunkSize p))"
    have len: "h + k + ?n \<le> length v"
      using assms [of "storeStream c st p"] bh mh h Inr
      by (simp add: chunk_step_def Let_def not_less split: if_splits)
    have "take ?n (drop (h + k) (v @ w)) = take ?n (drop (h + k) v)" using len by simp
    with len bh bh' mh mh' h hl Inr show ?thesis by (simp add: chunk_step_def Let_def)
  qed
qed

lemma chunk_step_wait_ext:
  assumes good: "header_safe p (v @ w)" and wait: "chunk_step p v = Wait p'"
  shows "chunk_step p' (v @ w) = chunk_step p (v @ w)" "header_safe p' (v @ w)"
proof -
  obtain fmt c h where bh: "parseBasicHeader v = (fmt, c, h)" by (cases "parseBasicHeader v")
  have "chunk_step p' (v @ w) = chunk_step p (v @ w) \<and> header_safe p' (v @ w)"
  proof (cases "h = 0")
    case True
    with wait bh have "p' = p" by (simp add: chunk_step_def)
    with good show ?thesis by simp
  next
    case False
    note bh' = parseBasicHeader_append [OF bh False, of w]
    have hl: "h \<le> length v" using parseBasicHeader_size [OF bh] by simp
    obtain r st where mh: "parseMessageHeader (drop h v) fmt (lookupStream p c) = (r, st)" by force
    from wait bh mh False obtain k where r: "r = Inr k" and p': "p' = storeStream c st p"
      by (cases r) (auto simp: chunk_step_def Let_def split: if_splits)
    from good bh' False have hs: "fmt = kChunkHeaderType0 \<or> \<not> cs_headerInitialized (lookupStream p c) \<or>
        fmt = kChunkHeaderType3 \<and> cs_bytesRead (lookupStream p c) \<noteq> 0"
      by (simp add: header_safe_def Let_def)
    have "parseMessageHeader (drop h (v @ w)) fmt st =
        parseMessageHeader (drop h (v @ w)) fmt (lookupStream p c)"
      using parseMessageHeader_again [OF mh [unfolded r] hs, of w] hl by simp
    from chunk_step_cong [OF bh' this] False
    have "chunk_step p' (v @ w) = chunk_step p (v @ w)" by (simp add: p')
    moreover have "header_safe p' (v @ w)"
      using parseMessageHeader_keeps_state [OF mh [unfolded r] hs] bh'
      by (auto simp: header_safe_def p')
    ultimately show ?thesis by simp
  qed
  then show "chunk_step p' (v @ w) = chunk_step p (v @ w)" "header_safe p' (v @ w)" by simp_all
qed

lemma header_safe_prefix: "header_safe p (v @ w) \<Longrightarrow> header_safe p v"
proof -
  assume "header_safe p (v @ w)"
  moreover obtain fmt c h where "parseBasicHeader v = (fmt, c, h)" by (cases "parseBasicHeader v")
  ultimately show ?thesis
    using parseBasicHeader_append [of v fmt c h w] by (cases "h = 0") (auto simp: header_safe_def)
qed

interpretation chunk: incremental_parser chunk_step restart_safe
proof
  fix p v w n p' os
  assume good: "restart_safe p (v @ w)" and step: "chunk_step p v = Consume n p' os"
  have ext: "chunk_step p (v @ w) = Consume n p' os"
    using chunk_step_done_ext [of p v w] step by simp
  with good chunk_step_consumes [OF step]
  show "chunk_step p (v @ w) = Consume n p' os \<and> 0 < n \<and> n \<le> length v \<and>
      restart_safe p' (drop n (v @ w))"
    by (simp add: restart_safe.simps [of p])
next
  fix p v w e
  assume "chunk_step p v = Reject e"
  then show "chunk_step p (v @ w) = Reject e" using chunk_step_done_ext [of p v w] by simp
next
  fix p v w p'
  assume good: "restart_safe p (v @ w)" and wait: "chunk_step p v = Wait p'"
  then have hs: "header_safe p (v @ w)" by (simp add: restart_safe.simps [of p])
  note ext = chunk_step_wait_ext [OF hs wait]
  have "chunk_step p' v = Wait p'"
    using chunk_step_wait_ext(1) [of p v "[]" p'] header_safe_prefix [OF hs] wait by simp
  with good ext show "chunk_step p' v = Wait p' \<and> chunk_step p' (v @ w) = chunk_step p (v @ w) \<and>
      restart_safe p' (v @ w)"
    by (simp add: restart_safe.simps [of p] restart_safe.simps [of p'])
qed

text \<open>
  The connection's use of the parser: every segment is appended to the buffer and the parser is
  run on it, until it fails.
\<close>

fun receive_all ::
  "Buffer \<Rightarrow> RtmpMessage list \<Rightarrow> RtmpChunkParser \<Rightarrow> string list
     \<Rightarrow> ParseFailure option \<times> Buffer \<times> RtmpMessage list \<times> RtmpChunkParser" where
  "receive_all buf messages p [] = (None, buf, messages, p)"
| "receive_all buf messages p (seg # segs) =
     (case parse (buf_append seg buf) messages p of
        (Some f, buf', messages', p') \<Rightarrow> (Some f, buf', messages', p')
      | (None, buf', messages', p') \<Rightarrow> receive_all buf' messages' p' segs)"

lemma receive_feed:
  "buffer_ok buf \<Longrightarrow>
   (case feed_steps chunk_step p (view buf) segs of
      Inl (f, p') \<Rightarrow> \<exists>buf' ms'. receive_all buf ms p segs = (Some f, buf', ms', p')
    | Inr (p', rest, os) \<Rightarrow> \<exists>buf'. receive_all buf ms p segs = (None, buf', ms @ os, p') \<and>
        buffer_ok buf' \<and> view buf' = rest)"
proof (induction segs arbitrary: buf ms p)
  case Nil
  then show ?case by simp
next
  case (Cons seg segs)
  have ok: "buffer_ok (buf_append seg buf)" using Cons.prems by simp
  note run = parse_run [OF ok, where p = p and ms = ms]
  show ?case
  proof (cases "run_steps chunk_step p (view buf @ seg)")
    case (Inl e)
    with run Cons.prems show ?thesis by (cases e) (auto simp: view_simps)
  next
    case (Inr r)
    obtain p1 rest os where r: "r = (p1, rest, os)" by (cases r)
    from run Inr r Cons.prems obtain buf1 where one: "parse (buf_append seg buf) ms p = (None, buf1, ms @ os, p1)"
      and ok1: "buffer_ok buf1" and rest: "view buf1 = rest" by (auto simp: view_simps)
    from Cons.IH [OF ok1, where p = p1 and ms = "ms @ os"] Inr r one rest show ?thesis
      by (auto split: sum.splits)
  qed
qed

text \<open>
  C5: On a stream whose chunks can be read again (message starts use format 0, other chunks
  continue a message with format 3), the way TCP cuts the stream into segments does not matter:
  the same messages in the same order, the same parser state and the same unread bytes, or the
  same failure.
\<close>

theorem parse_segmentation:
  assumes "buffer_ok buf" "view buf = []" "restart_safe p (concat segs)"
  shows "case parse (buf_append (concat segs) buf) messages p of
      (None, buf1, messages1, p1) \<Rightarrow>
        \<exists>buf2. receive_all buf messages p segs = (None, buf2, messages1, p1) \<and> view buf2 = view buf1
    | (Some f, _, _, p1) \<Rightarrow>
        \<exists>buf2 messages2. receive_all buf messages p segs = (Some f, buf2, messages2, p1)"
proof -
  have "feed_steps chunk_step p [] segs = run_steps chunk_step p (concat segs)"
    using assms(3) chunk.feed_eq_run [of p "[]" segs] by (simp add: chunk_step_Nil)
  with receive_feed [OF assms(1), where p = p and segs = segs and ms = messages] assms(1,2)
    parse_run [where buf = "buf_append (concat segs) buf" and p = p and ms = messages]
  show ?thesis
    by (auto simp: view_simps split: sum.splits option.splits)
qed

text \<open>A message of one byte and a continuation of format 1 whose delta is ten.\<close>

definition delta_stream :: "string list" where
  "delta_stream =
     [map chr_of [3, 0, 0, 0, 0, 0, 1, 8, 1, 0, 0, 0, 65,
                  0x43, 0, 0, 10, 0, 0, 2, 8, 66],
      map chr_of [67]]"

text \<open>
  A chunk of format 1 that arrives in two segments is stamped wrongly: its delta is added
  once per attempt, so the same bytes give timestamp 10 in one segment and 20 in two.
\<close>

theorem split_chunk_adds_delta_twice:
  "map timestamp (fst (snd (snd (receive_all (newBuffer 64) [] newRtmpChunkParser
      [concat delta_stream])))) = [0, 10] \<and>
   map timestamp (fst (snd (snd (receive_all (newBuffer 64) [] newRtmpChunkParser
      delta_stream)))) = [0, 20]"
  by code_simp

text \<open>Two messages on two streams, the first in two chunks; the cuts fall inside headers and payloads.\<close>

definition cut_stream :: "string list" where
  "cut_stream =
     [map chr_of [3, 0, 0],
      map chr_of [5, 0, 0, 4, 8, 1, 0, 0, 0, 65, 66],
      map chr_of [67, 0xC3, 68, 4, 0, 0, 0, 0, 0, 1],
      map chr_of [9, 1, 0, 0, 0, 69]]"

theorem parse_segmentation_witness:
  "restart_safe (setInChunkSize 3 newRtmpChunkParser) (concat cut_stream) \<and>
   (case parse (buf_append (concat cut_stream) (newBuffer 64)) [] (setInChunkSize 3 newRtmpChunkParser) of
      (None, buf1, messages1, p1) \<Rightarrow>
        \<exists>buf2. receive_all (newBuffer 64) [] (setInChunkSize 3 newRtmpChunkParser) cut_stream
          = (None, buf2, messages1, p1) \<and> view buf2 = view buf1
    | (Some f, _, _, p1) \<Rightarrow>
        \<exists>buf2 messages2. receive_all (newBuffer 64) [] (setInChunkSize 3 newRtmpChunkParser) cut_stream
          = (Some f, buf2, messages2, p1))"
proof
  show *: "restart_safe (setInChunkSize 3 newRtmpChunkParser) (concat cut_stream)" by code_simp
  show "case parse (buf_append (concat cut_stream) (newBuffer 64)) [] (setInChunkSize 3 newRtmpChunkParser) of
      (None, buf1, messages1, p1) \<Rightarrow>
        \<exists>buf2. receive_all (newBuffer 64) [] (setInChunkSize 3 newRtmpChunkParser) cut_stream
          = (None, buf2, messages1, p1) \<and> view buf2 = view buf1
    | (Some f, _, _, p1) \<Rightarrow>
        \<exists>buf2 messages2. receive_all (newBuffer 64) [] (setInChunkSize 3 newRtmpChunkParser) cut_stream
          = (Some f, buf2, messages2, p1)"
    by (rule parse_segmentation [OF newBuffer_ok view_newBuffer *])
qed

lemma cut_stream_messages:
  "map payload (fst (snd (snd (receive_all (newBuffer 64) [] (setInChunkSize 3 newRtmpChunkParser)
     cut_stream)))) = [''ABCD'', ''E'']"
  by code_simp

end
