(* ===== verification/RtmpChunkWriter.thy ===== *)
theory RtmpChunkWriter
  imports RtmpChunkParser
begin

text \<open>
  The RTMP chunk writer (\<open>src/rtmp/RtmpChunkWriter.cc\<close>) and its round trip with the parser.

  The payload loop advances by \<open>min remaining out_chunk_size\<close>, so it does not end when the chunk
  size is 0; it is a partial function and \<open>None\<close> stands for not returning.
\<close>

section \<open>Operations\<close>

definition appendBasicHeader :: "string \<Rightarrow> u8 \<Rightarrow> u32 \<Rightarrow> string" where
  "appendBasicHeader out fmt csid =
     (if csid < 64 then out @ [chr_of (ucast (push_bit 6 (ucast fmt) OR csid))]
      else if csid < 320 then out @ [chr_of (push_bit 6 fmt), chr_of (ucast (csid - 64))]
      else let value = csid - 64 in
        out @ [chr_of (push_bit 6 fmt OR 1), byte_at 0 value, byte_at 8 value])"

definition appendUint24BE :: "string \<Rightarrow> u32 \<Rightarrow> string" where
  "appendUint24BE out value = out @ [byte_at 16 value, byte_at 8 value, byte_at 0 value]"

definition appendUint32BE :: "string \<Rightarrow> u32 \<Rightarrow> string" where
  "appendUint32BE out value =
     out @ [byte_at 24 value, byte_at 16 value, byte_at 8 value, byte_at 0 value]"

definition appendUint32LE :: "string \<Rightarrow> u32 \<Rightarrow> string" where
  "appendUint32LE out value =
     out @ [byte_at 0 value, byte_at 8 value, byte_at 16 value, byte_at 24 value]"

definition appendMessageHeader :: "string \<Rightarrow> RtmpMessage \<Rightarrow> string" where
  "appendMessageHeader out message =
     (let out = appendUint24BE out (min (timestamp message) 0x00FFFFFF);
          out = appendUint24BE out (messageLength message);
          out = out @ [chr_of (typeId message)];
          out = appendUint32LE out (messageStreamId message)
      in if timestamp message \<ge> 0x00FFFFFF then appendUint32BE out (timestamp message) else out)"

partial_function (option) writeChunks ::
  "RtmpMessage \<Rightarrow> u32 \<Rightarrow> nat \<Rightarrow> string \<Rightarrow> string option" where
  "writeChunks message out_chunk_size payload_offset out =
     (if payload_offset < length (payload message) then
        (let remaining = length (payload message) - payload_offset;
             chunk_bytes = min remaining (unat out_chunk_size);
             out = out @ take chunk_bytes (drop payload_offset (payload message));
             payload_offset = payload_offset + chunk_bytes;
             out = (if payload_offset < length (payload message)
                    then appendBasicHeader out 3 (chunkStreamId message) else out)
         in writeChunks message out_chunk_size payload_offset out)
      else Some out)"

declare writeChunks.simps [code]

definition EncodeMessage :: "RtmpMessage \<Rightarrow> u32 \<Rightarrow> string option" where
  "EncodeMessage message out_chunk_size =
     writeChunks message out_chunk_size 0
       (appendMessageHeader (appendBasicHeader [] 0 (chunkStreamId message)) message)"


section \<open>When the writer returns, and what\<close>

text \<open>The payload cut into pieces of at most \<open>n\<close> bytes with \<open>h\<close> between them.\<close>

function frames :: "nat \<Rightarrow> string \<Rightarrow> string \<Rightarrow> string" where
  "frames n h pl = (if length pl \<le> n \<or> n = 0 then pl else take n pl @ h @ frames n h (drop n pl))"
  by pat_completeness auto
termination
  by (relation "measure (\<lambda>(n, h, pl). length pl)") auto

declare frames.simps [simp del]

lemma appendBasicHeader_append: "appendBasicHeader out fmt csid = out @ appendBasicHeader [] fmt csid"
  by (simp add: appendBasicHeader_def Let_def)

lemma appendMessageHeader_append: "appendMessageHeader out m = out @ appendMessageHeader [] m"
  by (simp add: appendMessageHeader_def appendUint24BE_def appendUint32BE_def appendUint32LE_def Let_def)

lemma writeChunks_frames:
  "0 < unat sz \<Longrightarrow> writeChunks m sz off out =
     Some (out @ frames (unat sz) (appendBasicHeader [] 3 (chunkStreamId m)) (drop off (payload m)))"
proof (induction "length (payload m) - off" arbitrary: off out rule: less_induct)
  case less
  show ?case
  proof (cases "length (payload m) - off \<le> unat sz")
    case True
    then show ?thesis
      by (subst writeChunks.simps)
        (simp add: min_absorb1 writeChunks.simps [of m sz "length (payload m)"] frames.simps)
  next
    case False
    let ?h = "appendBasicHeader [] 3 (chunkStreamId m)"
    let ?out = "out @ take (unat sz) (drop off (payload m)) @ ?h"
    have "writeChunks m sz off out = writeChunks m sz (off + unat sz) ?out"
      using False less_diff_conv [of "unat sz" "length (payload m)" off]
      by (subst writeChunks.simps)
        (simp add: min_absorb2 Let_def appendBasicHeader_append [of "out @ _"])
    also have "\<dots> = Some (?out @ frames (unat sz) ?h (drop (off + unat sz) (payload m)))"
      using False less.prems by (intro less.hyps) auto
    finally show ?thesis
      using False less.prems by (simp add: frames.simps [of _ _ "drop off _"] add.commute)
  qed
qed

lemma writeChunks_zero:
  assumes "writeChunks m sz off out = Some r"
  shows "\<not> (sz = 0 \<and> off < length (payload m))"
  by (rule writeChunks.raw_induct [OF _ assms]) (auto simp: Let_def split: if_splits)

lemma EncodeMessage_frames:
  assumes "0 < sz"
  shows "EncodeMessage m sz =
    Some (appendBasicHeader [] 0 (chunkStreamId m) @ appendMessageHeader [] m @
      frames (unat sz) (appendBasicHeader [] 3 (chunkStreamId m)) (payload m))"
proof -
  have "0 < unat sz" using assms by (simp add: word_less_nat_alt)
  then show ?thesis
    by (simp add: EncodeMessage_def writeChunks_frames
        appendMessageHeader_append [of "appendBasicHeader [] 0 _"])
qed

text \<open>
  The writer returns exactly when the chunk size is positive or the payload is empty; with
  chunk size 0 and a payload its loop never ends.
\<close>

theorem EncodeMessage_returns_iff:
  "EncodeMessage m sz \<noteq> None \<longleftrightarrow> 0 < sz \<or> payload m = []"
proof (cases "0 < sz")
  case True
  then show ?thesis by (simp add: EncodeMessage_frames)
next
  case False
  then have "sz = 0" by (simp add: word_neq_0_conv [symmetric])
  show ?thesis
  proof (cases "payload m = []")
    case True
    then show ?thesis by (simp add: EncodeMessage_def writeChunks.simps)
  next
    case False
    with \<open>sz = 0\<close> show ?thesis
      using writeChunks_zero [of m 0 0] by (cases "EncodeMessage m 0") (auto simp: EncodeMessage_def)
  qed
qed


section \<open>Reading back the headers\<close>

lemma bit_small: "bit (x :: 'a::len word) i \<Longrightarrow> unat x < 2 ^ n \<Longrightarrow> i < n"
proof -
  assume set: "bit x i" and "unat x < 2 ^ n"
  then have "take_bit n x = x"
    by (simp add: word_unat_eq_iff unsigned_take_bit_eq take_bit_nat_eq_self_iff)
  with set show "i < n" by (metis bit_take_bit_iff)
qed

lemma fmt_bits:
  "(fmt :: u8) < 4 \<Longrightarrow> drop_bit 6 (push_bit 6 fmt) = fmt"
  "(fmt :: u8) < 4 \<Longrightarrow> push_bit 6 fmt AND 0x3F = 0"
  "(fmt :: u8) < 4 \<Longrightarrow> drop_bit 6 (push_bit 6 fmt OR 1) = fmt"
  "(fmt :: u8) < 4 \<Longrightarrow> (push_bit 6 fmt OR 1) AND 0x3F = 1"
proof -
  assume "fmt < 4"
  then have "unat fmt < 4" by (simp add: word_less_nat_alt)
  then consider "fmt = 0" | "fmt = 1" | "fmt = 2" | "fmt = 3"
    by (auto simp: word_unat_eq_iff) linarith
  then show "drop_bit 6 (push_bit 6 fmt) = fmt" "push_bit 6 fmt AND 0x3F = 0"
    "drop_bit 6 (push_bit 6 fmt OR 1) = fmt" "(push_bit 6 fmt OR 1) AND 0x3F = 1"
    by (cases; simp)+
qed

lemma mark_bits:
  assumes "(fmt :: u8) < 4" "(csid :: u32) < 64"
  shows "drop_bit 6 (ucast (push_bit 6 (ucast fmt) OR csid) :: u8) = fmt"
    "(ucast (push_bit 6 (ucast fmt) OR csid) :: u8) AND 0x3F = ucast csid"
proof -
  have f: "bit fmt i \<Longrightarrow> i < 2" for i using bit_small [of fmt i 2] assms(1) by (simp add: word_less_nat_alt)
  have c: "bit csid i \<Longrightarrow> i < 6" for i using bit_small [of csid i 6] assms(2) by (simp add: word_less_nat_alt)
  show "drop_bit 6 (ucast (push_bit 6 (ucast fmt) OR csid) :: u8) = fmt"
    by (rule bit_word_eqI) (auto simp: bit_simps dest: f c)
  have m: "(0x3F :: u8) = mask 6" by (simp add: mask_eq_exp_minus_1)
  show "(ucast (push_bit 6 (ucast fmt) OR csid) :: u8) AND 0x3F = ucast csid"
    unfolding m by (rule bit_word_eqI) (auto simp: bit_simps dest: f c)
qed

lemma ucast_small:
  fixes v :: u32
  assumes "v < 256" shows "(ucast (ucast v :: u8) :: u32) = v"
  using assms
  by (simp add: word_unat_eq_iff unsigned_ucast_eq unsigned_take_bit_eq take_bit_nat_eq_self_iff
      word_less_nat_alt)

lemma two_bytes:
  fixes v :: u32
  assumes "v < 65536"
  shows "ucast (u8_of (byte_at 0 v)) + push_bit 8 (ucast (u8_of (byte_at 8 v))) = v"
proof -
  have "ucast (u8_of (byte_at 0 v)) + push_bit 8 (ucast (u8_of (byte_at 8 v))) =
     (put_byte (byte_at 0 v) 0 OR put_byte (byte_at 8 v) 8 :: u32)"
    unfolding put_byte_def
    by (subst disjunctive_add) (auto simp: bit_simps dest: bit_imp_le_length)
  also have "\<dots> = v"
  proof (rule bit_word_eqI)
    fix i assume "i < LENGTH(32)"
    then have "i < 64" "i < 32" by simp_all
    then show "bit (put_byte (byte_at 0 v) 0 OR put_byte (byte_at 8 v) 8 :: u32) i = bit v i"
      using bit_small [of v i 16] assms
      by (cases rule: less_octets [of i]) (auto simp: bit_or_iff bit_put_byte_at octet_sub_less word_less_nat_alt)
  qed
  finally show ?thesis .
qed

definition csid_ok :: "u32 \<Rightarrow> bool" where
  "csid_ok csid \<longleftrightarrow> 2 \<le> csid \<and> csid < 65600"

lemma parseBasicHeader_written:
  assumes fmt: "fmt < 4" and csid: "csid_ok csid"
  shows "parseBasicHeader (appendBasicHeader [] fmt csid @ w) =
    (fmt, csid, length (appendBasicHeader [] fmt csid))"
proof -
  consider (one) "csid < 64" | (two) "\<not> csid < 64" "csid < 320" | (three) "\<not> csid < 320" "\<not> csid < 64"
    by (meson linorder_not_less order.strict_trans2 order.strict_trans1 word_le_nat_alt) 
  then show ?thesis
  proof cases
    case one
    then have "csid < 256" by (simp add: word_less_nat_alt)
    then have "ucast (ucast csid :: u8) = csid" by (rule ucast_small)
    moreover have "unat (ucast csid :: u8) = unat csid"
      using \<open>csid < 256\<close>
      by (simp add: unsigned_ucast_eq unsigned_take_bit_eq take_bit_nat_eq_self_iff word_less_nat_alt)
    then have "(2 :: u8) \<le> ucast csid" using csid by (simp add: csid_ok_def word_le_nat_alt)
    ultimately show ?thesis
      using one mark_bits [OF fmt one] by (simp add: appendBasicHeader_def parseBasicHeader_def)
  next
    case two
    then have "csid - 64 < 256" by (simp add: word_less_nat_alt unat_sub word_le_nat_alt)
    with two ucast_small [of "csid - 64"] fmt_bits(1,2) [OF fmt] show ?thesis
      by (simp add: appendBasicHeader_def parseBasicHeader_def)
  next
    case three
    then have "csid - 64 < 65536"
      using csid by (simp add: csid_ok_def word_less_nat_alt unat_sub word_le_nat_alt)
    moreover have "\<not> (2 :: u8) \<le> 1" by (simp add: word_le_nat_alt)
    ultimately show ?thesis using three two_bytes [of "csid - 64"] fmt_bits(3,4) [OF fmt]
      by (simp add: appendBasicHeader_def parseBasicHeader_def Let_def add.assoc)
  qed
qed

text \<open>The state of a stream with \<open>k\<close> bytes of message \<open>m\<close> received.\<close>

definition partial :: "RtmpMessage \<Rightarrow> nat \<Rightarrow> ChunkStreamState" where
  "partial m k =
     \<lparr>cs_timestamp = timestamp m, cs_timestampDelta = 0,
      cs_extendedTimestamp = (if timestamp m \<ge> 0x00FFFFFF then timestamp m else 0),
      cs_messageLength = messageLength m, cs_typeId = typeId m,
      cs_messageStreamId = messageStreamId m, cs_bytesRead = word_of_nat k,
      cs_payload = take k (payload m) @ replicate (unat (messageLength m) - k) (CHR 0x00),
      cs_headerInitialized = True\<rparr>"

lemma read_written [codec_simps]:
  "ReadUint24BE (byte_at 16 v # byte_at 8 v # byte_at 0 v # w) = take_bit 24 v"
  "ReadUint32BE (byte_at 24 v # byte_at 16 v # byte_at 8 v # byte_at 0 v # w) = v"
  "ReadUint32LE (byte_at 0 v # byte_at 8 v # byte_at 16 v # byte_at 24 v # w) = v"
proof -
  show "ReadUint24BE (byte_at 16 v # byte_at 8 v # byte_at 0 v # w) = take_bit 24 v"
    by (simp add: ReadUint24BE_def octets_24)
  show "ReadUint32BE (byte_at 24 v # byte_at 16 v # byte_at 8 v # byte_at 0 v # w) = v"
    "ReadUint32LE (byte_at 0 v # byte_at 8 v # byte_at 16 v # byte_at 24 v # w) = v"
    by (simp_all add: ReadUint32BE_def ReadUint32LE_def octets_32)
qed

lemma min_timestamp:
  "take_bit 24 (min (t :: u32) 0x00FFFFFF) = min t 0x00FFFFFF"
  by (rule take_bit_24_id) (simp add: min_less_iff_disj)

lemma parseMessageHeader_written:
  assumes "messageLength m < 0x1000000"
  shows "parseMessageHeader (appendMessageHeader [] m @ w) 0 st =
    (Inr (length (appendMessageHeader [] m)), partial m 0)"
proof (cases "timestamp m \<ge> 0x00FFFFFF")
  case True
  then show ?thesis
    using assms
    by (cases st) (simp add: parseMessageHeader_def appendMessageHeader_def chunk_header_types
        appendUint24BE_def appendUint32LE_def appendUint32BE_def codec_simps min_timestamp
        take_bit_24_id partial_def assign_payload_def Let_def min_absorb2)
next
  case False
  then have "min (timestamp m) 0x00FFFFFF = timestamp m" "timestamp m \<noteq> 0x00FFFFFF"
    by (auto simp: min_def)
  with False assms min_timestamp [of "timestamp m"] show ?thesis
    by (cases st) (simp add: parseMessageHeader_def appendMessageHeader_def chunk_header_types
        appendUint24BE_def appendUint32LE_def appendUint32BE_def codec_simps
        take_bit_24_id partial_def assign_payload_def Let_def)
qed

section \<open>One chunk of a written message\<close>

text \<open>The messages the format can carry: all the senders of this server produce such messages.\<close>

definition encodable :: "RtmpMessage \<Rightarrow> bool" where
  "encodable m \<longleftrightarrow> csid_ok (chunkStreamId m) \<and>
     unat (messageLength m) = length (payload m) \<and> length (payload m) < 2 ^ 24"

definition finished :: "RtmpMessage \<Rightarrow> ChunkStreamState" where
  "finished m = (partial m (length (payload m)))\<lparr>cs_bytesRead := 0, cs_payload := []\<rparr>"

definition after_chunk :: "RtmpMessage \<Rightarrow> nat \<Rightarrow> ChunkStreamState" where
  "after_chunk m k = (if k = length (payload m) then finished m else partial m k)"

lemma unat_min: "unat (min a b) = min (unat a) (unat (b :: 'a::len word))"
  by (simp add: min_def word_le_nat_alt)

lemma partial_remaining:
  assumes "encodable m" "k \<le> length (payload m)"
  shows "unat (min (cs_messageLength (partial m k) - cs_bytesRead (partial m k)) sz)
    = min (length (payload m) - k) (unat sz)"
proof -
  have k: "unat (word_of_nat k :: u32) = k" using assms by (simp add: encodable_def unat_of_nat)
  then have "unat (messageLength m - word_of_nat k) = length (payload m) - k"
    using assms by (simp add: encodable_def unat_sub word_le_nat_alt)
  then show ?thesis by (simp add: partial_def unat_min)
qed

lemma chunk_step_written:
  assumes enc: "encodable m" and k: "k \<le> length (payload m)"
    and bh: "parseBasicHeader u = (fmt, chunkStreamId m, h)" and h: "h \<noteq> 0"
    and mh: "parseMessageHeader (drop h u) fmt (lookupStream p (chunkStreamId m)) = (Inr j, partial m k)"
    and j: "j \<noteq> 0 \<or> fmt = kChunkHeaderType3 \<and> cs_extendedTimestamp (partial m k) = 0"
    and n: "n = min (length (payload m) - k) (unat (inChunkSize p))"
    and u: "drop (h + j) u = take n (drop k (payload m)) @ w" "h + j \<le> length u"
  shows "chunk_step p u = Consume (h + j + n) (storeStream (chunkStreamId m) (after_chunk m (k + n)) p)
      (if k + n = length (payload m) then [m] else [])"
    and "drop (h + j + n) u = w" and "h + j + n \<le> length u"
proof -
  let ?pl = "payload m" and ?st = "partial m k"
  have n': "unat (min (cs_messageLength ?st - cs_bytesRead ?st) (inChunkSize p)) = n"
    using partial_remaining [OF enc k] n by simp
  have kn: "k + n \<le> length ?pl" using k n by simp
  have len: "length (take n (drop k ?pl)) = n" using kn by simp
  have un: "unat (word_of_nat k :: u32) = k" "unat (word_of_nat (k + n) :: u32) = k + n"
    using enc kn k by (simp_all add: encodable_def unat_of_nat del: of_nat_add)
  have ml: "unat (messageLength m) = length ?pl" using enc by (simp add: encodable_def)
  from u(1) show "drop (h + j + n) u = w"
    by (metis add.commute append_eq_conv_conj drop_drop len)
  have "length (drop (h + j) u) = n + length w" using u(1) len by simp
  then show lu: "h + j + n \<le> length u" using u(2) by simp
  have "overwrite k (take n (drop k ?pl)) (cs_payload ?st) =
      take (k + n) ?pl @ replicate (length ?pl - (k + n)) (CHR 0x00)"
    using kn len ml by (simp add: overwrite_def partial_def take_add)
  then have upd: "?st\<lparr>cs_payload := overwrite k (take n (drop k ?pl)) (cs_payload ?st),
      cs_bytesRead := cs_bytesRead ?st + word_of_nat n\<rparr> = partial m (k + n)"
    by (simp add: partial_def ml)
  have done_iff: "cs_bytesRead (partial m (k + n)) = cs_messageLength (partial m (k + n)) \<longleftrightarrow>
      k + n = length ?pl"
    using un(2) ml by (simp add: partial_def word_unat_eq_iff del: of_nat_add)
  have msg: "k + n = length ?pl \<Longrightarrow> finishedMessage (chunkStreamId m) (partial m (k + n)) = m"
    using ml by (cases m) (simp add: finishedMessage_def partial_def)
  have "cs_headerInitialized ?st" "length (cs_payload ?st) = length ?pl" "unat (cs_bytesRead ?st) = k"
    using k ml un(1) by (simp_all add: partial_def)
  moreover have "take n (drop (h + j) u) = take n (drop k ?pl)" using u(1) len by simp
  ultimately show "chunk_step p u = Consume (h + j + n)
      (storeStream (chunkStreamId m) (after_chunk m (k + n)) p) (if k + n = length ?pl then [m] else [])"
    using bh h mh j lu kn upd done_iff msg n'
    by (simp add: chunk_step_def Let_def after_chunk_def finished_def not_less)
qed

section \<open>A whole message\<close>

text \<open>
  From state \<open>p\<close> the bytes \<open>u\<close> take the parser to state \<open>p'\<close> with \<open>w\<close> left, emitting \<open>os\<close>, and do
  so in any segmentation for which the remainder can be read.
\<close>

definition consumes ::
  "RtmpChunkParser \<Rightarrow> string \<Rightarrow> RtmpMessage list \<Rightarrow> RtmpChunkParser \<Rightarrow> string \<Rightarrow> bool" where
  "consumes p u os p' w \<longleftrightarrow>
     run_steps chunk_step p u =
       (case run_steps chunk_step p' w of
          Inl e \<Rightarrow> Inl e | Inr (q, rest, os') \<Rightarrow> Inr (q, rest, os @ os')) \<and>
     (restart_safe p' w \<longrightarrow> restart_safe p u)"

lemma consumes_step:
  "chunk_step p u = Consume n p' os \<Longrightarrow> header_safe p u \<Longrightarrow> drop n u = w \<Longrightarrow> consumes p u os p' w"
  using chunk_step_consumes [of p u n p' os]
  by (auto simp: consumes_def run_steps.simps [of chunk_step p u] restart_safe.simps [of p u])

lemma consumes_trans:
  "consumes p u os p' v \<Longrightarrow> consumes p' v os' p'' w \<Longrightarrow> consumes p u (os @ os') p'' w"
  by (auto simp: consumes_def split: sum.splits)

lemma appendBasicHeader_nonempty: "appendBasicHeader [] fmt csid \<noteq> []"
  by (simp add: appendBasicHeader_def Let_def)

lemma fmt3_small: "(3 :: u8) < 4"
  by (simp add: word_less_nat_alt)

text \<open>The continuation chunks of a message without extended timestamp.\<close>

lemma continuation_chunks:
  assumes "encodable m" "0 < inChunkSize p" "timestamp m < 0x00FFFFFF"
    "lookupStream p (chunkStreamId m) = partial m k" "0 < k" "k < length (payload m)"
  defines "hdr \<equiv> appendBasicHeader [] 3 (chunkStreamId m)"
  shows "consumes p (hdr @ frames (unat (inChunkSize p)) hdr (drop k (payload m)) @ w) [m]
     (storeStream (chunkStreamId m) (finished m) p) w"
  using assms(1-6)
proof (induction "length (payload m) - k" arbitrary: k p rule: less_induct)
  case less
  let ?c = "chunkStreamId m" and ?pl = "payload m" and ?sz = "unat (inChunkSize p)"
  let ?n = "min (length ?pl - k) ?sz"
  let ?w = "if length ?pl - k \<le> ?sz then w else hdr @ frames ?sz hdr (drop (k + ?n) ?pl) @ w"
  let ?u = "hdr @ take ?n (drop k ?pl) @ ?w"
  have sz: "0 < ?sz" using less.prems(2) by (simp add: word_less_nat_alt)
  have u: "hdr @ frames ?sz hdr (drop k ?pl) @ w = ?u"
    using sz by (simp add: frames.simps [of _ _ "drop k ?pl"] add.commute)
  have bh: "parseBasicHeader ?u = (3, ?c, length hdr)"
    unfolding hdr_def using less.prems(1)
    by (intro parseBasicHeader_written fmt3_small) (simp add: encodable_def)
  have "k < 2 ^ 32" using less.prems(1,6) by (simp add: encodable_def)
  then have k0: "cs_bytesRead (partial m k) \<noteq> 0"
    using less.prems(5) by (simp add: partial_def word_unat_eq_iff unat_of_nat)
  have ext: "cs_extendedTimestamp (partial m k) = 0" using less.prems(3) by (auto simp: partial_def)
  have mh: "parseMessageHeader (drop (length hdr) ?u) 3 (lookupStream p ?c) = (Inr 0, partial m k)"
    using k0 ext less.prems(4) by (simp add: parseMessageHeader_def chunk_header_types partial_def)
  have safe: "header_safe p ?u"
    using bh k0 less.prems(4) by (simp add: header_safe_def chunk_header_types)
  have drp: "drop (length hdr + 0) ?u = take ?n (drop k ?pl) @ ?w" by simp
  have "k \<le> length ?pl" "length hdr \<noteq> 0" "length hdr + 0 \<le> length ?u"
    and "(0::nat) \<noteq> 0 \<or> (3::u8) = kChunkHeaderType3 \<and> cs_extendedTimestamp (partial m k) = 0"
    using less.prems(6) ext appendBasicHeader_nonempty by (simp_all add: hdr_def chunk_header_types)
  note step = chunk_step_written [OF less.prems(1) this(1) bh this(2) mh this(4) refl drp this(3)]
  note one = consumes_step [OF step(1) safe step(2)]
  let ?p = "storeStream ?c (after_chunk m (k + ?n)) p"
  show ?case
  proof (cases "length ?pl - k \<le> ?sz")
    case True
    with one less.prems(6) u show ?thesis by (simp add: after_chunk_def)
  next
    case False
    then have n: "?n = ?sz" "k + ?n < length ?pl" by simp_all
    then have p: "after_chunk m (k + ?sz) = partial m (k + ?sz)" by (simp add: after_chunk_def)
    have "length ?pl - (k + ?sz) < length ?pl - k" using less.prems(6) sz by linarith
    then have "consumes ?p ?w [m] (storeStream ?c (finished m) ?p) w"
      using less.hyps [of "k + ?n" ?p] less.prems n sz False by (simp add: p)
    with consumes_trans [OF one this] n u show ?thesis by simp
  qed
qed

lemma frames_split:
  "0 < n \<Longrightarrow> frames n h pl = take (min (length pl) n) pl @
     (if length pl \<le> n then [] else h @ frames n h (drop (min (length pl) n) pl))"
  by (simp add: frames.simps [of n h pl])

lemma written_message:
  assumes enc: "encodable m" and sz: "0 < inChunkSize p"
    and ts: "timestamp m < 0x00FFFFFF \<or> length (payload m) \<le> unat (inChunkSize p)"
    and e: "EncodeMessage m (inChunkSize p) = Some e"
  shows "consumes p (e @ w) [m] (storeStream (chunkStreamId m) (finished m) p) w"
proof -
  let ?c = "chunkStreamId m" and ?pl = "payload m" and ?sz = "unat (inChunkSize p)"
  let ?n = "min (length ?pl - 0) ?sz"
  define hdr where "hdr = appendBasicHeader [] 3 ?c"
  let ?b = "appendBasicHeader [] 0 ?c" and ?m = "appendMessageHeader [] m"
  let ?w = "if length ?pl \<le> ?sz then w else hdr @ frames ?sz hdr (drop ?n ?pl) @ w"
  let ?u = "?b @ ?m @ take ?n (drop 0 ?pl) @ ?w"
  have usz: "0 < ?sz" using sz by (simp add: word_less_nat_alt)
  have u: "e @ w = ?u"
    using e frames_split [OF usz, of hdr ?pl] by (auto simp: EncodeMessage_frames [OF sz] hdr_def)
  have bh: "parseBasicHeader ?u = (0, ?c, length ?b)"
    using enc by (intro parseBasicHeader_written) (simp_all add: encodable_def)
  have "messageLength m < 0x1000000" using enc by (simp add: encodable_def word_less_nat_alt)
  then have mh: "parseMessageHeader (drop (length ?b) ?u) 0 (lookupStream p ?c) = (Inr (length ?m), partial m 0)"
    by (simp add: parseMessageHeader_written)
  have safe: "header_safe p ?u" using bh by (simp add: header_safe_def chunk_header_types)
  have drp: "drop (length ?b + length ?m) ?u = take ?n (drop 0 ?pl) @ ?w" by simp
  have m0: "length ?m \<noteq> 0"
    by (simp add: appendMessageHeader_def appendUint24BE_def appendUint32LE_def appendUint32BE_def Let_def)
  have "(0::nat) \<le> length ?pl" "length ?b \<noteq> 0" "length ?b + length ?m \<le> length ?u"
    and "length ?m \<noteq> 0 \<or> (0::u8) = kChunkHeaderType3 \<and> cs_extendedTimestamp (partial m 0) = 0"
    using m0 appendBasicHeader_nonempty by simp_all
  note step = chunk_step_written [OF enc this(1) bh this(2) mh this(4) refl drp this(3)]
  note one = consumes_step [OF step(1) safe step(2)]
  let ?p = "storeStream ?c (after_chunk m (0 + ?n)) p"
  show ?thesis
  proof (cases "length ?pl \<le> ?sz")
    case True
    with one u show ?thesis by (simp add: after_chunk_def min_absorb1)
  next
    case False
    then have n: "?n = ?sz" "?sz < length ?pl" "timestamp m < 0x00FFFFFF" using ts by simp_all
    then have p: "after_chunk m ?sz = partial m ?sz" by (simp add: after_chunk_def)
    have "consumes ?p ?w [m] (storeStream ?c (finished m) ?p) w"
      using continuation_chunks [of m ?p ?sz w] enc sz n usz False by (simp add: p hdr_def)
    with consumes_trans [OF one this] n u show ?thesis by simp
  qed
qed

text \<open>Messages in sequence, possibly on different streams.\<close>

definition sendable :: "u32 \<Rightarrow> RtmpMessage \<Rightarrow> bool" where
  "sendable sz m \<longleftrightarrow> encodable m \<and>
     (timestamp m < 0x00FFFFFF \<or> length (payload m) \<le> unat sz)"

fun EncodeMessages :: "RtmpMessage list \<Rightarrow> u32 \<Rightarrow> string option" where
  "EncodeMessages [] sz = Some []"
| "EncodeMessages (m # ms) sz =
     (case (EncodeMessage m sz, EncodeMessages ms sz) of
        (Some e, Some es) \<Rightarrow> Some (e @ es) | _ \<Rightarrow> None)"

definition deliver :: "RtmpMessage list \<Rightarrow> RtmpChunkParser \<Rightarrow> RtmpChunkParser" where
  "deliver ms p = fold (\<lambda>m. storeStream (chunkStreamId m) (finished m)) ms p"

lemma written_messages:
  assumes "\<forall>m \<in> set ms. sendable (inChunkSize p) m" "0 < inChunkSize p"
    and "EncodeMessages ms (inChunkSize p) = Some es"
  shows "consumes p es ms (deliver ms p) []"
  using assms
proof (induction ms arbitrary: p es)
  case Nil
  then show ?case by (simp add: consumes_def deliver_def split: sum.splits)
next
  case (Cons m ms)
  from Cons.prems(3) obtain e es' where e: "EncodeMessage m (inChunkSize p) = Some e"
    and es': "EncodeMessages ms (inChunkSize p) = Some es'" and es: "es = e @ es'"
    by (auto split: option.splits)
  let ?p = "storeStream (chunkStreamId m) (finished m) p"
  have "consumes p (e @ es') [m] ?p es'"
    using Cons.prems e by (intro written_message) (auto simp: sendable_def)
  moreover have "consumes ?p es' ms (deliver ms ?p) []"
    using Cons.prems es' by (intro Cons.IH) simp_all
  ultimately show ?case
    using consumes_trans [of p "e @ es'" "[m]" ?p es' ms] by (simp add: es deliver_def)
qed

lemma EncodeMessages_returns: "0 < sz \<Longrightarrow> \<exists>es. EncodeMessages ms sz = Some es"
  by (induction ms) (auto simp: EncodeMessage_frames)

lemma messages_roundtrip:
  assumes "buffer_ok buf" "view buf = []" "0 < inChunkSize p"
    and "\<forall>m \<in> set ms. sendable (inChunkSize p) m"
  shows "\<exists>es. EncodeMessages ms (inChunkSize p) = Some es \<and>
    (\<forall>segs. concat segs = es \<longrightarrow>
       (\<exists>buf'. receive_all buf [] p segs = (None, buf', ms, deliver ms p) \<and> view buf' = []))"
proof -
  obtain es where es: "EncodeMessages ms (inChunkSize p) = Some es"
    using EncodeMessages_returns assms(3) by blast
  have con: "consumes p es ms (deliver ms p) []" using assms es by (intro written_messages) simp_all
  have "restart_safe (deliver ms p) []"
    by (simp add: restart_safe.simps header_safe_def parseBasicHeader_def chunk_step_Nil)
  with con have safe: "restart_safe p es"
    and run: "run_steps chunk_step p es = Inr (deliver ms p, [], ms)"
    by (simp_all add: consumes_def run_steps_Wait chunk_step_Nil)
  have "\<exists>buf'. receive_all buf [] p segs = (None, buf', ms, deliver ms p) \<and> view buf' = []"
    if "concat segs = es" for segs
    using receive_feed [OF assms(1), where p = p and segs = segs and ms = "[]"] assms(2) run safe that
      chunk.feed_eq_run [of p "[]" segs] by (auto simp: chunk_step_Nil)
  with es show ?thesis by blast
qed


definition sample_audio :: RtmpMessage where
  "sample_audio = \<lparr>timestamp = 40, messageLength = 4, typeId = kMessageTypeAudio, messageStreamId = 1,
     chunkStreamId = 4, payload = ''abcd''\<rparr>"


text \<open>
  The writer leaves the extended timestamp out of continuation chunks, which the parser
  expects: a message with timestamp \<open>2^24\<close> in two chunks is encoded but not read back; the
  parser ends up waiting for bytes that never come.
\<close>

theorem extended_timestamp_not_read_back:
  "case EncodeMessage (sample_audio\<lparr>timestamp := 0x1000000\<rparr>) 3 of
     None \<Rightarrow> False
   | Some e \<Rightarrow>
       (case receive_all (newBuffer 64) [] (setInChunkSize 3 newRtmpChunkParser) [e] of
          (failure, buf, messages, p) \<Rightarrow> failure = None \<and> messages = [] \<and> view buf \<noteq> [])"
  by code_simp

end
