(* ===== verification/RtmpSession.thy ===== *)
theory RtmpSession
  imports RtmpChunkWriter "HOL-Library.Monad_Syntax"
begin

text \<open>
  A stream session (\<open>src/rtmp/RtmpSession.h\<close>, \<open>RtmpSession.cc\<close>): its publisher, its players and
  the messages cached for players that join later.

  A connection is represented by its name, which \<open>TcpServer\<close> makes unique; comparing connection
  pointers is comparing names. The sends of an operation are returned as a list of (connection,
  bytes) pairs in program order. \<open>players_\<close> is a hash map and iterated in an unspecified order;
  the model keeps the order of insertion, and the statements below speak about each connection
  separately. Operations that encode a message return \<open>None\<close> when the writer does not return.
\<close>

section \<open>State and operations\<close>

type_synonym sends = "(string \<times> string) list"

record RtmpSession =
  streamKey :: string
  publisher :: "string option"
  players :: "string list"
  metadata :: "RtmpMessage option"
  audioSequenceHeader :: "RtmpMessage option"
  videoSequenceHeader :: "RtmpMessage option"
  gopCache :: "RtmpMessage list"
  gopStarted :: bool

definition newRtmpSession :: "string \<Rightarrow> RtmpSession" where
  "newRtmpSession stream_key =
     \<lparr>streamKey = stream_key, publisher = None, players = [], metadata = None,
      audioSequenceHeader = None, videoSequenceHeader = None, gopCache = [], gopStarted = False\<rparr>"

definition IsAacSequenceHeader :: "RtmpMessage \<Rightarrow> bool" where
  "IsAacSequenceHeader message \<longleftrightarrow>
     (if typeId message \<noteq> kMessageTypeAudio \<or> length (payload message) < 2 then False
      else
        let sound_format = drop_bit 4 (u8_of (payload message ! 0)) AND 0x0F;
            aac_packet_type = u8_of (payload message ! 1)
        in sound_format = 10 \<and> aac_packet_type = 0)"

definition IsAvcSequenceHeader :: "RtmpMessage \<Rightarrow> bool" where
  "IsAvcSequenceHeader message \<longleftrightarrow>
     (if typeId message \<noteq> kMessageTypeVideo \<or> length (payload message) < 2 then False
      else
        let codec_id = u8_of (payload message ! 0) AND 0x0F;
            avc_packet_type = u8_of (payload message ! 1)
        in codec_id = 7 \<and> avc_packet_type = 0)"

definition IsVideoKeyFrame :: "RtmpMessage \<Rightarrow> bool" where
  "IsVideoKeyFrame message \<longleftrightarrow>
     (if typeId message \<noteq> kMessageTypeVideo \<or> payload message = [] then False
      else drop_bit 4 (u8_of (payload message ! 0)) AND 0x0F = 1)"

definition setPublisher :: "string \<Rightarrow> RtmpSession \<Rightarrow> bool \<times> RtmpSession" where
  "setPublisher connection s =
     (if publisher s \<noteq> None \<and> publisher s \<noteq> Some connection then (False, s)
      else
        let s = (if publisher s \<noteq> Some connection
                 then s\<lparr>metadata := None, audioSequenceHeader := None, videoSequenceHeader := None,
                        gopCache := [], gopStarted := False\<rparr>
                 else s)
        in (True, s\<lparr>publisher := Some connection\<rparr>))"

definition clearPublisher :: "string \<Rightarrow> RtmpSession \<Rightarrow> RtmpSession" where
  "clearPublisher connection s =
     (if publisher s = Some connection then s\<lparr>publisher := None\<rparr> else s)"

definition addPlayer :: "string \<Rightarrow> RtmpSession \<Rightarrow> bool \<times> RtmpSession" where
  "addPlayer connection s =
     (if connection \<in> set (players s) then (False, s)
      else (True, s\<lparr>players := players s @ [connection]\<rparr>))"

definition removePlayer :: "string \<Rightarrow> RtmpSession \<Rightarrow> RtmpSession" where
  "removePlayer connection s = s\<lparr>players := removeAll connection (players s)\<rparr>"

definition cacheMediaMessage :: "RtmpMessage \<Rightarrow> RtmpSession \<Rightarrow> RtmpSession" where
  "cacheMediaMessage message s =
     (if typeId message = kMessageTypeDataAmf0 then s\<lparr>metadata := Some message\<rparr>
      else if IsAacSequenceHeader message then s\<lparr>audioSequenceHeader := Some message\<rparr>
      else if IsAvcSequenceHeader message then s\<lparr>videoSequenceHeader := Some message\<rparr>
      else
        let s = (if typeId message = kMessageTypeVideo \<and> IsVideoKeyFrame message
                 then s\<lparr>gopCache := [], gopStarted := True\<rparr> else s)
        in
        if \<not> gopStarted s then s
        else if typeId message = kMessageTypeAudio \<or> typeId message = kMessageTypeVideo
        then s\<lparr>gopCache := gopCache s @ [message]\<rparr>
        else s)"

text \<open>The loop over the players: disconnected ones are erased, the others get the bytes.\<close>

fun broadcastTo :: "(string \<Rightarrow> bool) \<Rightarrow> string \<Rightarrow> string list \<Rightarrow> string list \<times> sends" where
  "broadcastTo connected encoded [] = ([], [])"
| "broadcastTo connected encoded (player # rest) =
     (let (kept, out) = broadcastTo connected encoded rest in
      if \<not> connected player then (kept, out)
      else (player # kept, (player, encoded) # out))"

definition broadcastMessage ::
  "(string \<Rightarrow> bool) \<Rightarrow> RtmpMessage \<Rightarrow> u32 \<Rightarrow> RtmpSession \<Rightarrow> (RtmpSession \<times> sends) option" where
  "broadcastMessage connected message out_chunk_size s =
     (if players s = [] then Some (s, [])
      else do {
        encoded \<leftarrow> EncodeMessage message out_chunk_size;
        let (kept, out) = broadcastTo connected encoded (players s);
        Some (s\<lparr>players := kept\<rparr>, out)
      })"

definition onMediaMessage ::
  "(string \<Rightarrow> bool) \<Rightarrow> RtmpMessage \<Rightarrow> u32 \<Rightarrow> RtmpSession \<Rightarrow> (RtmpSession \<times> sends) option" where
  "onMediaMessage connected message out_chunk_size s =
     broadcastMessage connected message out_chunk_size (cacheMediaMessage message s)"

definition opt_list :: "'a option \<Rightarrow> 'a list" where
  "opt_list x = (case x of None \<Rightarrow> [] | Some y \<Rightarrow> [y])"

text \<open>Metadata, audio header, video header and the cached group of pictures, in this order.\<close>

definition replayMessages :: "RtmpSession \<Rightarrow> RtmpMessage list" where
  "replayMessages s = opt_list (metadata s) @ opt_list (audioSequenceHeader s) @
     opt_list (videoSequenceHeader s) @ gopCache s"

fun sendEncoded :: "string \<Rightarrow> u32 \<Rightarrow> RtmpMessage list \<Rightarrow> sends option" where
  "sendEncoded connection out_chunk_size [] = Some []"
| "sendEncoded connection out_chunk_size (message # rest) = do {
     encoded \<leftarrow> EncodeMessage message out_chunk_size;
     out \<leftarrow> sendEncoded connection out_chunk_size rest;
     Some ((connection, encoded) # out)
   }"

definition replayCachedMessagesToPlayer ::
  "(string \<Rightarrow> bool) \<Rightarrow> string \<Rightarrow> u32 \<Rightarrow> RtmpSession \<Rightarrow> sends option" where
  "replayCachedMessagesToPlayer connected connection out_chunk_size s =
     (if \<not> connected connection then Some []
      else sendEncoded connection out_chunk_size (replayMessages s))"

definition session_empty :: "RtmpSession \<Rightarrow> bool" where
  "session_empty s \<longleftrightarrow> publisher s = None \<and> players s = []"

lemmas session_ops = setPublisher_def clearPublisher_def addPlayer_def removePlayer_def
  cacheMediaMessage_def broadcastMessage_def onMediaMessage_def


section \<open>The group-of-pictures cache\<close>

definition is_header :: "RtmpMessage \<Rightarrow> bool" where
  "is_header m \<longleftrightarrow> IsAacSequenceHeader m \<or> IsAvcSequenceHeader m"

definition is_frame :: "RtmpMessage \<Rightarrow> bool" where
  "is_frame m \<longleftrightarrow> typeId m \<in> {kMessageTypeAudio, kMessageTypeVideo} \<and> \<not> is_header m"

text \<open>What a late player needs of the history: everything from the last key frame on.\<close>

definition last_gop :: "RtmpMessage list \<Rightarrow> RtmpMessage list" where
  "last_gop history =
     (if \<exists>m \<in> set history. IsVideoKeyFrame m
      then drop (length (dropWhile (\<lambda>m. \<not> IsVideoKeyFrame m) (rev history)) - 1) history
      else [])"

definition last_such :: "('a \<Rightarrow> bool) \<Rightarrow> 'a list \<Rightarrow> 'a option" where
  "last_such P xs = (if filter P xs = [] then None else Some (last (filter P xs)))"

lemma last_gop_snoc:
  "last_gop (ms @ [m]) =
     (if IsVideoKeyFrame m then [m] else if last_gop ms = [] then [] else last_gop ms @ [m])"
proof (cases "IsVideoKeyFrame m")
  case True
  then show ?thesis by (simp add: last_gop_def)
next
  case False
  have len: "length (dropWhile (\<lambda>m. \<not> IsVideoKeyFrame m) (rev ms)) \<le> length ms"
    using length_dropWhile_le [of _ "rev ms"] by simp
  show ?thesis
  proof (cases "\<exists>m \<in> set ms. IsVideoKeyFrame m")
    case True
    then have "dropWhile (\<lambda>m. \<not> IsVideoKeyFrame m) (rev ms) \<noteq> []" by (auto simp: dropWhile_eq_Nil_conv)
    then have "length (dropWhile (\<lambda>m. \<not> IsVideoKeyFrame m) (rev ms)) - 1 < length ms"
      using len by (metis One_nat_def diff_less length_greater_0_conv less_le_trans zero_less_one le_less_trans)
    with True False show ?thesis by (auto simp: last_gop_def)
  next
    case none: False
    with False show ?thesis by (auto simp: last_gop_def)
  qed
qed

lemma last_such_snoc: "last_such P (xs @ [x]) = (if P x then Some x else last_such P xs)"
  by (simp add: last_such_def)

lemma header_types:
  "IsAacSequenceHeader m \<Longrightarrow> typeId m = kMessageTypeAudio"
  "IsAvcSequenceHeader m \<Longrightarrow> typeId m = kMessageTypeVideo"
  "IsVideoKeyFrame m \<Longrightarrow> typeId m = kMessageTypeVideo"
  by (auto simp: IsAacSequenceHeader_def IsAvcSequenceHeader_def IsVideoKeyFrame_def split: if_splits)

definition caches_cleared :: "RtmpSession \<Rightarrow> bool" where
  "caches_cleared s \<longleftrightarrow> metadata s = None \<and> audioSequenceHeader s = None \<and>
     videoSequenceHeader s = None \<and> gopCache s = [] \<and> \<not> gopStarted s"

text \<open>The caches as a function of the messages received since the publisher started.\<close>

definition caches_of :: "RtmpMessage list \<Rightarrow> RtmpSession \<Rightarrow> bool" where
  "caches_of ms s \<longleftrightarrow>
     metadata s = last_such (\<lambda>m. typeId m = kMessageTypeDataAmf0) ms \<and>
     audioSequenceHeader s = last_such IsAacSequenceHeader ms \<and>
     videoSequenceHeader s = last_such IsAvcSequenceHeader ms \<and>
     gopCache s = last_gop (filter is_frame ms) \<and>
     gopStarted s = (gopCache s \<noteq> [])"

lemma caches_of_Nil: "caches_cleared s \<Longrightarrow> caches_of [] s"
  by (simp add: caches_cleared_def caches_of_def last_such_def last_gop_def)

lemma is_frame_cases:
  assumes "typeId m \<in> {kMessageTypeDataAmf0, kMessageTypeAudio, kMessageTypeVideo}"
  obtains (data) "typeId m = kMessageTypeDataAmf0" "\<not> IsAacSequenceHeader m" "\<not> IsAvcSequenceHeader m"
      "\<not> is_frame m"
    | (aac) "typeId m \<noteq> kMessageTypeDataAmf0" "IsAacSequenceHeader m" "\<not> IsAvcSequenceHeader m" "\<not> is_frame m"
    | (avc) "typeId m \<noteq> kMessageTypeDataAmf0" "\<not> IsAacSequenceHeader m" "IsAvcSequenceHeader m" "\<not> is_frame m"
    | (frame) "typeId m \<noteq> kMessageTypeDataAmf0" "\<not> IsAacSequenceHeader m" "\<not> IsAvcSequenceHeader m"
      "is_frame m" "typeId m = kMessageTypeAudio \<or> typeId m = kMessageTypeVideo"
  using assms header_types [of m]
  by (cases "IsAacSequenceHeader m"; cases "IsAvcSequenceHeader m")
    (auto simp: is_frame_def is_header_def message_types)

lemma cacheMediaMessage_caches:
  assumes "caches_of ms s"
    and "typeId m \<in> {kMessageTypeDataAmf0, kMessageTypeAudio, kMessageTypeVideo}"
  shows "caches_of (ms @ [m]) (cacheMediaMessage m s)"
  using assms(2)
proof (cases rule: is_frame_cases)
  case frame
  with assms(1) header_types(3) [of m] show ?thesis
    by (auto simp: caches_of_def cacheMediaMessage_def last_such_snoc last_gop_snoc Let_def)
qed (use assms(1) in \<open>auto simp: caches_of_def cacheMediaMessage_def last_such_snoc Let_def\<close>)

lemma cacheMediaMessage_keeps [simp]:
  "publisher (cacheMediaMessage m s) = publisher s" "players (cacheMediaMessage m s) = players s"
  "streamKey (cacheMediaMessage m s) = streamKey s"
  by (simp_all add: cacheMediaMessage_def Let_def)

lemma fold_cacheMediaMessage:
  assumes "caches_cleared s"
    and "\<forall>m \<in> set ms. typeId m \<in> {kMessageTypeDataAmf0, kMessageTypeAudio, kMessageTypeVideo}"
  shows "caches_of ms (fold cacheMediaMessage ms s)"
  using assms(2)
proof (induction ms rule: rev_induct)
  case Nil
  then show ?case using caches_of_Nil [OF assms(1)] by simp
next
  case (snoc m ms)
  then show ?case using cacheMediaMessage_caches [of ms "fold cacheMediaMessage ms s" m] by simp
qed


section \<open>Publisher and players\<close>

lemma setPublisher_accepts_iff:
  "fst (setPublisher c s) \<longleftrightarrow> publisher s = None \<or> publisher s = Some c"
  by (auto simp: setPublisher_def)

lemma setPublisher_result:
  "setPublisher c s = (True, s') \<Longrightarrow> publisher s' = Some c \<and> players s' = players s \<and>
     streamKey s' = streamKey s \<and> (publisher s = None \<longrightarrow> caches_cleared s')"
  "setPublisher c s = (False, s') \<Longrightarrow> s' = s \<and> (\<exists>d. d \<noteq> c \<and> publisher s = Some d)"
  by (auto simp: setPublisher_def caches_cleared_def Let_def split: if_splits)

lemma broadcastTo_spec:
  "broadcastTo con e ps = (filter con ps, map (\<lambda>p. (p, e)) (filter con ps))"
  by (induction ps) (simp_all split: prod.splits)

definition sent_to :: "string \<Rightarrow> sends \<Rightarrow> string list" where
  "sent_to c out = map snd (filter (\<lambda>(d, _). d = c) out)"

lemma sent_to_broadcast:
  "distinct ps \<Longrightarrow> sent_to c (map (\<lambda>p. (p, e)) (filter con ps)) = (if c \<in> set ps \<and> con c then [e] else [])"
  by (induction ps) (auto simp: sent_to_def filter_empty_conv)

lemma onMediaMessage_result:
  assumes "0 < sz" "EncodeMessage m sz = Some e"
  shows "onMediaMessage con m sz s =
    Some ((cacheMediaMessage m s)\<lparr>players := filter con (players s)\<rparr>,
          map (\<lambda>p. (p, e)) (filter con (players s)))"
  using assms
  by (cases "players s") (simp_all add: onMediaMessage_def broadcastMessage_def broadcastTo_spec)

lemma sendEncoded_messages:
  "0 < sz \<Longrightarrow> \<exists>out es. sendEncoded c sz ms = Some out \<and> EncodeMessages ms sz = Some es \<and>
     concat (sent_to c out) = es \<and> (\<forall>(d, _) \<in> set out. d = c)"
proof (induction ms)
  case (Cons m ms)
  then obtain out es where "sendEncoded c sz ms = Some out" "EncodeMessages ms sz = Some es"
    "concat (sent_to c out) = es" "\<forall>(d, _) \<in> set out. d = c" by blast
  moreover obtain e where "EncodeMessage m sz = Some e"
    using EncodeMessage_frames [OF Cons.prems] by blast
  ultimately show ?case by (auto simp: sent_to_def)
qed (simp add: sent_to_def)

text \<open>
  Fan-out. When the publisher of a session sends a media message, every connected player is
  sent exactly one copy, the encoding of that message; nobody else is sent anything, players that
  have gone away are dropped, and the publisher stays.
\<close>

theorem media_fan_out:
  assumes "0 < sz" "distinct (players s)"
  shows "\<exists>e s' out. EncodeMessage m sz = Some e \<and> onMediaMessage con m sz s = Some (s', out) \<and>
    (\<forall>c. sent_to c out = (if c \<in> set (players s) \<and> con c then [e] else [])) \<and>
    players s' = filter con (players s) \<and> publisher s' = publisher s"
proof -
  obtain e where "EncodeMessage m sz = Some e" using EncodeMessage_frames [OF assms(1)] by blast
  with assms onMediaMessage_result [OF assms(1) this] show ?thesis
    by (auto simp: sent_to_broadcast)
qed

theorem media_fan_out_witness:
  "\<exists>e s' out. EncodeMessage sample_audio 128 = Some e \<and>
    onMediaMessage (\<lambda>c. c \<noteq> ''gone'') sample_audio 128
      ((newRtmpSession ''/live/a'')\<lparr>players := [''p1'', ''gone'']\<rparr>) = Some (s', out) \<and>
    (\<forall>c. sent_to c out = (if c \<in> set [''p1'', ''gone''] \<and> c \<noteq> ''gone'' then [e] else [])) \<and>
    players s' = [''p1''] \<and> publisher s' = None"
  using media_fan_out [of 128 "(newRtmpSession ''/live/a'')\<lparr>players := [''p1'', ''gone'']\<rparr>"
      sample_audio "\<lambda>c. c \<noteq> ''gone''"]
  by (simp add: newRtmpSession_def)

section \<open>Players that join late\<close>

fun media_run ::
  "(string \<Rightarrow> bool) \<Rightarrow> u32 \<Rightarrow> RtmpMessage list \<Rightarrow> RtmpSession \<Rightarrow> RtmpSession option" where
  "media_run con sz [] s = Some s"
| "media_run con sz (m # ms) s = do {
     (s', out) \<leftarrow> onMediaMessage con m sz s;
     media_run con sz ms s'
   }"

lemma caches_of_players: "caches_of ms (s\<lparr>players := ps\<rparr>) = caches_of ms s"
  by (simp add: caches_of_def)

lemma media_run_caches:
  assumes "0 < sz" "caches_of hist s"
    and "\<forall>m \<in> set ms. typeId m \<in> {kMessageTypeDataAmf0, kMessageTypeAudio, kMessageTypeVideo}"
  shows "\<exists>s'. media_run con sz ms s = Some s' \<and> caches_of (hist @ ms) s'"
  using assms(2,3)
proof (induction ms arbitrary: hist s)
  case (Cons m ms)
  obtain e where e: "EncodeMessage m sz = Some e" using EncodeMessage_frames [OF assms(1)] by blast
  let ?s = "(cacheMediaMessage m s)\<lparr>players := filter con (players s)\<rparr>"
  have "caches_of (hist @ [m]) ?s"
    using Cons.prems by (simp add: caches_of_players cacheMediaMessage_caches)
  from Cons.IH [OF this] Cons.prems(2) onMediaMessage_result [OF assms(1) e, of con s]
  show ?case by simp
qed simp

lemma last_such_in: "last_such P xs = Some x \<Longrightarrow> x \<in> set xs"
  using last_in_set [of "filter P xs"] by (auto simp: last_such_def split: if_splits)

lemma replay_subset:
  assumes "caches_of ms s" shows "set (replayMessages s) \<subseteq> set ms"
proof -
  have "set (last_gop fs) \<subseteq> set fs" for fs
    by (auto simp: last_gop_def dest: in_set_dropD split: if_splits)
  then have "set (gopCache s) \<subseteq> set ms" using assms by (fastforce simp: caches_of_def)
  with assms show ?thesis
    by (auto simp: caches_of_def replayMessages_def opt_list_def split: option.splits
        dest!: last_such_in [OF sym])
qed

text \<open>
  C25: Catching up. A publisher takes over a free session and sends any sequence of media messages;
  a connected player that joins then is sent bytes from which a chunk parser with the same chunk
  size reads, in any segmentation, exactly the last metadata, the last audio and the last video
  sequence header and all frames from the last key frame on, in this order.
\<close>

theorem late_player_catches_up:
  assumes "publisher s = None" "setPublisher pub s = (True, s0)"
    and "0 < sz" "connected player"
    and "\<forall>m \<in> set ms. typeId m \<in> {kMessageTypeDataAmf0, kMessageTypeAudio, kMessageTypeVideo}"
    and "\<forall>m \<in> set ms. sendable sz m"
    and "inChunkSize client = sz" "buffer_ok buf" "view buf = []"
  shows "\<exists>s' out. media_run con sz ms s0 = Some s' \<and>
    replayCachedMessagesToPlayer connected player sz s' = Some out \<and>
    (\<forall>segs. concat segs = concat (sent_to player out) \<longrightarrow>
       fst (snd (snd (receive_all buf [] client segs))) =
         opt_list (last_such (\<lambda>m. typeId m = kMessageTypeDataAmf0) ms) @
         opt_list (last_such IsAacSequenceHeader ms) @
         opt_list (last_such IsAvcSequenceHeader ms) @ last_gop (filter is_frame ms))"
proof -
  have "caches_of [] s0"
    using setPublisher_result(1) [OF assms(2)] assms(1) by (simp add: caches_of_Nil)
  from media_run_caches [OF assms(3) this assms(5), of con]
  obtain s' where run: "media_run con sz ms s0 = Some s'" and caches: "caches_of ms s'" by auto
  obtain out es where out: "sendEncoded player sz (replayMessages s') = Some out"
    "EncodeMessages (replayMessages s') sz = Some es" "concat (sent_to player out) = es"
    using sendEncoded_messages [OF assms(3)] by blast
  have "\<forall>m \<in> set (replayMessages s'). sendable (inChunkSize client) m"
    using replay_subset [OF caches] assms(6,7) by auto
  note rt = messages_roundtrip [OF assms(8,9) _ this]
  show ?thesis
  proof (intro exI conjI allI impI)
    show "media_run con sz ms s0 = Some s'" by (rule run)
    show "replayCachedMessagesToPlayer connected player sz s' = Some out"
      using assms(4) out(1) by (simp add: replayCachedMessagesToPlayer_def)
    fix segs assume "concat segs = concat (sent_to player out)"
    with rt out assms(3,7) caches
    show "fst (snd (snd (receive_all buf [] client segs))) =
         opt_list (last_such (\<lambda>m. typeId m = kMessageTypeDataAmf0) ms) @
         opt_list (last_such IsAacSequenceHeader ms) @
         opt_list (last_such IsAvcSequenceHeader ms) @ last_gop (filter is_frame ms)"
      by (fastforce simp: replayMessages_def caches_of_def)
  qed
qed

definition sample_key_frame :: RtmpMessage where
  "sample_key_frame = \<lparr>timestamp = 80, messageLength = 3, typeId = kMessageTypeVideo, messageStreamId = 1,
     chunkStreamId = 6, payload = [CHR 0x17, CHR 0x01, CHR 0x00]\<rparr>"

lemma sample_sendable:
  "sendable 128 sample_audio" "sendable 128 sample_key_frame"
  by (simp_all add: sendable_def encodable_def csid_ok_def sample_audio_def sample_key_frame_def
      word_le_nat_alt word_less_nat_alt)

theorem late_player_catches_up_witness:
  "\<exists>s' out. media_run (\<lambda>_. True) 128 [sample_audio, sample_key_frame, sample_audio]
      ((newRtmpSession ''/live/a'')\<lparr>publisher := Some ''pub''\<rparr>) = Some s' \<and>
    replayCachedMessagesToPlayer (\<lambda>_. True) ''late'' 128 s' = Some out \<and>
    (\<forall>segs. concat segs = concat (sent_to ''late'' out) \<longrightarrow>
       fst (snd (snd (receive_all (newBuffer 64) [] newRtmpChunkParser segs))) =
         [sample_key_frame, sample_audio])"
proof -
  let ?ms = "[sample_audio, sample_key_frame, sample_audio]"
  have pub: "setPublisher ''pub'' (newRtmpSession ''/live/a'') =
      (True, (newRtmpSession ''/live/a'')\<lparr>publisher := Some ''pub''\<rparr>)"
    by (simp add: setPublisher_def newRtmpSession_def)
  have "publisher (newRtmpSession ''/live/a'') = None" by (simp add: newRtmpSession_def)
  moreover have "\<forall>m \<in> set ?ms. typeId m \<in> {kMessageTypeDataAmf0, kMessageTypeAudio, kMessageTypeVideo}"
    by (simp add: sample_audio_def sample_key_frame_def)
  moreover have "\<forall>m \<in> set ?ms. sendable 128 m" by (simp add: sample_sendable)
  moreover have "inChunkSize newRtmpChunkParser = 128"
    by (simp add: newRtmpChunkParser_def kDefaultChunkSize_def)
  moreover have "opt_list (last_such (\<lambda>m. typeId m = kMessageTypeDataAmf0) ?ms) @
         opt_list (last_such IsAacSequenceHeader ?ms) @
         opt_list (last_such IsAvcSequenceHeader ?ms) @ last_gop (filter is_frame ?ms) =
       [sample_key_frame, sample_audio]"
    by code_simp
  ultimately show ?thesis
    using late_player_catches_up [OF _ pub, of 128 "\<lambda>_. True" "''late''" ?ms newRtmpChunkParser
        "newBuffer 64" "\<lambda>_. True"]
    by (simp add: view_newBuffer)
qed

end
