(* ===== verification/RtmpHandshake.thy ===== *)
theory RtmpHandshake
  imports Buffer RtmpTypes
begin

text \<open>
  The server side of the RTMP simple handshake (\<open>src/rtmp/RtmpHandshake.h\<close>,
  \<open>RtmpHandshake.cc\<close>). The values of \<open>std::random_device\<close> are a parameter: \<open>rd i\<close> is the
  value of the \<open>i\<close>-th call. The out-parameters \<open>response\<close> and \<open>error_message\<close> are never null in
  the server; the error is the \<open>Inl\<close> of the result.
\<close>

section \<open>Operations\<close>

definition kHandshakePacketSize :: nat where "kHandshakePacketSize = 1536"
definition kC0C1Size :: nat where "kC0C1Size = 1 + kHandshakePacketSize"

definition buildS0S1S2 :: "(nat \<Rightarrow> u32) \<Rightarrow> string \<Rightarrow> string" where
  "buildS0S1S2 rd c1 =
     chr_of kVersion # replicate 8 (CHR 0x00) @
     map (\<lambda>i. chr_of (ucast (rd i))) [0..<kHandshakePacketSize - 8] @
     take kHandshakePacketSize c1"

function process ::
  "(nat \<Rightarrow> u32) \<Rightarrow> Buffer \<Rightarrow> string \<Rightarrow> HandshakeState
     \<Rightarrow> string option \<times> Buffer \<times> string \<times> HandshakeState" where
  "process rd buf response state =
     (if state = kWaitC0C1 then
        (if readableBytes buf < kC0C1Size then (None, buf, response, state)
         else
           let data = view buf in
           if u8_of (data ! 0) \<noteq> kVersion
           then (Some ''unsupported rtmp version'', buf, response, state)
           else process rd (retrieve kC0C1Size buf) (response @ buildS0S1S2 rd (drop 1 data)) kWaitC2)
      else if state = kWaitC2 then
        (if readableBytes buf < kHandshakePacketSize then (None, buf, response, state)
         else (None, retrieve kHandshakePacketSize buf, response, kHandshakeDone))
      else (None, buf, response, state))"
  by pat_completeness auto
termination
  by (relation "measure (\<lambda>(rd, buf, response, state). if state = kWaitC0C1 then 1 else 0)") auto

declare process.simps [simp del]

definition isDone :: "HandshakeState \<Rightarrow> bool" where
  "isDone state \<longleftrightarrow> state = kHandshakeDone"

text \<open>Segment by segment, as the connection calls it.\<close>

fun receive_handshake ::
  "(nat \<Rightarrow> u32) \<Rightarrow> Buffer \<Rightarrow> string \<Rightarrow> HandshakeState \<Rightarrow> string list
     \<Rightarrow> string option \<times> Buffer \<times> string \<times> HandshakeState" where
  "receive_handshake rd buf response state [] = (None, buf, response, state)"
| "receive_handshake rd buf response state (seg # segs) =
     (case process rd (buf_append seg buf) response state of
        (Some e, r) \<Rightarrow> (Some e, r)
      | (None, buf', response', state') \<Rightarrow> receive_handshake rd buf' response' state' segs)"


section \<open>As an incremental parser\<close>

definition handshake_step ::
  "(nat \<Rightarrow> u32) \<Rightarrow> HandshakeState \<Rightarrow> string \<Rightarrow> (HandshakeState, string, string) outcome" where
  "handshake_step rd s v =
     (case s of
        kWaitC0C1 \<Rightarrow>
          (if length v < kC0C1Size then Wait s
           else if u8_of (v ! 0) \<noteq> kVersion then Reject ''unsupported rtmp version''
           else Consume kC0C1Size kWaitC2 [buildS0S1S2 rd (drop 1 v)])
      | kWaitC2 \<Rightarrow>
          (if length v < kHandshakePacketSize then Wait s
           else Consume kHandshakePacketSize kHandshakeDone [])
      | _ \<Rightarrow> Wait s)"

lemmas handshake_sizes = kC0C1Size_def kHandshakePacketSize_def

interpretation handshake: incremental_parser "handshake_step rd" "\<lambda>_ _. True" for rd
  by unfold_locales
    (auto simp: handshake_step_def handshake_sizes buildS0S1S2_def nth_append
      split: HandshakeState.splits if_splits)

lemma handshake_step_eqs:
  "handshake_step rd kWaitC0C1 v =
     (if length v < kC0C1Size then Wait kWaitC0C1
      else if u8_of (v ! 0) \<noteq> kVersion then Reject ''unsupported rtmp version''
      else Consume kC0C1Size kWaitC2 [buildS0S1S2 rd (drop 1 v)])"
  "handshake_step rd kWaitC2 v =
     (if length v < kHandshakePacketSize then Wait kWaitC2
      else Consume kHandshakePacketSize kHandshakeDone [])"
  "handshake_step rd kSendS0S1S2 v = Wait kSendS0S1S2"
  "handshake_step rd kHandshakeDone v = Wait kHandshakeDone"
  by (simp_all add: handshake_step_def)

lemma run_done: "run_steps (handshake_step rd) kHandshakeDone v = Inr (kHandshakeDone, v, [])"
  by (simp add: run_steps.simps handshake_step_eqs)

lemma run_C2:
  "run_steps (handshake_step rd) kWaitC2 v =
     (if length v < kHandshakePacketSize then Inr (kWaitC2, v, [])
      else Inr (kHandshakeDone, drop kHandshakePacketSize v, []))"
  by (simp add: run_steps.simps [of _ kWaitC2] handshake_step_eqs run_done handshake_sizes)

lemma process_run:
  "buffer_ok buf \<Longrightarrow>
   (case run_steps (handshake_step rd) s (view buf) of
      Inl e \<Rightarrow> \<exists>r. process rd buf response s = (Some e, r)
    | Inr (s', rest, os) \<Rightarrow> \<exists>buf'. process rd buf response s = (None, buf', response @ concat os, s') \<and>
        buffer_ok buf' \<and> view buf' = rest)"
proof (induction rd buf response s rule: process.induct)
  case (1 rd buf response s)
  show ?case
  proof (cases s)
    case kWaitC0C1
    show ?thesis
    proof (cases "readableBytes buf < kC0C1Size \<or> u8_of (view buf ! 0) \<noteq> kVersion")
      case True
      with "1.prems" kWaitC0C1 show ?thesis
        by (auto simp: process.simps [of rd buf] run_steps.simps [of _ kWaitC0C1] handshake_step_eqs)
    next
      case False
      with "1.IH" [OF kWaitC0C1] "1.prems"
      have "case run_steps (handshake_step rd) kWaitC2 (drop kC0C1Size (view buf)) of
          Inl e \<Rightarrow> \<exists>r. process rd (retrieve kC0C1Size buf) (response @ buildS0S1S2 rd (drop 1 (view buf))) kWaitC2
            = (Some e, r)
        | Inr (s', rest, os) \<Rightarrow> \<exists>buf'. process rd (retrieve kC0C1Size buf)
            (response @ buildS0S1S2 rd (drop 1 (view buf))) kWaitC2
            = (None, buf', (response @ buildS0S1S2 rd (drop 1 (view buf))) @ concat os, s') \<and>
            buffer_ok buf' \<and> view buf' = rest"
        by (auto simp: view_simps)
      with False kWaitC0C1 "1.prems" show ?thesis
        by (auto simp: process.simps [of rd buf] run_steps.simps [of _ kWaitC0C1] handshake_step_eqs
            Let_def kC0C1Size_def split: sum.splits)
    qed
  qed (use "1.prems" in \<open>auto simp: process.simps [of rd buf] run_C2 run_steps.simps handshake_step_eqs
      view_simps run_done handshake_sizes\<close>)
qed

lemma receive_handshake_feed:
  "buffer_ok buf \<Longrightarrow>
   (case feed_steps (handshake_step rd) s (view buf) segs of
      Inl e \<Rightarrow> \<exists>r. receive_handshake rd buf response s segs = (Some e, r)
    | Inr (s', rest, os) \<Rightarrow>
        \<exists>buf'. receive_handshake rd buf response s segs = (None, buf', response @ concat os, s') \<and>
        buffer_ok buf' \<and> view buf' = rest)"
proof (induction segs arbitrary: buf response s)
  case Nil
  then show ?case by simp
next
  case (Cons seg segs)
  have ok: "buffer_ok (buf_append seg buf)" using Cons.prems by simp
  note run = process_run [OF ok, where rd = rd and s = s and response = response]
  show ?case
  proof (cases "run_steps (handshake_step rd) s (view buf @ seg)")
    case (Inl e)
    with run Cons.prems show ?thesis by (auto simp: view_simps)
  next
    case (Inr r)
    obtain s1 rest os where r: "r = (s1, rest, os)" by (cases r)
    from run Inr r Cons.prems obtain buf1 where
      one: "process rd (buf_append seg buf) response s = (None, buf1, response @ concat os, s1)"
      and ok1: "buffer_ok buf1" and rest: "view buf1 = rest" by (auto simp: view_simps)
    from Cons.IH [OF ok1, where s = s1 and response = "response @ concat os"] Inr r one rest
    show ?thesis by (auto split: sum.splits)
  qed
qed

section \<open>What the handshake does\<close>

lemma run_handshake:
  assumes "u8_of c0 = kVersion" "length c1 = kHandshakePacketSize" "length c2 = kHandshakePacketSize"
  shows "run_steps (handshake_step rd) kWaitC0C1 (c0 # c1 @ c2 @ rest) =
    Inr (kHandshakeDone, rest, [buildS0S1S2 rd c1])"
proof -
  have "buildS0S1S2 rd (c1 @ c2 @ rest) = buildS0S1S2 rd c1"
    using assms(2) by (simp add: buildS0S1S2_def)
  then show ?thesis
    using assms
    by (simp add: run_steps.simps [of _ kWaitC0C1] handshake_step_eqs run_C2 kC0C1Size_def)
qed

lemma buildS0S1S2_layout:
  assumes "length c1 = kHandshakePacketSize"
  shows "length (buildS0S1S2 rd c1) = 1 + kHandshakePacketSize + kHandshakePacketSize"
    and "buildS0S1S2 rd c1 ! 0 = chr_of kVersion"
    and "drop (1 + kHandshakePacketSize) (buildS0S1S2 rd c1) = c1"
  using assms by (simp_all add: buildS0S1S2_def handshake_sizes)

text \<open>
  C30: A client that sends C0 with version 3, C1 and C2 completes the handshake into whatever
  segments the network cuts its bytes: it is answered exactly once, with version byte, S1 and an
  S2 that echoes its C1 (3073 bytes), and the bytes after C2 are left for the chunk parser.
\<close>

theorem handshake_completes:
  assumes "buffer_ok buf" "view buf = []"
    and "concat segs = c0 # c1 @ c2 @ rest" "u8_of c0 = kVersion"
    and "length c1 = kHandshakePacketSize" "length c2 = kHandshakePacketSize"
  shows "\<exists>buf' response. receive_handshake rd buf [] kWaitC0C1 segs =
      (None, buf', response, kHandshakeDone) \<and> view buf' = rest \<and>
      length response = 3073 \<and> response ! 0 = chr_of kVersion \<and> drop 1537 response = c1"
proof -
  have "feed_steps (handshake_step rd) kWaitC0C1 [] segs = Inr (kHandshakeDone, rest, [buildS0S1S2 rd c1])"
    using handshake.feed_eq_run [of rd kWaitC0C1 "[]" segs] run_handshake [OF assms(4-6)] assms(3)
    by (simp add: handshake_step_eqs kC0C1Size_def)
  with receive_handshake_feed [OF assms(1), where rd = rd and s = kWaitC0C1 and segs = segs and response = "[]"]
    assms(2) buildS0S1S2_layout [OF assms(5), of rd]
  show ?thesis by (auto simp: handshake_sizes)
qed

theorem handshake_completes_witness:
  "\<exists>buf' response. receive_handshake (\<lambda>i. word_of_nat i) (newBuffer 1024) [] kWaitC0C1
      [[CHR 0x03], replicate 1536 (CHR ''a'') @ replicate 1536 (CHR ''b''), ''rest''] =
      (None, buf', response, kHandshakeDone) \<and> view buf' = ''rest'' \<and>
      length response = 3073 \<and> response ! 0 = chr_of kVersion \<and> drop 1537 response = replicate 1536 (CHR ''a'')"
proof (rule handshake_completes [OF newBuffer_ok view_newBuffer])
  show "concat [[CHR 0x03], replicate 1536 (CHR ''a'') @ replicate 1536 (CHR ''b''), ''rest''] =
    CHR 0x03 # replicate 1536 (CHR ''a'') @ replicate 1536 (CHR ''b'') @ ''rest''" by simp
qed (simp_all add: u8_of_def kVersion_def handshake_sizes)

text \<open>
  A client with another version is rejected as soon as its C0 and C1 have arrived, in any
  segmentation, and gets no answer.
\<close>

theorem handshake_rejects_version:
  assumes "buffer_ok buf" "view buf = []"
    and "concat segs = c0 # c1" "u8_of c0 \<noteq> kVersion" "kHandshakePacketSize \<le> length c1"
  shows "fst (receive_handshake rd buf [] kWaitC0C1 segs) = Some ''unsupported rtmp version''"
proof -
  have "run_steps (handshake_step rd) kWaitC0C1 (c0 # c1) = Inl ''unsupported rtmp version''"
    using assms(4,5) by (simp add: run_steps.simps handshake_step_eqs kC0C1Size_def)
  then have "feed_steps (handshake_step rd) kWaitC0C1 [] segs = Inl ''unsupported rtmp version''"
    using handshake.feed_eq_run [of rd kWaitC0C1 "[]" segs] assms(3)
    by (simp add: handshake_step_eqs kC0C1Size_def)
  with receive_handshake_feed [OF assms(1), where rd = rd and s = kWaitC0C1 and segs = segs and response = "[]"]
    assms(2) show ?thesis by auto
qed

theorem handshake_rejects_version_witness:
  "fst (receive_handshake (\<lambda>_. 0) (newBuffer 1024) [] kWaitC0C1
     [[CHR 0x06], replicate 1536 (CHR ''a'')]) = Some ''unsupported rtmp version''"
proof (rule handshake_rejects_version [OF newBuffer_ok view_newBuffer])
  show "concat [[CHR 0x06], replicate 1536 (CHR ''a'')] = CHR 0x06 # replicate 1536 (CHR ''a'')" by simp
qed (simp_all add: u8_of_def kVersion_def handshake_sizes)

end
