(* ===== verification/Amf0.thy ===== *)
theory Amf0
  imports Prelude
begin

text \<open>
  The AMF0 value codec (\<open>src/rtmp/Amf0Value\<close>, \<open>Amf0Encoder\<close>, \<open>Amf0Decoder\<close>).

  A \<open>double\<close> is only ever copied bit by bit (\<open>memcpy\<close> to and from \<open>uint64_t\<close>), so it is
  its 64-bit pattern. The encoder's string \<open>data_\<close> is threaded through its operations. The
  decoder works on a string view; failure carries the error message of the code, success the
  value and the number of bytes used. All functions terminate on every input.
\<close>

section \<open>Values\<close>

type_synonym double = u64

datatype Amf0Type = kNumber | kBoolean | kString | kObject | kNull | kEcmaArray

datatype Amf0Value =
    Number double
  | Boolean bool
  | String string
  | ObjectValue "(string \<times> Amf0Value) list"
  | EcmaArray "(string \<times> Amf0Value) list"
  | Null

fun amf0_type :: "Amf0Value \<Rightarrow> Amf0Type" where
  "amf0_type (Number _) = kNumber"
| "amf0_type (Boolean _) = kBoolean"
| "amf0_type (String _) = kString"
| "amf0_type (ObjectValue _) = kObject"
| "amf0_type (EcmaArray _) = kEcmaArray"
| "amf0_type Null = kNull"

text \<open>The getters return the member of the class, which keeps its default for other types.\<close>

definition numberValue :: "Amf0Value \<Rightarrow> double" where
  "numberValue v = (case v of Number d \<Rightarrow> d | _ \<Rightarrow> 0)"

definition booleanValue :: "Amf0Value \<Rightarrow> bool" where
  "booleanValue v = (case v of Boolean b \<Rightarrow> b | _ \<Rightarrow> False)"

definition stringValue :: "Amf0Value \<Rightarrow> string" where
  "stringValue v = (case v of String s \<Rightarrow> s | _ \<Rightarrow> [])"

definition objectValue :: "Amf0Value \<Rightarrow> (string, Amf0Value) std_map" where
  "objectValue v = (case v of ObjectValue m \<Rightarrow> m | EcmaArray m \<Rightarrow> m | _ \<Rightarrow> [])"

definition isString :: "Amf0Value \<Rightarrow> bool" where
  "isString v \<longleftrightarrow> amf0_type v = kString"

definition isNumber :: "Amf0Value \<Rightarrow> bool" where
  "isNumber v \<longleftrightarrow> amf0_type v = kNumber"

definition isObjectLike :: "Amf0Value \<Rightarrow> bool" where
  "isObjectLike v \<longleftrightarrow> amf0_type v = kObject \<or> amf0_type v = kEcmaArray"

fun typeName :: "Amf0Type \<Rightarrow> string" where
  "typeName kNumber = ''number''"
| "typeName kBoolean = ''boolean''"
| "typeName kString = ''string''"
| "typeName kObject = ''object''"
| "typeName kNull = ''null''"
| "typeName kEcmaArray = ''ecma-array''"

text \<open>The type markers on the wire.\<close>

definition kAmf0Number :: u8 where "kAmf0Number = 0x00"
definition kAmf0Boolean :: u8 where "kAmf0Boolean = 0x01"
definition kAmf0String :: u8 where "kAmf0String = 0x02"
definition kAmf0Object :: u8 where "kAmf0Object = 0x03"
definition kAmf0Null :: u8 where "kAmf0Null = 0x05"
definition kAmf0EcmaArray :: u8 where "kAmf0EcmaArray = 0x08"
definition kAmf0ObjectEnd :: u8 where "kAmf0ObjectEnd = 0x09"

lemmas amf0_markers = kAmf0Number_def kAmf0Boolean_def kAmf0String_def kAmf0Object_def
  kAmf0Null_def kAmf0EcmaArray_def kAmf0ObjectEnd_def


section \<open>Encoder\<close>

definition appendUint16BE :: "u16 \<Rightarrow> string \<Rightarrow> string" where
  "appendUint16BE v data = data @ [byte_at 8 v, byte_at 0 v]"

definition amf_appendUint32BE :: "u32 \<Rightarrow> string \<Rightarrow> string" where
  "amf_appendUint32BE v data = data @ [byte_at 24 v, byte_at 16 v, byte_at 8 v, byte_at 0 v]"

definition appendDoubleBE :: "double \<Rightarrow> string \<Rightarrow> string" where
  "appendDoubleBE bits data =
     data @ [byte_at 56 bits, byte_at 48 bits, byte_at 40 bits, byte_at 32 bits,
             byte_at 24 bits, byte_at 16 bits, byte_at 8 bits, byte_at 0 bits]"

definition appendString :: "string \<Rightarrow> string \<Rightarrow> string" where
  "appendString v data =
     appendUint16BE (word_of_nat (length v)) (data @ [chr_of kAmf0String]) @ v"

definition appendNumber :: "double \<Rightarrow> string \<Rightarrow> string" where
  "appendNumber v data = appendDoubleBE v (data @ [chr_of kAmf0Number])"

definition appendBoolean :: "bool \<Rightarrow> string \<Rightarrow> string" where
  "appendBoolean v data = data @ [chr_of kAmf0Boolean, if v then CHR 0x01 else CHR 0x00]"

definition appendNull :: "string \<Rightarrow> string" where
  "appendNull data = data @ [chr_of kAmf0Null]"

function (sequential)
  appendValue :: "Amf0Value \<Rightarrow> string \<Rightarrow> string" and
  appendObject :: "(string, Amf0Value) std_map \<Rightarrow> bool \<Rightarrow> string \<Rightarrow> string" and
  appendObjectProperties :: "(string, Amf0Value) std_map \<Rightarrow> string \<Rightarrow> string" and
  appendObjectProperty :: "string \<Rightarrow> Amf0Value \<Rightarrow> string \<Rightarrow> string"
where
  "appendValue (Number d) data = appendNumber d data"
| "appendValue (Boolean b) data = appendBoolean b data"
| "appendValue (String s) data = appendString s data"
| "appendValue (ObjectValue m) data = appendObject m False data"
| "appendValue (EcmaArray m) data = appendObject m True data"
| "appendValue Null data = appendNull data"
| "appendObject m ecma_array data =
     (let data = data @ [chr_of (if ecma_array then kAmf0EcmaArray else kAmf0Object)];
          data = (if ecma_array then amf_appendUint32BE (word_of_nat (length m)) data else data);
          data = appendObjectProperties m data;
          data = appendUint16BE 0 data
      in data @ [chr_of kAmf0ObjectEnd])"
| "appendObjectProperties [] data = data"
| "appendObjectProperties ((k, v) # m) data =
     appendObjectProperties m (appendObjectProperty k v data)"
| "appendObjectProperty k v data =
     appendValue v (appendUint16BE (word_of_nat (length k)) data @ k)"
  by pat_completeness auto
termination
  by (relation "measure (\<lambda>x. case x of
        Inl (Inl (v, _)) \<Rightarrow> 3 * size v
      | Inl (Inr (m, _, _)) \<Rightarrow> 3 * size_list (size_prod (\<lambda>_. 0) size) m + 2
      | Inr (Inl (m, _)) \<Rightarrow> 3 * size_list (size_prod (\<lambda>_. 0) size) m + 1
      | Inr (Inr (_, v, _)) \<Rightarrow> 3 * size v + 1)") auto


section \<open>Decoder\<close>

definition ReadUint16BE :: "string \<Rightarrow> u16" where
  "ReadUint16BE data = put_byte (data ! 0) 8 OR put_byte (data ! 1) 0"

definition amf_ReadUint32BE :: "string \<Rightarrow> u32" where
  "amf_ReadUint32BE data = put_byte (data ! 0) 24 OR put_byte (data ! 1) 16 OR
     put_byte (data ! 2) 8 OR put_byte (data ! 3) 0"

definition ReadDoubleBE :: "string \<Rightarrow> double" where
  "ReadDoubleBE data =
     put_byte (data ! 0) 56 OR put_byte (data ! 1) 48 OR put_byte (data ! 2) 40 OR
     put_byte (data ! 3) 32 OR put_byte (data ! 4) 24 OR put_byte (data ! 5) 16 OR
     put_byte (data ! 6) 8 OR put_byte (data ! 7) 0"

definition decodeString :: "string \<Rightarrow> string + (string \<times> nat)" where
  "decodeString data =
     (if length data < 2 then Inl ''amf0 string length is truncated''
      else let len = unat (ReadUint16BE data) in
        if length data < 2 + len then Inl ''amf0 string payload is truncated''
        else Inr (take len (drop 2 data), 2 + len))"

lemma decodeString_used: "decodeString data = Inr (s, n) \<Longrightarrow> 2 \<le> n \<and> n \<le> length data"
  by (auto simp: decodeString_def Let_def split: if_splits)

text \<open>
  \<open>decodeObject\<close> is the loop of the member function of that name from the given offset and
  the properties read so far; it starts at offset 0 with the empty object.
\<close>

function (sequential)
  decodeValue :: "string \<Rightarrow> string + (Amf0Value \<times> nat)" and
  decodeObjectFrom :: "string \<Rightarrow> nat \<Rightarrow> (string, Amf0Value) std_map
      \<Rightarrow> string + ((string, Amf0Value) std_map \<times> nat)"
where
  "decodeValue data =
     (if data = [] then Inr (Null, 0)
      else let type = u8_of (data ! 0) in
      if type = kAmf0Number then
        (if length data < 1 + 8 then Inl ''amf0 number payload is truncated''
         else Inr (Number (ReadDoubleBE (drop 1 data)), 9))
      else if type = kAmf0Boolean then
        (if length data < 2 then Inl ''amf0 boolean payload is truncated''
         else Inr (Boolean (data ! 1 \<noteq> CHR 0x00), 2))
      else if type = kAmf0String then
        (case decodeString (drop 1 data) of
           Inl e \<Rightarrow> Inl e
         | Inr (s, n) \<Rightarrow> Inr (String s, 1 + n))
      else if type = kAmf0Object then
        (case decodeObjectFrom (drop 1 data) 0 [] of
           Inl e \<Rightarrow> Inl e
         | Inr (m, n) \<Rightarrow> Inr (ObjectValue m, 1 + n))
      else if type = kAmf0EcmaArray then
        (if length data < 5 then Inl ''amf0 ecma array payload is truncated''
         else let count = amf_ReadUint32BE (drop 1 data) in
           case decodeObjectFrom (drop 5 data) 0 [] of
             Inl e \<Rightarrow> Inl e
           | Inr (m, n) \<Rightarrow> Inr (EcmaArray m, 5 + n))
      else if type = kAmf0Null then Inr (Null, 1)
      else Inl ''unsupported amf0 type marker'')"
| "decodeObjectFrom data offset object =
     (if \<not> offset < length data then Inl ''amf0 object end marker is missing''
      else if length data - offset \<ge> 3 \<and> data ! offset = CHR 0x00 \<and>
              data ! (offset + 1) = CHR 0x00 \<and> u8_of (data ! (offset + 2)) = kAmf0ObjectEnd
      then Inr (object, offset + 3)
      else case decodeString (drop offset data) of
        Inl e \<Rightarrow> Inl e
      | Inr (key, key_bytes) \<Rightarrow>
          (case decodeValue (drop (offset + key_bytes) data) of
             Inl e \<Rightarrow> Inl e
           | Inr (property, value_bytes) \<Rightarrow>
               (if value_bytes = 0 then Inl ''amf0 object property is empty''
                else decodeObjectFrom data (offset + key_bytes + value_bytes)
                       (std_emplace key property object))))"
  by pat_completeness auto
termination
  by (relation "measure (\<lambda>x. case x of Inl d \<Rightarrow> length d | Inr (d, k, _) \<Rightarrow> length d - k)")
    (auto dest!: decodeString_used)

declare decodeValue.simps [simp del] decodeObjectFrom.simps [simp del]

definition decodeObject :: "string \<Rightarrow> string + ((string, Amf0Value) std_map \<times> nat)" where
  "decodeObject data = decodeObjectFrom data 0 []"

function decodeAllFrom :: "string \<Rightarrow> nat \<Rightarrow> Amf0Value list \<Rightarrow> string + Amf0Value list" where
  "decodeAllFrom data offset values =
     (if offset < length data then
        (case decodeValue (drop offset data) of
           Inl e \<Rightarrow> Inl e
         | Inr (v, bytes_used) \<Rightarrow>
             (if bytes_used = 0 then Inr values
              else decodeAllFrom data (offset + bytes_used) (values @ [v])))
      else Inr values)"
  by pat_completeness auto
termination
  by (relation "measure (\<lambda>(d, k, _). length d - k)") auto

declare decodeAllFrom.simps [simp del]

definition decodeAll :: "string \<Rightarrow> string + Amf0Value list" where
  "decodeAll data = decodeAllFrom data 0 []"


section \<open>The wire format\<close>

text \<open>The encoding as a grammar, without the growing output string.\<close>

definition be16 :: "u16 \<Rightarrow> string" where
  "be16 v = [byte_at 8 v, byte_at 0 v]"

definition be64 :: "u64 \<Rightarrow> string" where
  "be64 v = [byte_at 56 v, byte_at 48 v, byte_at 40 v, byte_at 32 v,
             byte_at 24 v, byte_at 16 v, byte_at 8 v, byte_at 0 v]"

definition amf_string :: "string \<Rightarrow> string" where
  "amf_string s = be16 (word_of_nat (length s)) @ s"

definition amf_end :: string where
  "amf_end = [CHR 0x00, CHR 0x00, chr_of kAmf0ObjectEnd]"

fun amf_wire :: "Amf0Value \<Rightarrow> string" and amf_props :: "(string \<times> Amf0Value) list \<Rightarrow> string" where
  "amf_wire (Number d) = chr_of kAmf0Number # be64 d"
| "amf_wire (Boolean b) = [chr_of kAmf0Boolean, if b then CHR 0x01 else CHR 0x00]"
| "amf_wire (String s) = chr_of kAmf0String # amf_string s"
| "amf_wire (ObjectValue m) = chr_of kAmf0Object # amf_props m @ amf_end"
| "amf_wire (EcmaArray m) =
     chr_of kAmf0EcmaArray # amf_appendUint32BE (word_of_nat (length m)) [] @ amf_props m @ amf_end"
| "amf_wire Null = [chr_of kAmf0Null]"
| "amf_props [] = []"
| "amf_props ((k, v) # m) = amf_string k @ amf_wire v @ amf_props m"

lemma byte_at_zero: "byte_at n (0 :: 'a::len word) = CHR 0x00"
  by (simp add: byte_at_def chr_of_zero)

lemma append_wire [codec_simps]:
  "appendValue v data = data @ amf_wire v"
  "appendObject m e data = data @ amf_wire (if e then EcmaArray m else ObjectValue m)"
  "appendObjectProperties m data = data @ amf_props m"
  "appendObjectProperty k v data = data @ amf_string k @ amf_wire v"
  by (induction v data and m e data and m data and k v data
      rule: appendValue_appendObject_appendObjectProperties_appendObjectProperty.induct)
    (simp_all add: appendNumber_def appendBoolean_def appendString_def appendNull_def
      appendUint16BE_def amf_appendUint32BE_def appendDoubleBE_def amf_string_def be16_def be64_def
      amf_end_def byte_at_zero Let_def)

lemma ReadUint16BE_be16 [codec_simps]: "ReadUint16BE (be16 v @ rest) = v"
  by (simp add: ReadUint16BE_def be16_def octets_16)

lemma ReadDoubleBE_be64 [codec_simps]: "ReadDoubleBE (be64 v @ rest) = v"
  by (simp add: ReadDoubleBE_def be64_def octets_64)

lemma length_be16 [simp]: "length (be16 v) = 2"
  by (simp add: be16_def)

lemma length_be64 [simp]: "length (be64 v) = 8"
  by (simp add: be64_def)

lemma length_amf_appendUint32BE [simp]: "length (amf_appendUint32BE v data) = length data + 4"
  by (simp add: amf_appendUint32BE_def)

lemma length_amf_end [simp]: "length amf_end = 3"
  by (simp add: amf_end_def)

lemma unat_u16_length: "unat (word_of_nat n :: u16) = n mod 65536"
  by (simp add: unat_of_nat)

lemma decodeString_wire [codec_simps]:
  "length s < 65536 \<Longrightarrow> decodeString (amf_string s @ rest) = Inr (s, 2 + length s)"
  by (simp add: decodeString_def amf_string_def codec_simps unat_u16_length Let_def)


section \<open>Round trip\<close>

text \<open>
  Well-formed values: strings and keys fit their 16-bit length field and objects are maps, that
  is, strictly sorted by key.
\<close>

fun amf_wf :: "Amf0Value \<Rightarrow> bool" and amf_wf_props :: "(string \<times> Amf0Value) list \<Rightarrow> bool" where
  "amf_wf (String s) \<longleftrightarrow> length s < 65536"
| "amf_wf (ObjectValue m) \<longleftrightarrow> std_map_ok m \<and> amf_wf_props m"
| "amf_wf (EcmaArray m) \<longleftrightarrow> std_map_ok m \<and> amf_wf_props m"
| "amf_wf _ \<longleftrightarrow> True"
| "amf_wf_props [] \<longleftrightarrow> True"
| "amf_wf_props ((k, v) # m) \<longleftrightarrow> length k < 65536 \<and> amf_wf v \<and> amf_wf_props m"

lemma amf_wire_hd: "amf_wire v \<noteq> []" "u8_of (amf_wire v ! 0) \<noteq> kAmf0ObjectEnd"
  by (cases v; simp add: amf0_markers)+

lemma be16_zero_bytes: "byte_at 8 (v :: u16) = CHR 0x00 \<Longrightarrow> byte_at 0 v = CHR 0x00 \<Longrightarrow> v = 0"
  using octets_16 [of v] by (simp add: put_byte_def u8_of_def)

lemma amf_string_nth:
  "amf_string k ! 0 = byte_at 8 (word_of_nat (length k) :: u16)"
  "amf_string k ! Suc 0 = byte_at 0 (word_of_nat (length k) :: u16)"
  by (simp_all add: amf_string_def be16_def)

lemma length_amf_string [simp]: "length (amf_string k) = 2 + length k"
  by (simp add: amf_string_def)

text \<open>A property never looks like the end marker, not even one with an empty key.\<close>

lemma property_not_end:
  assumes "length k < 65536"
  shows "\<not> ((amf_string k @ amf_wire v @ rest) ! 0 = CHR 0x00 \<and>
            (amf_string k @ amf_wire v @ rest) ! 1 = CHR 0x00 \<and>
            u8_of ((amf_string k @ amf_wire v @ rest) ! 2) = kAmf0ObjectEnd)"
proof
  assume *: "(amf_string k @ amf_wire v @ rest) ! 0 = CHR 0x00 \<and>
            (amf_string k @ amf_wire v @ rest) ! 1 = CHR 0x00 \<and>
            u8_of ((amf_string k @ amf_wire v @ rest) ! 2) = kAmf0ObjectEnd"
  then have "(word_of_nat (length k) :: u16) = 0"
    by (intro be16_zero_bytes) (simp_all add: nth_append amf_string_nth)
  then have "unat (word_of_nat (length k) :: u16) = 0" by simp
  then have "k = []" using assms by (simp add: unat_u16_length)
  with * amf_wire_hd [of v] show False by (simp add: nth_append)
qed

lemma decode_property:
  assumes k: "length k < 65536"
    and v: "decodeValue (amf_wire v @ rest) = Inr (v, length (amf_wire v))"
  shows "decodeObjectFrom (pre @ amf_string k @ amf_wire v @ rest) (length pre) obj =
    decodeObjectFrom (pre @ amf_string k @ amf_wire v @ rest)
      (length pre + length (amf_string k) + length (amf_wire v)) (std_emplace k v obj)"
proof -
  let ?data = "pre @ amf_string k @ amf_wire v @ rest"
  have nth: "?data ! (length pre + i) = (amf_string k @ amf_wire v @ rest) ! i" for i
    by (simp add: nth_append)
  have not_end: "\<not> (?data ! length pre = CHR 0x00 \<and> ?data ! (length pre + 1) = CHR 0x00 \<and>
      u8_of (?data ! (length pre + 2)) = kAmf0ObjectEnd)"
    using property_not_end [OF k, of v rest] nth [of 0] nth [of 1] nth [of 2] by simp
  have "decodeString (drop (length pre) ?data) = Inr (k, 2 + length k)"
    using k by (simp add: codec_simps)
  moreover have "decodeValue (drop (length pre + (2 + length k)) ?data) = Inr (v, length (amf_wire v))"
    using v by (simp add: amf_string_def)
  ultimately show ?thesis
    using not_end amf_wire_hd(1) [of v]
    by (subst decodeObjectFrom.simps) (auto simp: add.assoc)
qed

lemma decode_end: "decodeObjectFrom (pre @ amf_end @ rest) (length pre) obj = Inr (obj, length pre + 3)"
  by (subst decodeObjectFrom.simps) (simp add: nth_append amf_end_def)

lemma decode_wire:
  "amf_wf v \<Longrightarrow> decodeValue (amf_wire v @ rest) = Inr (v, length (amf_wire v))"
  "amf_wf_props m \<Longrightarrow> std_map_ok (obj @ m) \<Longrightarrow>
     decodeObjectFrom (pre @ amf_props m @ amf_end @ rest) (length pre) obj =
       Inr (obj @ m, length pre + length (amf_props m) + 3)"
proof (induction v and m arbitrary: rest and obj pre rest rule: amf_wire_amf_props.induct)
  case (8 k v m)
  let ?rest = "amf_props m @ amf_end @ rest"
  have "\<forall>k' \<in> fst ` set obj. k' < k"
    using "8.prems"(2) by (auto simp: std_map_ok_def sorted_wrt_append)
  then have emplace: "std_emplace k v obj = obj @ [(k, v)]" by (rule std_emplace_append)
  have "decodeValue (amf_wire v @ ?rest) = Inr (v, length (amf_wire v))"
    using "8.prems"(1) by (intro "8.IH"(1)) simp
  from decode_property [OF _ this, of k pre obj] "8.prems"(1)
    "8.IH"(2) [of "obj @ [(k, v)]" "pre @ amf_string k @ amf_wire v" rest] "8.prems"(2)
  show ?case by (simp add: emplace add.assoc)
next
  case (7 obj pre rest)
  then show ?case by (simp add: decode_end)
next
  case (4 m)
  from "4.IH" [of "[]" "[]" rest] "4.prems" show ?case
    by (simp add: decodeValue.simps amf0_markers Let_def)
next
  case (5 m)
  from "5.IH" [of "[]" "[]" rest] "5.prems" show ?case
    by (simp add: decodeValue.simps amf0_markers Let_def)
qed (simp_all add: decodeValue.simps amf0_markers Let_def codec_simps)


lemma decodeAllFrom_wire:
  "list_all amf_wf vs \<Longrightarrow>
     decodeAllFrom (pre @ concat (map amf_wire vs)) (length pre) acc = Inr (acc @ vs)"
proof (induction vs arbitrary: pre acc)
  case Nil
  then show ?case by (simp add: decodeAllFrom.simps)
next
  case (Cons v vs)
  from Cons.prems have "decodeValue (amf_wire v @ concat (map amf_wire vs)) = Inr (v, length (amf_wire v))"
    by (intro decode_wire) simp
  with Cons.prems Cons.IH [of "pre @ amf_wire v" "acc @ [v]"] amf_wire_hd(1) [of v] show ?case
    by (subst decodeAllFrom.simps) simp
qed

lemma fold_appendValue: "fold appendValue vs data = data @ concat (map amf_wire vs)"
  by (induction vs arbitrary: data) (simp_all add: codec_simps)

lemma decodeAll_wire: "list_all amf_wf vs \<Longrightarrow> decodeAll (fold appendValue vs []) = Inr vs"
  using decodeAllFrom_wire [of vs "[]" "[]"] by (simp add: decodeAll_def fold_appendValue)


section \<open>What the decoder produces\<close>

lemma amf_wf_props_iff: "amf_wf_props m \<longleftrightarrow> (\<forall>(k, v) \<in> set m. length k < 65536 \<and> amf_wf v)"
  by (induction m) auto

lemma amf_wf_props_emplace [inv_intros]:
  "amf_wf_props m \<Longrightarrow> length k < 65536 \<Longrightarrow> amf_wf v \<Longrightarrow> amf_wf_props (std_emplace k v m)"
  using set_std_emplace_subset [of k v m] by (auto simp: amf_wf_props_iff)

lemma decodeString_wf:
  "decodeString data = Inr (s, n) \<Longrightarrow> 2 \<le> n \<and> n \<le> length data \<and> length s < 65536"
proof -
  have "unat (ReadUint16BE data) < 65536" using unsigned_less [of "ReadUint16BE data"] by simp
  then show "decodeString data = Inr (s, n) \<Longrightarrow> 2 \<le> n \<and> n \<le> length data \<and> length s < 65536"
    by (auto simp: decodeString_def Let_def split: if_splits)
qed

lemma decodeValue_cases:
  assumes "decodeValue data = Inr (v, n)"
  obtains (empty) "data = []" "v = Null" "n = 0"
  | (flat) "data \<noteq> []" "n \<le> length data" "0 < n" "amf_wf v"
  | (object) m k where "data \<noteq> []" "u8_of (data ! 0) = kAmf0Object"
      "decodeObjectFrom (drop 1 data) 0 [] = Inr (m, k)" "v = ObjectValue m" "n = 1 + k"
  | (ecma) m k where "5 \<le> length data" "u8_of (data ! 0) = kAmf0EcmaArray"
      "decodeObjectFrom (drop 5 data) 0 [] = Inr (m, k)" "v = EcmaArray m" "n = 5 + k"
proof (cases "data = []")
  case True
  with assms empty show ?thesis by (simp add: decodeValue.simps)
next
  case False
  then have "0 < length data" by simp
  with False assms that show ?thesis
    by (subst (asm) decodeValue.simps)
      (auto simp: Let_def Suc_le_eq split: if_splits sum.splits dest!: decodeString_wf)
qed

lemma decodeObjectFrom_cases:
  assumes "decodeObjectFrom data offset object = Inr (m, k)"
  obtains (end_marker) "3 \<le> length data - offset" "m = object" "k = offset + 3"
  | (property) key kn v vn where "offset < length data"
      "\<not> (3 \<le> length data - offset \<and> data ! offset = CHR 0x00 \<and> data ! (offset + 1) = CHR 0x00
          \<and> u8_of (data ! (offset + 2)) = kAmf0ObjectEnd)"
      "decodeString (drop offset data) = Inr (key, kn)"
      "decodeValue (drop (offset + kn) data) = Inr (v, vn)" "vn \<noteq> 0"
      "decodeObjectFrom data (offset + kn + vn) (std_emplace key v object) = Inr (m, k)"
proof (cases "3 \<le> length data - offset \<and> data ! offset = CHR 0x00 \<and> data ! (offset + 1) = CHR 0x00
          \<and> u8_of (data ! (offset + 2)) = kAmf0ObjectEnd")
  case True
  moreover from True have "offset < length data" by linarith
  ultimately have "decodeObjectFrom data offset object = Inr (object, offset + 3)"
    by (subst decodeObjectFrom.simps) simp
  with assms have "m = object" "k = offset + 3" by simp_all
  with True end_marker show ?thesis by blast
next
  case False
  with assms have "offset < length data"
    by (auto simp: decodeObjectFrom.simps [of data offset] split: if_splits)
  with False assms property show ?thesis
    by (simp add: decodeObjectFrom.simps [of data offset] split: sum.splits prod.splits if_splits)
qed

lemma decode_wf:
  "decodeValue data = Inr (v, n) \<Longrightarrow> amf_wf v \<and> n \<le> length data \<and> (data \<noteq> [] \<longrightarrow> 0 < n)"
  "decodeObjectFrom data offset object = Inr (m, k) \<Longrightarrow> std_map_ok object \<Longrightarrow>
     amf_wf_props object \<Longrightarrow> std_map_ok m \<and> amf_wf_props m \<and> offset < k \<and> k \<le> length data"
proof (induction data and data offset object arbitrary: v n and m k
    rule: decodeValue_decodeObjectFrom.induct)
  case (1 data)
  from "1.prems" show ?case
  proof (cases rule: decodeValue_cases)
    case (object m k)
    with "1.IH"(1) [OF _ refl] show ?thesis by (force simp: amf0_markers)
  next
    case (ecma m k)
    with "1.IH"(2) [OF _ refl] show ?thesis by (force simp: amf0_markers)
  qed simp_all
next
  case (2 data offset object)
  from "2.prems"(1) show ?case
  proof (cases rule: decodeObjectFrom_cases)
    case end_marker
    with "2.prems" show ?thesis by auto
  next
    case (property key kn v vn)
    have str: "length key < 65536" using decodeString_wf [OF property(3)] by simp
    have "amf_wf v" using "2.IH"(1) property by auto
    with str have "std_map_ok (std_emplace key v object)" "amf_wf_props (std_emplace key v object)"
      using "2.prems" by (auto intro: inv_intros)
    with "2.IH"(2) [OF _ property(2,3) refl property(4) refl property(5,6)] property(1)
    show ?thesis by auto
  qed
qed

lemma decodeAllFrom_wf:
  "decodeAllFrom data offset acc = Inr vs \<Longrightarrow> list_all amf_wf acc \<Longrightarrow> list_all amf_wf vs"
proof (induction data offset acc rule: decodeAllFrom.induct)
  case (1 data offset acc)
  show ?case
    using "1.prems"
    by (subst (asm) decodeAllFrom.simps)
      (auto split: if_splits sum.splits dest!: "1.IH" dest: decode_wf(1))
qed


section \<open>Properties\<close>



text \<open>
  C33: a successful decode never reads or reports past the end of its input, makes progress on
  non-empty input (so the decoding loops end), and yields a well-formed value, whatever bytes
  the peer sent.
\<close>

theorem decodeValue_safe:
  "decodeValue data = Inr (v, n) \<Longrightarrow> data \<noteq> [] \<Longrightarrow> 0 < n \<and> n \<le> length data \<and> amf_wf v"
  using decode_wf(1) by blast

theorem decodeValue_safe_witness:
  "0 < (1::nat) \<and> 1 \<le> length (chr_of 5 # ''tail'') \<and> amf_wf Null"
proof -
  have "decodeValue (chr_of 5 # ''tail'') = Inr (Null, 1)"
    by (simp add: decodeValue.simps amf0_markers)
  from decodeValue_safe [OF this] show ?thesis by simp
qed

text \<open>
  decoding normalises. Whatever bytes were accepted, encoding the values again and decoding
  that gives the same values: duplicate keys, a wrong array count and unsorted properties are
  gone, and nothing else is.
\<close>

theorem decodeAll_normalises:
  "decodeAll data = Inr vs \<Longrightarrow> decodeAll (fold appendValue vs []) = Inr vs"
  by (rule decodeAll_wire, rule decodeAllFrom_wf [of data 0 "[]"]) (simp_all add: decodeAll_def)

theorem decodeAll_normalises_witness:
  "decodeAll (fold appendValue [ObjectValue [(''a'', Null), (''b'', Boolean False)]] [])
     = Inr [ObjectValue [(''a'', Null), (''b'', Boolean False)]]"
proof -
  let ?data = "chr_of 3 # amf_string ''b'' @ [chr_of 1, CHR 0x00] @ amf_string ''a'' @ [chr_of 5]
    @ amf_string ''b'' @ [chr_of 5] @ amf_end"
  have "decodeAll ?data = Inr [ObjectValue [(''a'', Null), (''b'', Boolean False)]]"
    by code_simp
  then show ?thesis by (rule decodeAll_normalises)
qed

text \<open>
  a string of 65536 bytes or more does not survive: the encoder writes its length modulo
  65536 and all of its bytes, so the peer reads a truncated string and takes the rest of the
  bytes for further values.
\<close>

theorem appendString_truncates:
  "65536 \<le> length s \<Longrightarrow>
     decodeValue (appendString s []) =
       Inr (String (take (length s mod 65536) s), 3 + length s mod 65536)"
  by (simp add: appendString_def appendUint16BE_def decodeValue.simps amf0_markers Let_def
      decodeString_def ReadUint16BE_def octets_16 unat_u16_length)

theorem appendString_truncates_witness:
  "decodeValue (appendString (replicate 65537 (CHR ''a'')) []) = Inr (String ''a'', 4)"
proof -
  have "65536 \<le> length (replicate 65537 (CHR ''a''))" by simp
  from appendString_truncates [OF this] show ?thesis by (simp add: take_Cons')
qed

end
