(* ===== verification/RtmpCommand.thy ===== *)
theory RtmpCommand
  imports Amf0 RtmpChunkWriter
begin

text \<open>
  Command messages: decoding them (\<open>src/rtmp/RtmpCommandMessage.cc\<close>) and the payloads the server
  answers with (the senders of \<open>src/rtmp/RtmpConnection.cc\<close>), and the stream name with its ticket
  that \<open>publish\<close> and \<open>play\<close> carry.
\<close>

section \<open>Decoding\<close>

record RtmpCommandMessage =
  cmd_name :: string
  transactionId :: double
  cmd_messageStreamId :: u32
  commandObject :: Amf0Value
  arguments :: "Amf0Value list"

definition DecodeCommandMessageAmf0 :: "RtmpMessage \<Rightarrow> string + RtmpCommandMessage" where
  "DecodeCommandMessageAmf0 message =
     (if typeId message \<noteq> kMessageTypeCommandAmf0 then Inl ''message is not command message amf0''
      else case decodeAll (payload message) of
        Inl e \<Rightarrow> Inl e
      | Inr values \<Rightarrow>
          (if length values < 2
           then Inl ''command message must contain at least name and transaction id''
           else if \<not> isString (values ! 0) \<or> \<not> isNumber (values ! 1)
           then Inl ''command message prefix types are invalid''
           else Inr \<lparr>cmd_name = stringValue (values ! 0), transactionId = numberValue (values ! 1),
                     cmd_messageStreamId = messageStreamId message,
                     commandObject = (if length values \<ge> 3 then values ! 2 else Null),
                     arguments = drop (min 3 (length values)) values\<rparr>))"


section \<open>Doubles of integers\<close>

text \<open>
  \<open>static_cast<double>\<close> of an unsigned integer below \<open>2^53\<close>, and the literals 0.0, 1.0 and 255.0:
  the IEEE 754 bits (sign 0, exponent \<open>1023 + e\<close>, the bits after the leading one).
\<close>

fun ilog2 :: "nat \<Rightarrow> nat" where
  "ilog2 n = (if n < 2 then 0 else Suc (ilog2 (n div 2)))"

definition double_of_nat :: "nat \<Rightarrow> double" where
  "double_of_nat n =
     (if n = 0 then 0
      else word_of_nat ((1023 + ilog2 n) * 2 ^ 52 + (n - 2 ^ ilog2 n) * 2 ^ (52 - ilog2 n)))"


section \<open>Stream names with tickets\<close>

definition kTicketPrefix :: string where "kTicketPrefix = ''ticket=''"

text \<open>The loop over the query part: the last \<open>ticket=\<close> parameter wins.\<close>

function parseTicketQuery :: "string \<Rightarrow> string \<Rightarrow> string" where
  "parseTicketQuery query ticket =
     (if query = [] then ticket
      else
        let ampersand = find_char (CHR ''&'') query;
            part = (case ampersand of None \<Rightarrow> query | Some a \<Rightarrow> take a query);
            ticket = (if starts_with kTicketPrefix part then drop (length kTicketPrefix) part else ticket)
        in
        case ampersand of None \<Rightarrow> ticket | Some a \<Rightarrow> parseTicketQuery (drop (a + 1) query) ticket)"
  by pat_completeness auto
termination
  by (relation "measure (\<lambda>(query, ticket). length query)") (auto split: option.splits)

declare parseTicketQuery.simps [simp del]

record StreamTarget =
  target_streamName :: string
  target_ticket :: string

definition ParseStreamTarget :: "string \<Rightarrow> StreamTarget option" where
  "ParseStreamTarget raw_name =
     (if raw_name = [] then None
      else case find_char (CHR ''?'') raw_name of
        None \<Rightarrow> Some \<lparr>target_streamName = raw_name, target_ticket = []\<rparr>
      | Some question \<Rightarrow>
          (let name = take question raw_name;
               ticket = parseTicketQuery (drop (question + 1) raw_name) []
           in if name = [] then None
              else Some \<lparr>target_streamName = name, target_ticket = ticket\<rparr>))"


section \<open>Messages the server sends\<close>

definition controlMessage :: "u8 \<Rightarrow> string \<Rightarrow> RtmpMessage" where
  "controlMessage type_id data =
     \<lparr>timestamp = 0, messageLength = word_of_nat (length data), typeId = type_id,
      messageStreamId = 0, chunkStreamId = kChunkStreamIdControl, payload = data\<rparr>"

definition commandMessage :: "u32 \<Rightarrow> string \<Rightarrow> RtmpMessage" where
  "commandMessage stream_id data =
     \<lparr>timestamp = 0, messageLength = word_of_nat (length data), typeId = kMessageTypeCommandAmf0,
      messageStreamId = stream_id, chunkStreamId = kChunkStreamIdCommand, payload = data\<rparr>"

definition windowAcknowledgementSizeMessage :: "u32 \<Rightarrow> RtmpMessage" where
  "windowAcknowledgementSizeMessage window_size =
     controlMessage kMessageTypeWindowAcknowledgementSize (appendUint32BE [] window_size)"

definition setPeerBandwidthMessage :: "u32 \<Rightarrow> RtmpMessage" where
  "setPeerBandwidthMessage peer_bandwidth =
     controlMessage kMessageTypeSetPeerBandwidth (appendUint32BE [] peer_bandwidth @ [CHR 0x02])"

definition setChunkSizeMessage :: "u32 \<Rightarrow> RtmpMessage" where
  "setChunkSizeMessage chunk_size =
     controlMessage kMessageTypeSetChunkSize (appendUint32BE [] chunk_size)"

definition connectSuccessMessage :: "RtmpCommandMessage \<Rightarrow> RtmpMessage" where
  "connectSuccessMessage command =
     (let properties = std_emplace ''mode'' (Number (double_of_nat 1))
            (std_emplace ''capabilities'' (Number (double_of_nat 255))
            (std_emplace ''fmsVer'' (String ''FMS/4,5,0,297'') []));
          information = std_emplace ''objectEncoding'' (Number (double_of_nat 0))
            (std_emplace ''description'' (String ''Connection succeeded.'')
            (std_emplace ''code'' (String ''NetConnection.Connect.Success'')
            (std_emplace ''level'' (String ''status'') [])));
          data = appendString ''_result'' [];
          data = appendNumber (transactionId command) data;
          data = appendObject properties False data;
          data = appendObject information False data
      in commandMessage 0 data)"

definition createStreamResultMessage :: "RtmpCommandMessage \<Rightarrow> u32 \<Rightarrow> RtmpMessage" where
  "createStreamResultMessage command stream_id =
     (let data = appendString ''_result'' [];
          data = appendNumber (transactionId command) data;
          data = appendNull data;
          data = appendNumber (double_of_nat (unat stream_id)) data
      in commandMessage 0 data)"

definition onStatusMessage :: "u32 \<Rightarrow> string \<Rightarrow> string \<Rightarrow> bool \<Rightarrow> RtmpMessage" where
  "onStatusMessage message_stream_id code description error =
     (let information = std_emplace ''description'' (String description)
            (std_emplace ''code'' (String code)
            (std_emplace ''level'' (String (if error then ''error'' else ''status'')) []));
          data = appendString ''onStatus'' [];
          data = appendNumber (double_of_nat 0) data;
          data = appendNull data;
          data = appendObject information False data
      in commandMessage message_stream_id data)"

section \<open>Replies are understood\<close>

lemma DecodeCommand_values:
  assumes "list_all amf_wf (String nm # Number t # rest)"
  shows "DecodeCommandMessageAmf0 (commandMessage sid (fold appendValue (String nm # Number t # rest) [])) =
    Inr \<lparr>cmd_name = nm, transactionId = t, cmd_messageStreamId = sid,
         commandObject = (case rest of [] \<Rightarrow> Null | v # _ \<Rightarrow> v), arguments = tl rest\<rparr>"
proof -
  have "decodeAll (fold appendValue (String nm # Number t # rest) []) = Inr (String nm # Number t # rest)"
    using assms by (rule decodeAll_wire)
  then show ?thesis
    by (cases rest)
      (simp_all add: DecodeCommandMessageAmf0_def commandMessage_def isString_def isNumber_def
        stringValue_def numberValue_def)
qed

text \<open>
  The answer to \<open>createStream\<close> is a well-formed command message: decoding it gives \<open>_result\<close>
  with the transaction id of the request and the allocated stream id as its argument.
\<close>

theorem create_stream_reply_decodes:
  "DecodeCommandMessageAmf0 (createStreamResultMessage command stream_id) =
     Inr \<lparr>cmd_name = ''_result'', transactionId = transactionId command, cmd_messageStreamId = 0,
          commandObject = Null, arguments = [Number (double_of_nat (unat stream_id))]\<rparr>"
proof -
  let ?vs = "String ''_result'' # Number (transactionId command) #
    [Null, Number (double_of_nat (unat stream_id))]"
  have "createStreamResultMessage command stream_id = commandMessage 0 (fold appendValue ?vs [])"
    by (simp add: createStreamResultMessage_def Let_def)
  then show ?thesis
    using DecodeCommand_values [of "''_result''" "transactionId command"
        "[Null, Number (double_of_nat (unat stream_id))]" 0] by simp
qed

text \<open>
  A status report decodes to \<open>onStatus\<close> with transaction id 0, on the stream it concerns, and
  an information object that holds exactly its level, code and description.
\<close>

theorem on_status_decodes:
  assumes "length code < 65536" "length description < 65536"
  shows "DecodeCommandMessageAmf0 (onStatusMessage sid code description error) =
     Inr \<lparr>cmd_name = ''onStatus'', transactionId = 0, cmd_messageStreamId = sid,
          commandObject = Null,
          arguments = [ObjectValue [(''code'', String code), (''description'', String description),
            (''level'', String (if error then ''error'' else ''status''))]]\<rparr>"
proof -
  let ?info = "[(''code'', String code), (''description'', String description),
      (''level'', String (if error then ''error'' else ''status''))]"
  let ?vs = "String ''onStatus'' # Number 0 # [Null, ObjectValue ?info]"
  have info: "std_emplace ''description'' (String description) (std_emplace ''code'' (String code)
      (std_emplace ''level'' (String (if error then ''error'' else ''status'')) [])) = ?info"
    by simp
  have "onStatusMessage sid code description error = commandMessage sid (fold appendValue ?vs [])"
    by (simp add: onStatusMessage_def info double_of_nat_def Let_def)
  moreover have "list_all amf_wf ?vs" using assms by (simp add: std_map_ok_def)
  ultimately show ?thesis using DecodeCommand_values [of "''onStatus''" 0 "[Null, ObjectValue ?info]" sid] by simp
qed

theorem on_status_decodes_witness:
  "DecodeCommandMessageAmf0 (onStatusMessage 1 ''NetStream.Publish.Start'' ''Start publishing.'' False) =
     Inr \<lparr>cmd_name = ''onStatus'', transactionId = 0, cmd_messageStreamId = 1,
          commandObject = Null,
          arguments = [ObjectValue [(''code'', String ''NetStream.Publish.Start''),
            (''description'', String ''Start publishing.''), (''level'', String ''status'')]]\<rparr>"
  using on_status_decodes [of "''NetStream.Publish.Start''" "''Start publishing.''" 1 False] by simp


section \<open>The ticket in a stream name\<close>

lemma ParseStreamTarget_ticket:
  assumes "name \<noteq> []" "CHR ''?'' \<notin> set name" "CHR ''&'' \<notin> set t"
    and "\<forall>p \<in> set params. CHR ''&'' \<notin> set p"
  shows "ParseStreamTarget (name @ ''?'' @ concat (map (\<lambda>p. p @ ''&'') params) @ ''ticket='' @ t) =
    Some \<lparr>target_streamName = name, target_ticket = t\<rparr>"
proof -
  have last: "parseTicketQuery (''ticket='' @ t) old = t" for old
    using find_char_None [of "CHR ''&''" "''ticket='' @ t"] assms(3)
    by (simp add: parseTicketQuery.simps starts_with_def kTicketPrefix_def)
  have "parseTicketQuery (concat (map (\<lambda>p. p @ ''&'') ps) @ ''ticket='' @ t) old = t"
    if "\<forall>p \<in> set ps. CHR ''&'' \<notin> set p" for ps old
    using that
  proof (induction ps arbitrary: old)
    case Nil
    then show ?case using last by simp
  next
    case (Cons p ps)
    let ?rest = "concat (map (\<lambda>p. p @ ''&'') ps) @ ''ticket='' @ t"
    have "find_char (CHR ''&'') (p @ CHR ''&'' # ?rest) = Some (length p)"
      using Cons.prems by (intro find_char_append) simp
    with Cons show ?case by (simp add: parseTicketQuery.simps [of "p @ _"] Let_def)
  qed
  from this [OF assms(4)] find_char_append [OF assms(2)] assms(1) show ?thesis
    by (simp add: ParseStreamTarget_def)
qed

text \<open>
  A client that appends \<open>?ticket=t\<close> to its stream name, after any other parameters, is
  understood: the stream name is what precedes the question mark and the ticket is \<open>t\<close>.
\<close>

theorem stream_target_ticket:
  assumes "name \<noteq> []" "CHR ''?'' \<notin> set name" "CHR ''&'' \<notin> set t"
    and "\<forall>p \<in> set params. CHR ''&'' \<notin> set p"
  shows "ParseStreamTarget (name @ ''?'' @ concat (map (\<lambda>p. p @ ''&'') params) @ ''ticket='' @ t) =
    Some \<lparr>target_streamName = name, target_ticket = t\<rparr>"
  using assms by (rule ParseStreamTarget_ticket)

theorem stream_target_ticket_witness:
  "ParseStreamTarget ''room?v=2&ticket=abc'' = Some \<lparr>target_streamName = ''room'', target_ticket = ''abc''\<rparr>"
  using stream_target_ticket [of "''room''" "''abc''" "[''v=2'']"] by simp

end
