(* ===== verification/TcpConnection.thy ===== *)
theory TcpConnection
  imports Buffer
begin

text \<open>
  A TCP connection (\<open>src/net/TcpConnection.h\<close>, \<open>TcpConnection.cc\<close>), as its own event loop runs it.

  \<^item> The interest bits of the connection's channel are two flags (\<open>Channel::isReading\<close>,
    \<open>Channel::isWriting\<close>).
  \<^item> System calls are parameters: \<open>write\<close> maps the bytes offered to an error number or to the
    number of bytes the kernel took; \<open>readv\<close> is the parameter of \<open>readFd\<close>.
  \<^item> What is handed to \<open>queueInLoop\<close> is collected in \<open>queued\<close>. User callbacks are recorded in
    \<open>callbacks\<close> in the order of the calls.
  \<^item> \<open>wire\<close> is a history variable: the bytes the kernel has taken so far; \<open>writeShut\<close> records
    \<open>shutdownWrite\<close>.
\<close>

section \<open>State and operations\<close>

datatype StateE = kDisconnected | kConnecting | kConnected | kDisconnecting

datatype Functor =
    WriteComplete
  | HighWaterMark nat
  | SendInLoop string
  | ShutdownInLoop

datatype UserCallback = ConnectionCallback bool | MessageCallback | CloseCallback | ErrorLogged

record TcpConnection =
  state :: StateE
  chan_reading :: bool
  chan_writing :: bool
  chan_registered :: bool
  inputBuffer :: Buffer
  outputBuffer :: Buffer
  highWaterMark :: nat
  hasWriteCompleteCallback :: bool
  hasHighWaterMarkCallback :: bool
  queued :: "Functor list"
  callbacks :: "UserCallback list"
  wire :: string
  writeShut :: bool

definition EWOULDBLOCK :: int where "EWOULDBLOCK = 11"
definition EPIPE :: int where "EPIPE = 32"
definition ECONNRESET :: int where "ECONNRESET = 104"

definition newTcpConnection :: TcpConnection where
  "newTcpConnection =
     \<lparr>state = kConnecting, chan_reading = False, chan_writing = False, chan_registered = False,
      inputBuffer = newBuffer kInitialSize, outputBuffer = newBuffer kInitialSize,
      highWaterMark = 64 * 1024 * 1024, hasWriteCompleteCallback = False,
      hasHighWaterMarkCallback = False, queued = [], callbacks = [], wire = [], writeShut = False\<rparr>"

definition connected :: "TcpConnection \<Rightarrow> bool" where
  "connected c \<longleftrightarrow> state c = kConnected"

definition queueInLoop :: "Functor \<Rightarrow> TcpConnection \<Rightarrow> TcpConnection" where
  "queueInLoop f c = c\<lparr>queued := queued c @ [f]\<rparr>"

definition callback :: "UserCallback \<Rightarrow> TcpConnection \<Rightarrow> TcpConnection" where
  "callback u c = c\<lparr>callbacks := callbacks c @ [u]\<rparr>"

definition shutdownInLoop :: "TcpConnection \<Rightarrow> TcpConnection" where
  "shutdownInLoop c = (if \<not> chan_writing c then c\<lparr>writeShut := True\<rparr> else c)"

definition sendInLoop :: "(string \<Rightarrow> int + nat) \<Rightarrow> string \<Rightarrow> TcpConnection \<Rightarrow> TcpConnection" where
  "sendInLoop write data c =
     (if state c = kDisconnected then c
      else
        let (nwrote, faultError, c) =
          (if \<not> chan_writing c \<and> readableBytes (outputBuffer c) = 0 then
             (case write data of
                Inr n \<Rightarrow>
                  (let c = c\<lparr>wire := wire c @ take n data\<rparr> in
                   (n, False, if length data - n = 0 \<and> hasWriteCompleteCallback c
                              then queueInLoop WriteComplete c else c))
              | Inl errno \<Rightarrow>
                  (0, errno \<noteq> EWOULDBLOCK \<and> (errno = EPIPE \<or> errno = ECONNRESET), c))
           else (0, False, c));
          remaining = length data - nwrote
        in
        if \<not> faultError \<and> remaining > 0 then
          (let oldLen = readableBytes (outputBuffer c);
               c = (if oldLen + remaining \<ge> highWaterMark c \<and> oldLen < highWaterMark c \<and>
                       hasHighWaterMarkCallback c
                    then queueInLoop (HighWaterMark (oldLen + remaining)) c else c)
           in c\<lparr>outputBuffer := buf_append (drop nwrote data) (outputBuffer c),
                chan_writing := True\<rparr>)
        else c)"

text \<open>\<open>in_loop\<close> tells whether the caller runs in the connection's loop thread.\<close>

definition send ::
  "(string \<Rightarrow> int + nat) \<Rightarrow> bool \<Rightarrow> string \<Rightarrow> TcpConnection \<Rightarrow> TcpConnection" where
  "send write in_loop buf c =
     (if state c = kConnected then
        (if in_loop then sendInLoop write buf c else queueInLoop (SendInLoop buf) c)
      else c)"

definition shutdown :: "bool \<Rightarrow> TcpConnection \<Rightarrow> TcpConnection" where
  "shutdown in_loop c =
     (if state c = kConnected then
        (let c = c\<lparr>state := kDisconnecting\<rparr> in
         if in_loop then shutdownInLoop c else queueInLoop ShutdownInLoop c)
      else c)"

definition handleWrite :: "(string \<Rightarrow> int + nat) \<Rightarrow> TcpConnection \<Rightarrow> TcpConnection" where
  "handleWrite write c =
     (if chan_writing c then
        (case writeFd write (outputBuffer c) of
           Inl errno \<Rightarrow> c
         | Inr n \<Rightarrow>
             (if n > 0 then
                (let c = c\<lparr>wire := wire c @ take n (view (outputBuffer c)),
                           outputBuffer := retrieve n (outputBuffer c)\<rparr>
                 in
                 if readableBytes (outputBuffer c) = 0 then
                   (let c = c\<lparr>chan_writing := False\<rparr>;
                        c = (if hasWriteCompleteCallback c then queueInLoop WriteComplete c else c)
                    in if state c = kDisconnecting then shutdownInLoop c else c)
                 else c)
              else c))
      else c)"

definition handleClose :: "TcpConnection \<Rightarrow> TcpConnection" where
  "handleClose c =
     callback CloseCallback (callback (ConnectionCallback False)
       (c\<lparr>state := kDisconnected, chan_reading := False, chan_writing := False\<rparr>))"

definition handleError :: "TcpConnection \<Rightarrow> TcpConnection" where
  "handleError c = callback ErrorLogged c"

definition handleRead :: "(nat \<Rightarrow> int + string) \<Rightarrow> TcpConnection \<Rightarrow> TcpConnection" where
  "handleRead readv c =
     (case readFd readv (inputBuffer c) of
        (Inl errno, b) \<Rightarrow> handleError (c\<lparr>inputBuffer := b\<rparr>)
      | (Inr n, b) \<Rightarrow>
          (if n > 0 then callback MessageCallback (c\<lparr>inputBuffer := b\<rparr>)
           else handleClose (c\<lparr>inputBuffer := b\<rparr>)))"

definition connectEstablished :: "TcpConnection \<Rightarrow> TcpConnection" where
  "connectEstablished c =
     callback (ConnectionCallback True)
       (c\<lparr>state := kConnected, chan_reading := True, chan_registered := True\<rparr>)"

definition connectDestroyed :: "TcpConnection \<Rightarrow> TcpConnection" where
  "connectDestroyed c =
     (let c = (if state c = kConnected
               then callback (ConnectionCallback False)
                      (c\<lparr>state := kDisconnected, chan_reading := False, chan_writing := False\<rparr>)
               else c)
      in c\<lparr>chan_registered := False\<rparr>)"

definition run_functor :: "(string \<Rightarrow> int + nat) \<Rightarrow> Functor \<Rightarrow> TcpConnection \<Rightarrow> TcpConnection" where
  "run_functor write f c =
     (case f of
        SendInLoop data \<Rightarrow> sendInLoop write data c
      | ShutdownInLoop \<Rightarrow> shutdownInLoop c
      | _ \<Rightarrow> c)"

lemmas connection_ops = shutdownInLoop_def sendInLoop_def send_def shutdown_def handleWrite_def
  handleClose_def handleError_def connectEstablished_def connectDestroyed_def
  queueInLoop_def callback_def

section \<open>The outgoing byte stream\<close>

text \<open>
  What the kernel promises of \<open>write\<close>: it never takes more than it is offered. A write is benign
  when it also does not report a broken connection.
\<close>

definition benign_write :: "(string \<Rightarrow> int + nat) \<Rightarrow> bool" where
  "benign_write write \<longleftrightarrow>
     (\<forall>d. case write d of Inr n \<Rightarrow> n \<le> length d | Inl e \<Rightarrow> e \<noteq> EPIPE \<and> e \<noteq> ECONNRESET)"

definition out_stream :: "TcpConnection \<Rightarrow> string" where
  "out_stream c = wire c @ view (outputBuffer c)"

definition conn_inv :: "TcpConnection \<Rightarrow> bool" where
  "conn_inv c \<longleftrightarrow> buffer_ok (inputBuffer c) \<and> buffer_ok (outputBuffer c) \<and>
     (chan_writing c \<longleftrightarrow> view (outputBuffer c) \<noteq> []) \<and>
     (state c = kConnected \<and> \<not> writeShut c \<or>
      state c = kDisconnecting \<and> (writeShut c \<longleftrightarrow> view (outputBuffer c) = []))"

lemma readable_zero_iff: "buffer_ok b \<Longrightarrow> readableBytes b = 0 \<longleftrightarrow> view b = []"
  by (metis length_view length_0_conv)

lemma benign_writeD:
  "benign_write w \<Longrightarrow> w d = Inr n \<Longrightarrow> n \<le> length d"
  "benign_write w \<Longrightarrow> w d = Inl e \<Longrightarrow> e \<noteq> EPIPE \<and> e \<noteq> ECONNRESET"
  by (auto simp: benign_write_def dest: spec [of _ d])

lemma sendInLoop_effect:
  assumes "conn_inv c" "benign_write w" "state c = kConnected"
  shows "conn_inv (sendInLoop w d c)" "out_stream (sendInLoop w d c) = out_stream c @ d"
    "state (sendInLoop w d c) = kConnected"
proof -
  let ?b = "outputBuffer c"
  from assms(1) have ok: "buffer_ok ?b" by (simp add: conn_inv_def)
  have "conn_inv (sendInLoop w d c) \<and> out_stream (sendInLoop w d c) = out_stream c @ d \<and>
      state (sendInLoop w d c) = kConnected"
  proof (cases "chan_writing c")
    case True
    with assms ok readable_zero_iff [OF ok] show ?thesis
      by (cases "d = []")
        (auto simp: sendInLoop_def conn_inv_def out_stream_def queueInLoop_def Let_def view_simps)
  next
    case False
    then have empty: "view ?b = []" "readableBytes ?b = 0" using assms(1) readable_zero_iff [OF ok]
      by (auto simp: conn_inv_def)
    show ?thesis
    proof (cases "w d")
      case (Inl e)
      with benign_writeD(2) [OF assms(2) Inl] False empty assms(1,3) ok show ?thesis
        by (cases "d = []")
          (auto simp: sendInLoop_def conn_inv_def out_stream_def queueInLoop_def Let_def view_simps)
    next
      case (Inr n)
      with benign_writeD(1) [OF assms(2) Inr] False empty assms(1,3) ok show ?thesis
        by (cases "n < length d")
          (auto simp: sendInLoop_def conn_inv_def out_stream_def queueInLoop_def Let_def view_simps)
    qed
  qed
  then show "conn_inv (sendInLoop w d c)" "out_stream (sendInLoop w d c) = out_stream c @ d"
    "state (sendInLoop w d c) = kConnected" by simp_all
qed

lemma handleWrite_effect:
  assumes "conn_inv c" "benign_write w"
  shows "conn_inv (handleWrite w c)" "out_stream (handleWrite w c) = out_stream c"
    "state (handleWrite w c) = state c"
proof -
  let ?b = "outputBuffer c"
  from assms(1) have ok: "buffer_ok ?b" by (simp add: conn_inv_def)
  have "conn_inv (handleWrite w c) \<and> out_stream (handleWrite w c) = out_stream c \<and>
      state (handleWrite w c) = state c"
  proof (cases "w (view ?b)")
    case (Inl e)
    with assms(1) show ?thesis by (simp add: handleWrite_def writeFd_def)
  next
    case (Inr n)
    have rest: "readableBytes (retrieve n ?b) = 0 \<longleftrightarrow> drop n (view ?b) = []"
      using readable_zero_iff [of "retrieve n ?b"] ok by (simp add: view_simps)
    show ?thesis
      using assms(1) ok rest Inr
      by (auto simp: handleWrite_def writeFd_def conn_inv_def out_stream_def queueInLoop_def
          shutdownInLoop_def Let_def view_simps)
  qed
  then show "conn_inv (handleWrite w c)" "out_stream (handleWrite w c) = out_stream c"
    "state (handleWrite w c) = state c" by simp_all
qed

lemma shutdown_effect:
  assumes "conn_inv c"
  shows "conn_inv (shutdown True c)" "out_stream (shutdown True c) = out_stream c"
    "state (shutdown True c) = kDisconnecting"
  using assms by (auto simp: shutdown_def shutdownInLoop_def conn_inv_def out_stream_def Let_def)

text \<open>A connection is an outgoing channel for \<open>send\<close> on its loop, as long as writes are benign.\<close>

interpretation conn_out: outgoing_channel "\<lambda>c. conn_inv c \<and> benign_write w" "\<lambda>c. state c = kConnected"
  out_stream "\<lambda>d. d" "send w True" for w
  by unfold_locales (use sendInLoop_effect in \<open>auto simp: send_def\<close>)

text \<open>The events of a connection's sending side, each with the system call it may make.\<close>

datatype OutEvent = OutSend string | OutWritable | OutShutdown

fun out_step :: "OutEvent \<times> (string \<Rightarrow> int + nat) \<Rightarrow> TcpConnection \<Rightarrow> TcpConnection" where
  "out_step (OutSend d, w) c = send w True d c"
| "out_step (OutWritable, w) c = handleWrite w c"
| "out_step (OutShutdown, w) c = shutdown True c"

fun sent_data :: "OutEvent list \<Rightarrow> string" where
  "sent_data [] = []"
| "sent_data (OutSend d # es) = d @ sent_data es"
| "sent_data (OutWritable # es) = sent_data es"
| "sent_data (OutShutdown # es) = []"

lemma out_steps_disconnecting:
  assumes "\<forall>(e, w) \<in> set es. benign_write w" "conn_inv c" "state c = kDisconnecting"
  shows "conn_inv (fold out_step es c) \<and> out_stream (fold out_step es c) = out_stream c \<and>
    state (fold out_step es c) = kDisconnecting"
  using assms
proof (induction es arbitrary: c)
  case (Cons e es)
  obtain ev w where e: "e = (ev, w)" by (cases e)
  have "conn_inv (out_step e c) \<and> out_stream (out_step e c) = out_stream c \<and>
      state (out_step e c) = kDisconnecting"
    using Cons.prems handleWrite_effect [of c w]
    by (cases ev) (auto simp: e send_def shutdown_def)
  with Cons.IH [of "out_step e c"] Cons.prems(1) show ?case by simp
qed simp

lemma out_steps_connected:
  assumes "\<forall>(e, w) \<in> set es. benign_write w" "conn_inv c" "state c = kConnected"
  shows "conn_inv (fold out_step es c) \<and>
    out_stream (fold out_step es c) = out_stream c @ sent_data (map fst es) \<and>
    state (fold out_step es c) = (if OutShutdown \<in> fst ` set es then kDisconnecting else kConnected)"
  using assms
proof (induction es arbitrary: c)
  case (Cons e es)
  obtain ev w where e: "e = (ev, w)" by (cases e)
  have w: "benign_write w" using Cons.prems(1) e by simp
  show ?case
  proof (cases ev)
    case (OutSend d)
    have ok: "conn_inv c \<and> benign_write w" using Cons.prems(2) w by blast
    from Cons.IH [of "send w True d c"] conn_out.put_usable [OF ok, of d] conn_out.put_up [OF ok, of d]
      conn_out.put_stream [OF ok, of d] Cons.prems
    show ?thesis by (auto simp: e OutSend)
  next
    case OutWritable
    note eff = handleWrite_effect [OF Cons.prems(2) w]
    with Cons.IH [OF _ eff(1)] Cons.prems show ?thesis by (auto simp: e OutWritable)
  next
    case OutShutdown
    note eff = shutdown_effect [OF Cons.prems(2)]
    with out_steps_disconnecting [OF _ eff(1,3), of es] Cons.prems show ?thesis
      by (auto simp: e OutShutdown)
  qed
qed simp

text \<open>
  C18: The bytes of a connection reach the wire complete and in order. For every sequence of sends,
  writable events and shutdowns in which the kernel takes arbitrary parts of what it is offered
  (or would block), the bytes on the wire followed by the bytes still buffered are exactly the
  data sent before the first shutdown; and the write side is shut down exactly when a shutdown
  was asked for and everything is on the wire.
\<close>

theorem output_in_order:
  assumes "conn_inv c" "state c = kConnected" "\<forall>(e, w) \<in> set es. benign_write w"
  shows "wire (fold out_step es c) @ view (outputBuffer (fold out_step es c)) =
      wire c @ view (outputBuffer c) @ sent_data (map fst es) \<and>
    (writeShut (fold out_step es c) \<longleftrightarrow>
       OutShutdown \<in> fst ` set es \<and> view (outputBuffer (fold out_step es c)) = [])"
  using out_steps_connected [OF assms(3,1,2)]
  by (auto simp: out_stream_def conn_inv_def split: if_splits)

lemma established_inv: "conn_inv (connectEstablished newTcpConnection)"
  by (simp add: conn_inv_def connectEstablished_def newTcpConnection_def callback_def view_simps)

text \<open>A short write, a blocked write, a shutdown with data pending, a send that comes too late.\<close>

definition sample_out_events :: "(OutEvent \<times> (string \<Rightarrow> int + nat)) list" where
  "sample_out_events =
     [(OutSend ''hello'', \<lambda>d. Inr (min 2 (length d))), (OutSend ''!'', \<lambda>_. Inl EWOULDBLOCK),
      (OutShutdown, \<lambda>_. Inl EWOULDBLOCK), (OutSend ''late'', \<lambda>d. Inr (length d)),
      (OutWritable, \<lambda>d. Inr (length d))]"

theorem output_in_order_witness:
  "wire (fold out_step sample_out_events (connectEstablished newTcpConnection)) @
     view (outputBuffer (fold out_step sample_out_events (connectEstablished newTcpConnection)))
     = ''hello!'' \<and>
   (writeShut (fold out_step sample_out_events (connectEstablished newTcpConnection)) \<longleftrightarrow>
     view (outputBuffer (fold out_step sample_out_events (connectEstablished newTcpConnection))) = [])"
proof -
  have "\<forall>(e, w) \<in> set sample_out_events. benign_write w"
    by (simp add: sample_out_events_def benign_write_def EWOULDBLOCK_def EPIPE_def ECONNRESET_def)
  moreover have "state (connectEstablished newTcpConnection) = kConnected"
    "wire (connectEstablished newTcpConnection) = []"
    "view (outputBuffer (connectEstablished newTcpConnection)) = []"
    by (simp_all add: connectEstablished_def callback_def newTcpConnection_def view_simps)
  moreover have "sent_data (map fst sample_out_events) = ''hello!''"
    "OutShutdown \<in> fst ` set sample_out_events"
    by (simp_all add: sample_out_events_def)
  ultimately show ?thesis
    using output_in_order [OF established_inv, of sample_out_events] by simp
qed

end
