(* ===== verification/RtmpServer.thy ===== *)
theory RtmpServer
  imports RtmpSession RtmpHandshake RtmpCommand TcpConnection
begin

text \<open>
  The RTMP server: the session manager (\<open>src/rtmp/RtmpSessionManager.cc\<close>), the connection
  context (\<open>RtmpConnectionContext.h\<close>, \<open>.cc\<close>), the connection's protocol handler
  (\<open>RtmpConnection.cc\<close>) and the server that owns them (\<open>RtmpServer.cc\<close>).

  \<^item> Session objects live in a heap: \<open>sessions\<close> (the manager's table) maps a stream key to the
    address of a session and \<open>sessionHeap\<close> an address to the object. The table holds the only
    lasting \<open>shared_ptr\<close>, so erasing an entry destroys the object; the \<open>weak_ptr\<close> in a connection
    context is an address, and \<open>lock\<close> is looking it up in the heap.
  \<^item> A connection is its name. Its state, its context, its input buffer and the strings passed to
    the kernel-facing \<open>send\<close> are components of the server's state; \<open>send\<close> drops data unless the
    connection is in state \<open>kConnected\<close>. How \<open>TcpConnection\<close> gets these strings onto the wire is
    the subject of theory \<open>TcpConnection\<close>.
  \<^item> The authorisation callback is a parameter, \<open>None\<close> when it is not set.
  \<^item> Handlers run one at a time here. A handler returns \<open>None\<close> when it does not return (the chunk
    writer with chunk size 0), else the boolean of the code and the new state. The checks of
    \<open>server_\<close> and the context's handler for null are left out: \<open>onConnection\<close> sets both.
\<close>

section \<open>State\<close>

record RtmpConnectionContext =
  ctx_role :: ConnectionRole
  ctx_inChunkSize :: u32
  outChunkSize :: u32
  acknowledgementWindow :: u32
  peerBandwidth :: u32
  receivedBytes :: nat
  ctx_app :: string
  tcUrl :: string
  streamName :: string
  publishType :: string
  objectEncoding :: double
  streamId :: u32
  nextStreamId :: u32
  ctx_session :: "nat option"
  ctx_handshake :: HandshakeState
  chunkParser :: RtmpChunkParser

definition newRtmpConnectionContext :: RtmpConnectionContext where
  "newRtmpConnectionContext =
     \<lparr>ctx_role = kUnknown, ctx_inChunkSize = kDefaultChunkSize, outChunkSize = kDefaultChunkSize,
      acknowledgementWindow = kDefaultAcknowledgementWindow, peerBandwidth = kDefaultPeerBandwidth,
      receivedBytes = 0, ctx_app = [], tcUrl = [], streamName = [], publishType = [],
      objectEncoding = 0, streamId = 0, nextStreamId = 1, ctx_session = None,
      ctx_handshake = kWaitC0C1, chunkParser = newRtmpChunkParser\<rparr>"

definition ctx_streamKey :: "RtmpConnectionContext \<Rightarrow> string" where
  "ctx_streamKey ctx =
     (if ctx_app ctx = [] \<or> streamName ctx = [] then [] else MakeStreamKey (ctx_app ctx) (streamName ctx))"

definition allocateNextStreamId :: "RtmpConnectionContext \<Rightarrow> u32 \<times> RtmpConnectionContext" where
  "allocateNextStreamId ctx = (nextStreamId ctx, ctx\<lparr>nextStreamId := nextStreamId ctx + 1\<rparr>)"

record RtmpServer =
  sessions :: "string \<rightharpoonup> nat"
  sessionHeap :: "nat \<rightharpoonup> RtmpSession"
  nextSession :: nat
  connState :: "string \<Rightarrow> StateE"
  contexts :: "string \<rightharpoonup> RtmpConnectionContext"
  inputs :: "string \<Rightarrow> Buffer"
  sent :: "string \<Rightarrow> string list"

type_synonym auth_callback = "(string \<Rightarrow> string \<Rightarrow> bool \<Rightarrow> bool) option"

definition newRtmpServer :: RtmpServer where
  "newRtmpServer =
     \<lparr>sessions = Map.empty, sessionHeap = Map.empty, nextSession = 0, connState = (\<lambda>_. kConnecting),
      contexts = Map.empty, inputs = (\<lambda>_. newBuffer kInitialSize), sent = (\<lambda>_. [])\<rparr>"


section \<open>Connections and sessions as the handlers use them\<close>

definition conn_send :: "string \<Rightarrow> string \<Rightarrow> RtmpServer \<Rightarrow> RtmpServer" where
  "conn_send c data srv =
     (if connState srv c = kConnected then srv\<lparr>sent := (sent srv)(c := sent srv c @ [data])\<rparr> else srv)"

definition conn_sends :: "sends \<Rightarrow> RtmpServer \<Rightarrow> RtmpServer" where
  "conn_sends out srv = fold (\<lambda>(c, data). conn_send c data) out srv"

definition conn_shutdown :: "string \<Rightarrow> RtmpServer \<Rightarrow> RtmpServer" where
  "conn_shutdown c srv =
     (if connState srv c = kConnected then srv\<lparr>connState := (connState srv)(c := kDisconnecting)\<rparr> else srv)"

definition is_connected :: "RtmpServer \<Rightarrow> string \<Rightarrow> bool" where
  "is_connected srv c \<longleftrightarrow> connState srv c = kConnected"

definition getOrCreateSession :: "string \<Rightarrow> RtmpServer \<Rightarrow> nat \<times> RtmpServer" where
  "getOrCreateSession stream_key srv =
     (case sessions srv stream_key of
        Some i \<Rightarrow> (i, srv)
      | None \<Rightarrow>
          (nextSession srv,
           srv\<lparr>sessions := (sessions srv)(stream_key \<mapsto> nextSession srv),
               sessionHeap := (sessionHeap srv)(nextSession srv \<mapsto> newRtmpSession stream_key),
               nextSession := nextSession srv + 1\<rparr>))"

definition put_session :: "nat \<Rightarrow> RtmpSession \<Rightarrow> RtmpServer \<Rightarrow> RtmpServer" where
  "put_session i s srv = srv\<lparr>sessionHeap := (sessionHeap srv)(i \<mapsto> s)\<rparr>"

definition removeIfEmpty :: "string \<Rightarrow> RtmpServer \<Rightarrow> RtmpServer" where
  "removeIfEmpty stream_key srv =
     (case sessions srv stream_key of
        None \<Rightarrow> srv
      | Some i \<Rightarrow>
          (case sessionHeap srv i of
             None \<Rightarrow> srv
           | Some s \<Rightarrow>
               (if session_empty s
                then srv\<lparr>sessions := (sessions srv)(stream_key := None),
                         sessionHeap := (sessionHeap srv)(i := None)\<rparr>
                else srv)))"

definition authorizePublish :: "auth_callback \<Rightarrow> string \<Rightarrow> string \<Rightarrow> bool" where
  "authorizePublish auth stream_key ticket =
     (case auth of None \<Rightarrow> True | Some cb \<Rightarrow> cb stream_key ticket True)"

definition authorizePlay :: "auth_callback \<Rightarrow> string \<Rightarrow> string \<Rightarrow> bool" where
  "authorizePlay auth stream_key ticket =
     (case auth of None \<Rightarrow> True | Some cb \<Rightarrow> cb stream_key ticket False)"

definition cleanupConnection :: "string \<Rightarrow> RtmpConnectionContext \<Rightarrow> RtmpServer \<Rightarrow> RtmpServer" where
  "cleanupConnection c ctx srv =
     (let stream_key = ctx_streamKey ctx in
      if stream_key = [] then srv
      else case sessions srv stream_key of
        None \<Rightarrow> srv
      | Some i \<Rightarrow>
          (case sessionHeap srv i of
             None \<Rightarrow> srv
           | Some s \<Rightarrow>
               (let s = (case ctx_role ctx of
                           kPublisher \<Rightarrow> clearPublisher c s
                         | kPlayer \<Rightarrow> removePlayer c s
                         | kUnknown \<Rightarrow> s)
                in removeIfEmpty stream_key (put_session i s srv))))"

definition detachConnectionFromSession ::
  "string \<Rightarrow> RtmpConnectionContext \<Rightarrow> RtmpServer \<Rightarrow> RtmpConnectionContext \<times> RtmpServer" where
  "detachConnectionFromSession c ctx srv =
     (ctx\<lparr>ctx_session := None, ctx_role := kUnknown, streamId := 0, streamName := [], publishType := []\<rparr>,
      cleanupConnection c ctx srv)"


section \<open>The connection's protocol handler\<close>

type_synonym handled = "(bool \<times> RtmpConnectionContext \<times> RtmpServer) option"

definition sendMessage :: "string \<Rightarrow> RtmpMessage \<Rightarrow> RtmpServer \<Rightarrow> RtmpServer option" where
  "sendMessage c message srv = do {
     encoded \<leftarrow> EncodeMessage message kDefaultChunkSize;
     Some (conn_send c encoded srv)
   }"

definition handleConnect ::
  "string \<Rightarrow> RtmpCommandMessage \<Rightarrow> RtmpConnectionContext \<Rightarrow> RtmpServer \<Rightarrow> handled" where
  "handleConnect c command ctx srv =
     (if \<not> isObjectLike (commandObject command) then Some (False, ctx, srv)
      else
        let object = map_of (objectValue (commandObject command)) in
        case object ''app'' of
          None \<Rightarrow> Some (False, ctx, srv)
        | Some app \<Rightarrow>
            (if \<not> isString app then Some (False, ctx, srv)
             else do {
               let ctx = ctx\<lparr>ctx_app := stringValue app\<rparr>;
               let ctx = (case object ''tcUrl'' of
                            Some url \<Rightarrow> if isString url then ctx\<lparr>tcUrl := stringValue url\<rparr> else ctx
                          | None \<Rightarrow> ctx);
               let ctx = (case object ''objectEncoding'' of
                            Some enc \<Rightarrow> if isNumber enc then ctx\<lparr>objectEncoding := numberValue enc\<rparr> else ctx
                          | None \<Rightarrow> ctx);
               srv \<leftarrow> sendMessage c (windowAcknowledgementSizeMessage (acknowledgementWindow ctx)) srv;
               srv \<leftarrow> sendMessage c (setPeerBandwidthMessage (peerBandwidth ctx)) srv;
               srv \<leftarrow> sendMessage c (setChunkSizeMessage (outChunkSize ctx)) srv;
               srv \<leftarrow> sendMessage c (connectSuccessMessage command) srv;
               Some (True, ctx, srv)
             }))"

definition handleCreateStream ::
  "string \<Rightarrow> RtmpCommandMessage \<Rightarrow> RtmpConnectionContext \<Rightarrow> RtmpServer \<Rightarrow> handled" where
  "handleCreateStream c command ctx srv = do {
     let (stream_id, ctx) = allocateNextStreamId ctx;
     let ctx = ctx\<lparr>streamId := stream_id\<rparr>;
     srv \<leftarrow> sendMessage c (createStreamResultMessage command stream_id) srv;
     Some (True, ctx, srv)
   }"

text \<open>The checks and the stream name shared by \<open>publish\<close> and \<open>play\<close>: \<open>None\<close> is return false.\<close>

definition streamRequest :: "RtmpCommandMessage \<Rightarrow> RtmpConnectionContext \<Rightarrow> StreamTarget option" where
  "streamRequest command ctx =
     (if streamId ctx = 0 then None
      else if cmd_messageStreamId command \<noteq> streamId ctx then None
      else case arguments command of
        [] \<Rightarrow> None
      | arg # _ \<Rightarrow> if \<not> isString arg then None else ParseStreamTarget (stringValue arg))"

definition handlePublish ::
  "auth_callback \<Rightarrow> string \<Rightarrow> RtmpCommandMessage \<Rightarrow> RtmpConnectionContext \<Rightarrow> RtmpServer \<Rightarrow> handled" where
  "handlePublish auth c command ctx srv =
     (case streamRequest command ctx of
        None \<Rightarrow> Some (False, ctx, srv)
      | Some target \<Rightarrow>
          (let ctx = ctx\<lparr>streamName := target_streamName target\<rparr>;
               ctx = (if length (arguments command) \<ge> 2 \<and> isString (arguments command ! 1)
                      then ctx\<lparr>publishType := stringValue (arguments command ! 1)\<rparr> else ctx);
               stream_key = ctx_streamKey ctx
           in
           if stream_key = [] then Some (False, ctx, srv)
           else if \<not> authorizePublish auth stream_key (target_ticket target) then do {
             srv \<leftarrow> sendMessage c (onStatusMessage (streamId ctx) ''NetStream.Publish.BadName''
                      ''Invalid RTMP ticket.'' True) srv;
             Some (False, ctx, srv)
           }
           else
             let (i, srv) = getOrCreateSession stream_key srv in
             case sessionHeap srv i of
               None \<Rightarrow> Some (False, ctx, srv)
             | Some session \<Rightarrow>
                 (let (accepted, session) = setPublisher c session;
                      srv = put_session i session srv
                  in
                  if \<not> accepted then do {
                    srv \<leftarrow> sendMessage c (onStatusMessage (streamId ctx) ''NetStream.Publish.BadName''
                             ''Stream already publishing.'' True) srv;
                    Some (True, ctx, srv)
                  }
                  else do {
                    let ctx = ctx\<lparr>ctx_role := kPublisher, ctx_session := Some i\<rparr>;
                    srv \<leftarrow> sendMessage c (onStatusMessage (streamId ctx) ''NetStream.Publish.Start''
                             ''Start publishing.'' False) srv;
                    Some (True, ctx, srv)
                  })))"

definition handlePlay ::
  "auth_callback \<Rightarrow> string \<Rightarrow> RtmpCommandMessage \<Rightarrow> RtmpConnectionContext \<Rightarrow> RtmpServer \<Rightarrow> handled" where
  "handlePlay auth c command ctx srv =
     (case streamRequest command ctx of
        None \<Rightarrow> Some (False, ctx, srv)
      | Some target \<Rightarrow>
          (let ctx = ctx\<lparr>streamName := target_streamName target\<rparr>;
               stream_key = ctx_streamKey ctx
           in
           if stream_key = [] then Some (False, ctx, srv)
           else if \<not> authorizePlay auth stream_key (target_ticket target) then do {
             srv \<leftarrow> sendMessage c (onStatusMessage (streamId ctx) ''NetStream.Play.Failed''
                      ''Invalid RTMP ticket.'' True) srv;
             Some (False, ctx, srv)
           }
           else
             let (i, srv) = getOrCreateSession stream_key srv in
             case sessionHeap srv i of
               None \<Rightarrow> Some (False, ctx, srv)
             | Some session \<Rightarrow> do {
                 let session = snd (addPlayer c session);
                 let srv = put_session i session srv;
                 let ctx = ctx\<lparr>ctx_role := kPlayer, ctx_session := Some i\<rparr>;
                 srv \<leftarrow> sendMessage c (onStatusMessage (streamId ctx) ''NetStream.Play.Start''
                          ''Start playing.'' False) srv;
                 out \<leftarrow> replayCachedMessagesToPlayer (is_connected srv) c (outChunkSize ctx) session;
                 Some (True, ctx, conn_sends out srv)
               }))"

definition handleMediaMessage ::
  "string \<Rightarrow> RtmpMessage \<Rightarrow> RtmpConnectionContext \<Rightarrow> RtmpServer \<Rightarrow> handled" where
  "handleMediaMessage c message ctx srv =
     (if ctx_role ctx \<noteq> kPublisher then Some (True, ctx, srv)
      else case ctx_session ctx of
        None \<Rightarrow> Some (False, ctx, srv)
      | Some i \<Rightarrow>
          (case sessionHeap srv i of
             None \<Rightarrow> Some (False, ctx, srv)
           | Some session \<Rightarrow> do {
               (session, out) \<leftarrow> onMediaMessage (is_connected srv) message (outChunkSize ctx) session;
               Some (True, ctx, conn_sends out (put_session i session srv))
             }))"

definition handleDeleteStream ::
  "string \<Rightarrow> RtmpCommandMessage \<Rightarrow> RtmpConnectionContext \<Rightarrow> RtmpServer \<Rightarrow> handled" where
  "handleDeleteStream c command ctx srv =
     (if ctx_role ctx = kUnknown \<or>
         (case ctx_session ctx of None \<Rightarrow> True | Some i \<Rightarrow> sessionHeap srv i = None)
      then Some (True, ctx, srv)
      else if cmd_messageStreamId command \<noteq> 0 \<and> streamId ctx \<noteq> 0 \<and>
              cmd_messageStreamId command \<noteq> streamId ctx
      then Some (False, ctx, srv)
      else let (ctx, srv) = detachConnectionFromSession c ctx srv in Some (True, ctx, srv))"

definition handleCommandMessage ::
  "auth_callback \<Rightarrow> string \<Rightarrow> RtmpCommandMessage \<Rightarrow> RtmpConnectionContext \<Rightarrow> RtmpServer \<Rightarrow> handled" where
  "handleCommandMessage auth c command ctx srv =
     (if cmd_name command = ''connect'' then handleConnect c command ctx srv
      else if cmd_name command = ''createStream'' then handleCreateStream c command ctx srv
      else if cmd_name command = ''publish'' then handlePublish auth c command ctx srv
      else if cmd_name command = ''play'' then handlePlay auth c command ctx srv
      else if cmd_name command = ''deleteStream'' \<or> cmd_name command = ''closeStream''
      then handleDeleteStream c command ctx srv
      else Some (True, ctx, srv))"

definition handleMessage ::
  "auth_callback \<Rightarrow> string \<Rightarrow> RtmpMessage \<Rightarrow> RtmpConnectionContext \<Rightarrow> RtmpServer \<Rightarrow> handled" where
  "handleMessage auth c message ctx srv =
     (if typeId message = kMessageTypeSetChunkSize \<and> length (payload message) \<ge> 4 then
        (let chunk_size = ReadUint32BE (payload message) in
         Some (True, ctx\<lparr>ctx_inChunkSize := chunk_size,
                         chunkParser := setInChunkSize chunk_size (chunkParser ctx)\<rparr>, srv))
      else if typeId message = kMessageTypeCommandAmf0 then
        (case DecodeCommandMessageAmf0 message of
           Inl command_error \<Rightarrow> Some (False, ctx, srv)
         | Inr command \<Rightarrow> handleCommandMessage auth c command ctx srv)
      else if typeId message = kMessageTypeDataAmf0 \<or> typeId message = kMessageTypeAudio \<or>
              typeId message = kMessageTypeVideo
      then handleMediaMessage c message ctx srv
      else Some (True, ctx, srv))"

fun handleMessages ::
  "auth_callback \<Rightarrow> string \<Rightarrow> RtmpMessage list \<Rightarrow> RtmpConnectionContext \<Rightarrow> RtmpServer \<Rightarrow> handled" where
  "handleMessages auth c [] ctx srv = Some (True, ctx, srv)"
| "handleMessages auth c (message # messages) ctx srv = do {
     (ok, ctx, srv) \<leftarrow> handleMessage auth c message ctx srv;
     if \<not> ok then Some (False, ctx, srv) else handleMessages auth c messages ctx srv
   }"

definition parseAndHandle ::
  "auth_callback \<Rightarrow> string \<Rightarrow> Buffer \<Rightarrow> RtmpConnectionContext \<Rightarrow> RtmpServer
     \<Rightarrow> (bool \<times> Buffer \<times> RtmpConnectionContext \<times> RtmpServer) option" where
  "parseAndHandle auth c buf ctx srv =
     (if readableBytes buf = 0 then Some (True, buf, ctx, srv)
      else case parse buf [] (chunkParser ctx) of
        (Some error, buf, messages, p) \<Rightarrow> Some (False, buf, ctx\<lparr>chunkParser := p\<rparr>, srv)
      | (None, buf, messages, p) \<Rightarrow> do {
          (ok, ctx, srv) \<leftarrow> handleMessages auth c messages (ctx\<lparr>chunkParser := p\<rparr>) srv;
          Some (ok, buf, ctx, srv)
        })"

definition connection_onMessage ::
  "(nat \<Rightarrow> u32) \<Rightarrow> auth_callback \<Rightarrow> string \<Rightarrow> Buffer \<Rightarrow> RtmpConnectionContext \<Rightarrow> RtmpServer
     \<Rightarrow> (bool \<times> Buffer \<times> RtmpConnectionContext \<times> RtmpServer) option" where
  "connection_onMessage rd auth c buf ctx srv =
     (let ctx = ctx\<lparr>receivedBytes := receivedBytes ctx + readableBytes buf\<rparr> in
      if \<not> isDone (ctx_handshake ctx) then
        (case process rd buf [] (ctx_handshake ctx) of
           (Some error, buf, response, hs) \<Rightarrow> Some (False, buf, ctx\<lparr>ctx_handshake := hs\<rparr>, srv)
         | (None, buf, response, hs) \<Rightarrow>
             (let ctx = ctx\<lparr>ctx_handshake := hs\<rparr>;
                  srv = (if response \<noteq> [] then conn_send c response srv else srv)
              in if \<not> isDone hs then Some (True, buf, ctx, srv)
                 else parseAndHandle auth c buf ctx srv))
      else parseAndHandle auth c buf ctx srv)"


section \<open>The server's callbacks\<close>

definition server_onMessage ::
  "(nat \<Rightarrow> u32) \<Rightarrow> auth_callback \<Rightarrow> string \<Rightarrow> RtmpServer \<Rightarrow> RtmpServer option" where
  "server_onMessage rd auth c srv =
     (case contexts srv c of
        None \<Rightarrow> Some (conn_shutdown c srv)
      | Some ctx \<Rightarrow> do {
          (ok, buf, ctx, srv) \<leftarrow> connection_onMessage rd auth c (inputs srv c) ctx srv;
          let srv = srv\<lparr>inputs := (inputs srv)(c := buf), contexts := (contexts srv)(c \<mapsto> ctx)\<rparr>;
          Some (if ok then srv else conn_shutdown c srv)
        })"

definition server_onConnection :: "string \<Rightarrow> RtmpServer \<Rightarrow> RtmpServer" where
  "server_onConnection c srv =
     (if connState srv c = kConnected
      then srv\<lparr>contexts := (contexts srv)(c \<mapsto> newRtmpConnectionContext)\<rparr>
      else case contexts srv c of None \<Rightarrow> srv | Some ctx \<Rightarrow> cleanupConnection c ctx srv)"

text \<open>The events of a connection: established, bytes received, closed.\<close>

datatype ServerEvent = Connect string | Receive string string | Close string

fun server_step ::
  "(nat \<Rightarrow> u32) \<Rightarrow> auth_callback \<Rightarrow> ServerEvent \<Rightarrow> RtmpServer \<Rightarrow> RtmpServer option" where
  "server_step rd auth (Connect c) srv =
     Some (server_onConnection c (srv\<lparr>connState := (connState srv)(c := kConnected)\<rparr>))"
| "server_step rd auth (Receive c data) srv =
     server_onMessage rd auth c (srv\<lparr>inputs := (inputs srv)(c := buf_append data (inputs srv c))\<rparr>)"
| "server_step rd auth (Close c) srv =
     Some (server_onConnection c (srv\<lparr>connState := (connState srv)(c := kDisconnected)\<rparr>))"

section \<open>What a connection can do to the sessions\<close>

definition session_of :: "RtmpServer \<Rightarrow> string \<Rightarrow> RtmpSession option" where
  "session_of srv key = Option.bind (sessions srv key) (sessionHeap srv)"

definition publisher_of :: "RtmpServer \<Rightarrow> string \<Rightarrow> string option" where
  "publisher_of srv key = Option.bind (session_of srv key) publisher"

definition players_of :: "RtmpServer \<Rightarrow> string \<Rightarrow> string set" where
  "players_of srv key = (case session_of srv key of None \<Rightarrow> {} | Some s \<Rightarrow> set (players s))"

text \<open>The table and the heap agree, and no connection plays a session twice.\<close>

definition srv_ok :: "RtmpServer \<Rightarrow> bool" where
  "srv_ok srv \<longleftrightarrow>
     (\<forall>key i. sessions srv key = Some i \<longrightarrow> (\<exists>s. sessionHeap srv i = Some s \<and> streamKey s = key)) \<and>
     (\<forall>i s. sessionHeap srv i = Some s \<longrightarrow>
        sessions srv (streamKey s) = Some i \<and> i < nextSession srv \<and> distinct (players s))"

text \<open>
  The change from \<open>srv\<close> to \<open>srv'\<close> is one that connection \<open>c\<close> may cause under the authorisation
  callback: only \<open>c\<close> can become publisher or player, and only of streams the callback allows;
  a publisher other than \<open>c\<close> stays.
\<close>

definition evolves :: "auth_callback \<Rightarrow> string \<Rightarrow> RtmpServer \<Rightarrow> RtmpServer \<Rightarrow> bool" where
  "evolves auth c srv srv' \<longleftrightarrow>
     (srv_ok srv \<longrightarrow> srv_ok srv' \<and>
       (\<forall>key d. publisher_of srv' key = Some d \<longrightarrow> publisher_of srv key = Some d \<or>
          d = c \<and> (\<exists>ticket. authorizePublish auth key ticket)) \<and>
       (\<forall>key d. publisher_of srv key = Some d \<longrightarrow> d \<noteq> c \<longrightarrow> publisher_of srv' key = Some d) \<and>
       (\<forall>key d. d \<in> players_of srv' key \<longrightarrow> d \<in> players_of srv key \<or>
          d = c \<and> (\<exists>ticket. authorizePlay auth key ticket)))"

definition tables :: "RtmpServer \<Rightarrow> (string \<rightharpoonup> nat) \<times> (nat \<rightharpoonup> RtmpSession) \<times> nat" where
  "tables srv = (sessions srv, sessionHeap srv, nextSession srv)"

lemma evolves_tables:
  "tables srv = tables srv1 \<Longrightarrow> tables srv' = tables srv1' \<Longrightarrow>
     evolves auth c srv srv' = evolves auth c srv1 srv1'"
  by (simp add: evolves_def srv_ok_def publisher_of_def players_of_def session_of_def tables_def)

lemma evolves_refl: "evolves auth c srv srv"
  by (auto simp: evolves_def)

lemma evolves_same: "tables srv' = tables srv \<Longrightarrow> evolves auth c srv srv'"
  using evolves_tables [of srv srv srv' srv] evolves_refl by simp

lemma evolves_trans: "evolves auth c a b \<Longrightarrow> evolves auth c b d \<Longrightarrow> evolves auth c a d"
  unfolding evolves_def by (intro impI conjI; blast)

lemma tables_conn [simp]:
  "tables (conn_send c data srv) = tables srv"
  "tables (conn_shutdown c srv) = tables srv"
  "tables (srv\<lparr>connState := s\<rparr>) = tables srv"
  "tables (srv\<lparr>inputs := i\<rparr>) = tables srv"
  "tables (srv\<lparr>contexts := x\<rparr>) = tables srv"
  by (simp_all add: tables_def conn_send_def conn_shutdown_def)

lemma tables_conn_sends [simp]: "tables (conn_sends out srv) = tables srv"
proof -
  have "tables (fold (\<lambda>(c, data). conn_send c data) out srv) = tables srv"
    by (induction out arbitrary: srv) (auto split: prod.splits)
  then show ?thesis by (simp add: conn_sends_def)
qed

lemma tables_sendMessage: "sendMessage c m srv = Some srv' \<Longrightarrow> tables srv' = tables srv"
  by (auto simp: sendMessage_def bind_eq_Some_conv)

lemma srv_okD:
  "srv_ok srv \<Longrightarrow> sessions srv key = Some i \<Longrightarrow> \<exists>s. sessionHeap srv i = Some s \<and> streamKey s = key"
  "srv_ok srv \<Longrightarrow> sessionHeap srv i = Some s \<Longrightarrow> sessions srv (streamKey s) = Some i"
  "srv_ok srv \<Longrightarrow> sessionHeap srv i = Some s \<Longrightarrow> i < nextSession srv"
  "srv_ok srv \<Longrightarrow> sessionHeap srv i = Some s \<Longrightarrow> distinct (players s)"
  by (auto simp: srv_ok_def)

lemma session_of_Some:
  "srv_ok srv \<Longrightarrow> session_of srv key = Some s \<longleftrightarrow>
     (\<exists>i. sessions srv key = Some i \<and> sessionHeap srv i = Some s)"
  by (auto simp: session_of_def bind_eq_Some_conv)

text \<open>Looking a session up, creating it when it is missing.\<close>

lemma getOrCreateSession_evolves:
  assumes "getOrCreateSession key srv = (i, srv')"
  shows "evolves auth c srv srv'"
proof (cases "sessions srv key")
  case (Some j)
  with assms show ?thesis by (simp add: getOrCreateSession_def evolves_refl)
next
  case None
  let ?n = "nextSession srv"
  have srv': "srv' = srv\<lparr>sessions := (sessions srv)(key \<mapsto> ?n),
      sessionHeap := (sessionHeap srv)(?n \<mapsto> newRtmpSession key), nextSession := ?n + 1\<rparr>"
    using assms None by (auto simp: getOrCreateSession_def)
  show ?thesis
    unfolding evolves_def
  proof (intro impI conjI)
    assume ok: "srv_ok srv"
    have fresh: "sessionHeap srv ?n = None" using srv_okD(3) [OF ok] by fastforce
    have unused: "sessions srv k \<noteq> Some ?n" for k using srv_okD(1) [OF ok, of k] fresh by auto
    show "srv_ok srv'"
      using ok fresh unused None unfolding srv_ok_def srv'
      by (auto simp: newRtmpSession_def less_Suc_eq)
    have "session_of srv' k = (if k = key then Some (newRtmpSession key) else session_of srv k)" for k
      using unused [of k] None by (cases "sessions srv k") (auto simp: session_of_def srv')
    moreover have "session_of srv key = None" using None by (simp add: session_of_def)
    ultimately show "\<forall>key d. publisher_of srv' key = Some d \<longrightarrow> publisher_of srv key = Some d \<or>
          d = c \<and> (\<exists>ticket. authorizePublish auth key ticket)"
      "\<forall>key d. publisher_of srv key = Some d \<longrightarrow> d \<noteq> c \<longrightarrow> publisher_of srv' key = Some d"
      "\<forall>key d. d \<in> players_of srv' key \<longrightarrow> d \<in> players_of srv key \<or>
          d = c \<and> (\<exists>ticket. authorizePlay auth key ticket)"
      by (auto simp: publisher_of_def players_of_def newRtmpSession_def)
  qed
qed

lemma getOrCreateSession_lookup:
  "getOrCreateSession key srv = (i, srv') \<Longrightarrow> sessions srv' key = Some i"
  by (auto simp: getOrCreateSession_def split: option.splits)

text \<open>Replacing a session by one that differs as \<open>c\<close> may make it differ.\<close>

definition session_evolves :: "auth_callback \<Rightarrow> string \<Rightarrow> RtmpSession \<Rightarrow> RtmpSession \<Rightarrow> bool" where
  "session_evolves auth c s s' \<longleftrightarrow> streamKey s' = streamKey s \<and>
     (distinct (players s) \<longrightarrow> distinct (players s')) \<and>
     (publisher s' = publisher s \<or> publisher s \<in> {None, Some c} \<and>
        (publisher s' = None \<or>
         publisher s' = Some c \<and> (\<exists>ticket. authorizePublish auth (streamKey s) ticket))) \<and>
     (set (players s') \<subseteq> set (players s) \<or>
      set (players s') \<subseteq> insert c (set (players s)) \<and> (\<exists>ticket. authorizePlay auth (streamKey s) ticket))"

lemma session_of_put:
  assumes "srv_ok srv" "sessionHeap srv i = Some s"
  shows "session_of (put_session i s' srv) k = (if k = streamKey s then Some s' else session_of srv k)"
proof (cases "k = streamKey s")
  case True
  with srv_okD(2) [OF assms] show ?thesis by (simp add: session_of_def put_session_def)
next
  case False
  with srv_okD(1) [OF assms(1), of k i] assms(2) have "sessions srv k \<noteq> Some i" by auto
  with False show ?thesis
    by (cases "sessions srv k") (auto simp: session_of_def put_session_def)
qed

lemma put_session_evolves:
  assumes "sessionHeap srv i = Some s" "srv_ok srv \<Longrightarrow> session_evolves auth c s s'"
  shows "evolves auth c srv (put_session i s' srv)"
  unfolding evolves_def
proof (intro impI conjI)
  assume ok: "srv_ok srv"
  note ev = assms(2) [OF ok]
  note at = session_of_put [OF ok assms(1), of s']
  have here: "session_of srv (streamKey s) = Some s"
    using srv_okD(2) [OF ok assms(1)] assms(1) by (simp add: session_of_def)
  have "streamKey s' = streamKey s" "distinct (players s')"
    using ev srv_okD(4) [OF ok assms(1)] by (auto simp: session_evolves_def)
  moreover have "sessions srv key = Some i \<Longrightarrow> streamKey s = key" for key
    using srv_okD(1) [OF ok, of key i] assms(1) by auto
  ultimately show "srv_ok (put_session i s' srv)"
    using srv_okD [OF ok] assms(1) unfolding srv_ok_def put_session_def by simp
  show "\<forall>key d. publisher_of (put_session i s' srv) key = Some d \<longrightarrow> publisher_of srv key = Some d \<or>
        d = c \<and> (\<exists>ticket. authorizePublish auth key ticket)"
    "\<forall>key d. publisher_of srv key = Some d \<longrightarrow> d \<noteq> c \<longrightarrow> publisher_of (put_session i s' srv) key = Some d"
    using here ev by (auto simp: publisher_of_def at session_evolves_def)
  show "\<forall>key d. d \<in> players_of (put_session i s' srv) key \<longrightarrow> d \<in> players_of srv key \<or>
        d = c \<and> (\<exists>ticket. authorizePlay auth key ticket)"
    using here ev by (auto simp: players_of_def at session_evolves_def split: if_splits)
qed

lemma removeIfEmpty_evolves: "evolves auth c srv (removeIfEmpty key srv)"
proof (cases "\<exists>i s. sessions srv key = Some i \<and> sessionHeap srv i = Some s \<and> session_empty s")
  case False
  then have "removeIfEmpty key srv = srv" by (auto simp: removeIfEmpty_def split: option.splits)
  then show ?thesis by (simp add: evolves_refl)
next
  case True
  then obtain i s where i: "sessions srv key = Some i" and s: "sessionHeap srv i = Some s"
    and e: "session_empty s" by blast
  let ?srv = "srv\<lparr>sessions := (sessions srv)(key := None), sessionHeap := (sessionHeap srv)(i := None)\<rparr>"
  have rm: "removeIfEmpty key srv = ?srv" using i s e by (simp add: removeIfEmpty_def)
  show ?thesis
    unfolding evolves_def rm
  proof (intro impI conjI)
    assume ok: "srv_ok srv"
    have key: "streamKey s = key" using srv_okD(1) [OF ok i] s by simp
    have only: "sessions srv k = Some i \<Longrightarrow> k = key" for k using srv_okD(1) [OF ok] s key by force
    have "sessionHeap srv j = Some t \<Longrightarrow> j \<noteq> i \<Longrightarrow> streamKey t \<noteq> key" for j t
      using srv_okD(2) [OF ok, of j t] i by auto
    with ok only show "srv_ok ?srv"
      by (fastforce simp: srv_ok_def)
    have so: "session_of ?srv k = (if k = key then None else session_of srv k)" for k
      using only [of k] by (cases "sessions srv k") (auto simp: session_of_def)
    have "session_of srv key = Some s" using i s by (simp add: session_of_def)
    then show "\<forall>key d. publisher_of ?srv key = Some d \<longrightarrow> publisher_of srv key = Some d \<or>
          d = c \<and> (\<exists>ticket. authorizePublish auth key ticket)"
      "\<forall>key d. publisher_of srv key = Some d \<longrightarrow> d \<noteq> c \<longrightarrow> publisher_of ?srv key = Some d"
      "\<forall>key d. d \<in> players_of ?srv key \<longrightarrow> d \<in> players_of srv key \<or>
          d = c \<and> (\<exists>ticket. authorizePlay auth key ticket)"
      using e by (auto simp: publisher_of_def players_of_def so session_empty_def)
  qed
qed

section \<open>Every handler respects authorisation\<close>

lemma session_evolves_ops:
  "authorizePublish auth (streamKey s) t \<Longrightarrow> session_evolves auth c s (snd (setPublisher c s))"
  "authorizePlay auth (streamKey s) t \<Longrightarrow> session_evolves auth c s (snd (addPlayer c s))"
  "session_evolves auth c s (clearPublisher c s)"
  "session_evolves auth c s (removePlayer c s)"
  "session_evolves auth c s s"
  by (auto simp: session_evolves_def session_ops Let_def distinct_removeAll)

lemma onMediaMessage_evolves:
  "onMediaMessage con m sz s = Some (s', out) \<Longrightarrow> session_evolves auth c s s'"
  by (auto simp: onMediaMessage_def broadcastMessage_def bind_eq_Some_conv broadcastTo_spec
      session_evolves_def Let_def split: if_splits)

lemma attach_evolves:
  assumes "getOrCreateSession key srv = (i, srv1)" "sessionHeap srv1 i = Some s"
    and "streamKey s = key \<Longrightarrow> session_evolves auth c s s'"
  shows "evolves auth c srv (put_session i s' srv1)"
proof (rule evolves_trans [OF getOrCreateSession_evolves [OF assms(1)]])
  show "evolves auth c srv1 (put_session i s' srv1)"
    using srv_okD(1) [OF _ getOrCreateSession_lookup [OF assms(1)]] assms(2,3)
    by (intro put_session_evolves [OF assms(2)]) auto
qed

lemma evolves_send:
  "evolves auth c srv srv1 \<Longrightarrow> sendMessage d m srv1 = Some srv2 \<Longrightarrow> evolves auth c srv srv2"
  using evolves_tables [of srv srv srv2 srv1 auth c] tables_sendMessage by blast

lemma cleanupConnection_evolves: "evolves auth c srv (cleanupConnection c ctx srv)"
proof -
  have "evolves auth c srv (removeIfEmpty key (put_session i s' srv))"
    if "sessionHeap srv i = Some s" "session_evolves auth c s s'" for key i s s'
    using evolves_trans [OF put_session_evolves [OF that] removeIfEmpty_evolves] .
  then show ?thesis
    by (auto simp: cleanupConnection_def Let_def evolves_refl session_evolves_ops
        split: option.splits ConnectionRole.splits)
qed

lemma handleConnect_evolves:
  "handleConnect c cmd ctx srv = Some (r, ctx', srv') \<Longrightarrow> evolves auth c srv srv'"
  by (rule evolves_same)
    (auto simp: handleConnect_def Let_def bind_eq_Some_conv dest!: tables_sendMessage
      split: if_splits option.splits)

lemma handleCreateStream_evolves:
  "handleCreateStream c cmd ctx srv = Some (r, ctx', srv') \<Longrightarrow> evolves auth c srv srv'"
  by (rule evolves_same)
    (auto simp: handleCreateStream_def Let_def bind_eq_Some_conv dest!: tables_sendMessage
      split: prod.splits)

lemma handlePublish_evolves:
  assumes "handlePublish auth c cmd ctx srv = Some (r, ctx', srv')"
  shows "evolves auth c srv srv'"
proof -
  have attach: "evolves auth c srv (put_session i s' srv1)"
    if "getOrCreateSession key srv = (i, srv1)" "sessionHeap srv1 i = Some s"
      "authorizePublish auth key t" "setPublisher c s = (acc, s')" for key i srv1 s t acc s'
    using that session_evolves_ops(1) [of auth s t c]
    by (intro attach_evolves [OF that(1,2)]) auto
  show ?thesis
    using assms
    by (auto simp: handlePublish_def Let_def bind_eq_Some_conv
        intro: evolves_refl evolves_send attach getOrCreateSession_evolves
        split: if_splits option.splits prod.splits)
qed

lemma handlePlay_evolves:
  assumes "handlePlay auth c cmd ctx srv = Some (r, ctx', srv')"
  shows "evolves auth c srv srv'"
proof -
  have attach: "evolves auth c srv (put_session i (snd (addPlayer c s)) srv1)"
    if "getOrCreateSession key srv = (i, srv1)" "sessionHeap srv1 i = Some s"
      "authorizePlay auth key t" for key i srv1 s t
    using that session_evolves_ops(2) [of auth s t c]
    by (intro attach_evolves [OF that(1,2)]) auto
  have sends: "evolves auth c srv srv1 \<Longrightarrow> evolves auth c srv (conn_sends out srv1)" for srv1 out
    using evolves_tables [of srv srv "conn_sends out srv1" srv1] by simp
  show ?thesis
    using assms
    by (auto simp: handlePlay_def Let_def bind_eq_Some_conv
        intro: evolves_refl sends [OF evolves_send] evolves_send attach getOrCreateSession_evolves
        split: if_splits option.splits prod.splits)
qed

lemma handleMediaMessage_evolves:
  assumes "handleMediaMessage c m ctx srv = Some (r, ctx', srv')"
  shows "evolves auth c srv srv'"
proof -
  have "evolves auth c srv (conn_sends out (put_session i s' srv))"
    if "sessionHeap srv i = Some s" "onMediaMessage con m sz s = Some (s', out)" for i s s' out con sz
    using put_session_evolves [OF that(1) onMediaMessage_evolves [OF that(2)]]
      evolves_tables [of srv srv "conn_sends out (put_session i s' srv)" "put_session i s' srv"] by simp
  then show ?thesis
    using assms
    by (auto simp: handleMediaMessage_def bind_eq_Some_conv evolves_refl
        split: if_splits option.splits prod.splits)
qed

lemma handleDeleteStream_evolves:
  "handleDeleteStream c cmd ctx srv = Some (r, ctx', srv') \<Longrightarrow> evolves auth c srv srv'"
  by (auto simp: handleDeleteStream_def detachConnectionFromSession_def evolves_refl
      cleanupConnection_evolves split: if_splits option.splits)

lemma handleMessage_evolves:
  "handleMessage auth c m ctx srv = Some (r, ctx', srv') \<Longrightarrow> evolves auth c srv srv'"
  by (auto simp: handleMessage_def handleCommandMessage_def Let_def evolves_refl
      dest: handleConnect_evolves handleCreateStream_evolves handlePublish_evolves handlePlay_evolves
        handleDeleteStream_evolves handleMediaMessage_evolves
      split: if_splits sum.splits)

lemma handleMessages_evolves:
  "handleMessages auth c ms ctx srv = Some (r, ctx', srv') \<Longrightarrow> evolves auth c srv srv'"
proof (induction ms arbitrary: ctx srv)
  case Nil
  then show ?case by (simp add: evolves_refl)
next
  case (Cons m ms)
  then show ?case
    by (auto simp: bind_eq_Some_conv split: if_splits
        dest!: handleMessage_evolves intro: evolves_trans)
qed

lemma parseAndHandle_evolves:
  "parseAndHandle auth c buf ctx srv = Some (r, buf', ctx', srv') \<Longrightarrow> evolves auth c srv srv'"
  by (auto simp: parseAndHandle_def bind_eq_Some_conv evolves_refl
      dest: handleMessages_evolves split: if_splits option.splits prod.splits)

lemma connection_onMessage_evolves:
  assumes "connection_onMessage rd auth c buf ctx srv = Some (r, buf', ctx', srv')"
  shows "evolves auth c srv srv'"
proof -
  have "evolves auth c srv srv'"
    if "parseAndHandle auth c b x (if response \<noteq> [] then conn_send c response srv else srv) =
        Some (r, buf', ctx', srv')" for b x response
    using parseAndHandle_evolves [OF that] evolves_tables [of srv
        "if response \<noteq> [] then conn_send c response srv else srv" srv' srv'] by simp
  then show ?thesis
    using assms
    by (auto simp: connection_onMessage_def Let_def intro: evolves_same parseAndHandle_evolves
        split: if_splits option.splits prod.splits)
qed

fun event_conn :: "ServerEvent \<Rightarrow> string" where
  "event_conn (Connect c) = c"
| "event_conn (Receive c data) = c"
| "event_conn (Close c) = c"

lemma server_step_evolves:
  assumes "server_step rd auth ev srv = Some srv'"
  shows "evolves auth (event_conn ev) srv srv'"
proof (cases ev)
  case (Receive c data)
  let ?srv = "srv\<lparr>inputs := (inputs srv)(c := buf_append data (inputs srv c))\<rparr>"
  have "evolves auth c ?srv srv'"
  proof (cases "contexts srv c")
    case None
    with assms Receive show ?thesis by (auto simp: server_onMessage_def intro: evolves_same)
  next
    case (Some ctx)
    with assms Receive obtain ok buf ctx' srv1 where
      one: "connection_onMessage rd auth c (inputs ?srv c) ctx ?srv = Some (ok, buf, ctx', srv1)"
      and srv': "tables srv' = tables srv1"
      by (auto simp: server_onMessage_def bind_eq_Some_conv Let_def split: if_splits)
    from connection_onMessage_evolves [OF one] evolves_tables [of ?srv ?srv srv' srv1] srv'
    show ?thesis by simp
  qed
  then show ?thesis using evolves_tables [of srv ?srv srv' srv'] Receive by simp
next
  case (Connect c)
  with assms show ?thesis by (auto simp: server_onConnection_def intro: evolves_same)
next
  case (Close c)
  let ?srv = "srv\<lparr>connState := (connState srv)(c := kDisconnected)\<rparr>"
  have "evolves auth c ?srv srv'"
    using assms Close cleanupConnection_evolves
    by (auto simp: server_onConnection_def evolves_refl split: option.splits)
  then show ?thesis using evolves_tables [of srv ?srv srv' srv'] Close by simp
qed

section \<open>Handlers return\<close>

lemma sendMessage_returns: "\<exists>srv'. sendMessage c m srv = Some srv'"
  using EncodeMessage_frames [of kDefaultChunkSize m]
  by (simp add: sendMessage_def kDefaultChunkSize_def word_less_nat_alt)

lemma onMediaMessage_returns: "0 < sz \<Longrightarrow> \<exists>s' out. onMediaMessage con m sz s = Some (s', out)"
  using EncodeMessage_frames [of sz m] onMediaMessage_result [of sz m] by blast

text \<open>A handler that returns and leaves the outgoing chunk size alone.\<close>

definition answers :: "RtmpConnectionContext \<Rightarrow> RtmpServer \<Rightarrow> handled \<Rightarrow> bool" where
  "answers ctx srv h \<longleftrightarrow> (\<exists>r ctx' srv'. h = Some (r, ctx', srv') \<and>
     outChunkSize ctx' = outChunkSize ctx \<and> contexts srv' = contexts srv)"

lemma answers_Some:
  "outChunkSize ctx' = outChunkSize ctx \<Longrightarrow> contexts srv' = contexts srv \<Longrightarrow>
     answers ctx srv (Some (r, ctx', srv'))"
  by (simp add: answers_def)

lemma contexts_keep [simp]:
  "contexts (conn_send c d srv) = contexts srv" "contexts (put_session i s srv) = contexts srv"
  "contexts (removeIfEmpty key srv) = contexts srv" "contexts (cleanupConnection c ctx srv) = contexts srv"
  by (auto simp: conn_send_def put_session_def removeIfEmpty_def cleanupConnection_def Let_def
      split: option.splits)

lemma contexts_conn_sends [simp]: "contexts (conn_sends out srv) = contexts srv"
proof -
  have "contexts (fold (\<lambda>(c, data). conn_send c data) out srv) = contexts srv"
    by (induction out arbitrary: srv) (auto split: prod.splits)
  then show ?thesis by (simp add: conn_sends_def)
qed

lemma contexts_getOrCreate: "getOrCreateSession key srv = (i, srv') \<Longrightarrow> contexts srv' = contexts srv"
  by (auto simp: getOrCreateSession_def split: option.splits)

lemma answers_send:
  assumes "\<And>srv'. contexts srv' = contexts srv1 \<Longrightarrow> answers ctx srv (f srv')"
  shows "answers ctx srv (Option.bind (sendMessage c m srv1) f)"
proof -
  obtain srv' where "sendMessage c m srv1 = Some srv'" using sendMessage_returns by blast
  moreover from this have "contexts srv' = contexts srv1"
    by (auto simp: sendMessage_def bind_eq_Some_conv)
  ultimately show ?thesis using assms by simp
qed

lemma handleConnect_answers: "answers ctx srv (handleConnect c cmd ctx srv)"
  by (auto simp: handleConnect_def Let_def intro!: answers_Some answers_send split: option.splits)

lemma handleCreateStream_answers: "answers ctx srv (handleCreateStream c cmd ctx srv)"
  by (auto simp: handleCreateStream_def allocateNextStreamId_def Let_def intro!: answers_Some answers_send)

lemma handlePublish_answers: "answers ctx srv (handlePublish auth c cmd ctx srv)"
  by (auto simp: handlePublish_def Let_def intro!: answers_Some answers_send
      dest: contexts_getOrCreate split: option.splits prod.splits)

lemma handlePlay_answers: "0 < outChunkSize ctx \<Longrightarrow> answers ctx srv (handlePlay auth c cmd ctx srv)"
proof -
  assume pos: "0 < outChunkSize ctx"
  have "\<exists>out. replayCachedMessagesToPlayer con c (outChunkSize ctx) s = Some out" for con s
    using sendEncoded_messages [OF pos, of c "replayMessages s"]
    by (auto simp: replayCachedMessagesToPlayer_def)
  then have "answers ctx srv (Option.bind (replayCachedMessagesToPlayer con c (outChunkSize ctx) s)
      (\<lambda>out. Some (True, ctx', conn_sends out srv')))"
    if "outChunkSize ctx' = outChunkSize ctx" "contexts srv' = contexts srv"
    for con s ctx' srv'
    using that by (metis answers_Some bind.bind_lunit contexts_conn_sends)
  then show ?thesis
    by (auto simp: handlePlay_def Let_def intro!: answers_Some answers_send
        dest: contexts_getOrCreate split: option.splits prod.splits)
qed

lemma handleMediaMessage_answers:
  "0 < outChunkSize ctx \<Longrightarrow> answers ctx srv (handleMediaMessage c m ctx srv)"
proof -
  assume pos: "0 < outChunkSize ctx"
  have "answers ctx srv (Option.bind (onMediaMessage con m (outChunkSize ctx) s)
      (\<lambda>(s', out). Some (True, ctx, conn_sends out (put_session i s' srv))))" for con s i
  proof -
    obtain s' out where "onMediaMessage con m (outChunkSize ctx) s = Some (s', out)"
      using onMediaMessage_returns [OF pos] by blast
    then show ?thesis by (simp add: answers_Some)
  qed
  then show ?thesis by (auto simp: handleMediaMessage_def intro!: answers_Some split: option.splits)
qed

lemma handleDeleteStream_answers: "answers ctx srv (handleDeleteStream c cmd ctx srv)"
  by (auto simp: handleDeleteStream_def detachConnectionFromSession_def intro!: answers_Some)

lemma handleMessage_answers: "0 < outChunkSize ctx \<Longrightarrow> answers ctx srv (handleMessage auth c m ctx srv)"
  by (auto simp: handleMessage_def handleCommandMessage_def Let_def handleConnect_answers
      handleCreateStream_answers handlePublish_answers handlePlay_answers handleMediaMessage_answers
      handleDeleteStream_answers intro!: answers_Some split: sum.splits)

lemma handleMessages_answers: "0 < outChunkSize ctx \<Longrightarrow> answers ctx srv (handleMessages auth c ms ctx srv)"
proof (induction ms arbitrary: ctx srv)
  case Nil
  then show ?case by (auto simp: answers_def)
next
  case (Cons m ms)
  obtain r ctx1 srv1 where one: "handleMessage auth c m ctx srv = Some (r, ctx1, srv1)"
    and sz: "outChunkSize ctx1 = outChunkSize ctx" "contexts srv1 = contexts srv"
    using handleMessage_answers [OF Cons.prems, of srv auth c m] by (auto simp: answers_def)
  with Cons.IH [of ctx1 srv1] Cons.prems show ?case by (auto simp: answers_def)
qed

lemma parseAndHandle_returns:
  assumes "0 < outChunkSize ctx"
  shows "\<exists>r buf' ctx' srv'. parseAndHandle auth c buf ctx srv = Some (r, buf', ctx', srv') \<and>
    outChunkSize ctx' = outChunkSize ctx \<and> contexts srv' = contexts srv"
proof -
  obtain f b ms p where p: "parse buf [] (chunkParser ctx) = (f, b, ms, p)"
    by (cases "parse buf [] (chunkParser ctx)")
  have "answers (ctx\<lparr>chunkParser := p\<rparr>) srv (handleMessages auth c ms (ctx\<lparr>chunkParser := p\<rparr>) srv)"
    using assms by (intro handleMessages_answers) simp
  with p show ?thesis by (cases f) (auto simp: parseAndHandle_def answers_def)
qed

lemma connection_onMessage_returns:
  assumes "0 < outChunkSize ctx"
  shows "\<exists>r buf' ctx' srv'. connection_onMessage rd auth c buf ctx srv = Some (r, buf', ctx', srv') \<and>
    outChunkSize ctx' = outChunkSize ctx \<and> contexts srv' = contexts srv"
proof -
  obtain e b resp hs where p: "process rd buf [] (ctx_handshake ctx) = (e, b, resp, hs)"
    by (cases "process rd buf [] (ctx_handshake ctx)")
  let ?ctx = "ctx\<lparr>receivedBytes := receivedBytes ctx + readableBytes buf\<rparr>"
  have "\<exists>r buf' ctx' srv'. parseAndHandle auth c b1 (?ctx\<lparr>ctx_handshake := h\<rparr>) srv1
      = Some (r, buf', ctx', srv') \<and> outChunkSize ctx' = outChunkSize ctx \<and>
        contexts srv' = contexts srv1" for b1 h srv1
    using parseAndHandle_returns [of "?ctx\<lparr>ctx_handshake := h\<rparr>"] assms by simp
  from this [of b hs "if resp \<noteq> [] then conn_send c resp srv else srv"]
    this [of buf "ctx_handshake ctx" srv] p show ?thesis
    by (cases e) (auto simp: connection_onMessage_def Let_def)
qed

definition contexts_ok :: "RtmpServer \<Rightarrow> bool" where
  "contexts_ok srv \<longleftrightarrow> (\<forall>c ctx. contexts srv c = Some ctx \<longrightarrow> 0 < outChunkSize ctx)"

section \<open>Runs of the server\<close>

text \<open>Any events in any order; the callback and the random bytes may differ from event to event.\<close>

inductive server_reach :: "RtmpServer \<Rightarrow> bool" where
  start: "server_reach newRtmpServer"
| step: "server_reach srv \<Longrightarrow> server_step rd auth ev srv = Some srv' \<Longrightarrow> server_reach srv'"

lemma newRtmpServer_ok: "srv_ok newRtmpServer" "contexts_ok newRtmpServer"
  by (simp_all add: srv_ok_def contexts_ok_def newRtmpServer_def)

lemma server_step_contexts:
  assumes "contexts_ok srv"
  shows "\<exists>srv'. server_step rd auth ev srv = Some srv' \<and> contexts_ok srv'"
proof (cases ev)
  case (Receive c data)
  let ?srv = "srv\<lparr>inputs := (inputs srv)(c := buf_append data (inputs srv c))\<rparr>"
  show ?thesis
  proof (cases "contexts srv c")
    case None
    with assms Receive show ?thesis
      by (simp add: server_onMessage_def contexts_ok_def conn_shutdown_def)
  next
    case (Some ctx)
    then have pos: "0 < outChunkSize ctx" using assms by (simp add: contexts_ok_def)
    obtain ok buf ctx' srv1 where
      "connection_onMessage rd auth c (inputs ?srv c) ctx ?srv = Some (ok, buf, ctx', srv1)"
      "outChunkSize ctx' = outChunkSize ctx" "contexts srv1 = contexts ?srv"
      using connection_onMessage_returns [OF pos] by blast
    with assms Receive Some pos show ?thesis
      by (auto simp: server_onMessage_def contexts_ok_def conn_shutdown_def Let_def)
  qed
next
  case (Connect c)
  with assms show ?thesis
    by (auto simp: server_onConnection_def contexts_ok_def newRtmpConnectionContext_def
        kDefaultChunkSize_def word_less_nat_alt)
next
  case (Close c)
  with assms show ?thesis by (auto simp: server_onConnection_def contexts_ok_def split: option.splits)
qed

lemma server_reach_inv: "server_reach srv \<Longrightarrow> srv_ok srv \<and> contexts_ok srv"
proof (induction rule: server_reach.induct)
  case start
  show ?case using newRtmpServer_ok by simp
next
  case (step srv rd auth ev srv')
  with server_step_evolves [OF step.hyps(2)] server_step_contexts [of srv rd auth ev]
  show ?case by (auto simp: evolves_def)
qed

text \<open>
  C17: The session table is consistent in every reachable state: every entry points to a live
  session of that stream, every live session is in the table under its own key (so a stream has
  one session), and no connection is listed twice among the players of a session.
\<close>

theorem sessions_consistent:
  assumes "server_reach srv"
  shows "(\<forall>key i. sessions srv key = Some i \<longrightarrow> (\<exists>s. sessionHeap srv i = Some s \<and> streamKey s = key)) \<and>
     (\<forall>i s. sessionHeap srv i = Some s \<longrightarrow> sessions srv (streamKey s) = Some i \<and> distinct (players s))"
  using server_reach_inv [OF assms] by (simp add: srv_ok_def)

definition first_connection :: RtmpServer where
  "first_connection = server_onConnection ''c1''
     (newRtmpServer\<lparr>connState := (connState newRtmpServer)(''c1'' := kConnected)\<rparr>)"

theorem sessions_consistent_witness:
  "\<not> (\<exists>key i. sessions first_connection key = Some i \<and>
       (\<forall>s. \<not> (sessionHeap first_connection i = Some s \<and> streamKey s = key))) \<and>
   \<not> (\<exists>i s. sessionHeap first_connection i = Some s \<and> \<not> distinct (players s))"
proof -
  have "server_reach first_connection"
    using server_reach.step [OF server_reach.start, of _ None "Connect ''c1''"]
    by (simp add: first_connection_def)
  from sessions_consistent [OF this] show ?thesis by blast
qed

text \<open>
  C16: The server always answers: in every reachable state, for every event, whatever bytes a
  client sends and whatever the callback says, the handlers terminate.
\<close>

theorem server_always_returns:
  assumes "server_reach srv"
  shows "\<exists>srv'. server_step rd auth ev srv = Some srv'"
  using server_step_contexts server_reach_inv [OF assms] by blast

theorem server_always_returns_witness:
  "\<exists>srv'. server_step (\<lambda>_. 0) None (Receive ''c1'' ''abc'') newRtmpServer = Some srv'"
  by (rule server_always_returns [OF server_reach.start])

text \<open>A server with one connection \<open>c\<close> that has completed handshake, \<open>connect\<close> and \<open>createStream\<close>.\<close>

definition ready_context :: RtmpConnectionContext where
  "ready_context = newRtmpConnectionContext\<lparr>ctx_handshake := kHandshakeDone, ctx_app := ''live'',
     streamId := 1, nextStreamId := 2\<rparr>"

definition ready_server :: RtmpServer where
  "ready_server = newRtmpServer\<lparr>connState := (\<lambda>_. kConnected), contexts := (\<lambda>_. Some ready_context),
     inputs := (\<lambda>_. newBuffer 0)\<rparr>"

definition request :: "string \<Rightarrow> string \<Rightarrow> string" where
  "request name target =
     (case EncodeMessage (commandMessage 1 (fold appendValue [String name, Number 0, Null, String target] []))
             kDefaultChunkSize of
        Some e \<Rightarrow> e | None \<Rightarrow> [])"

definition sample_callback :: auth_callback where
  "sample_callback = Some (\<lambda>key ticket publish. key = ''/live/a'' \<and> ticket = ''t'' \<and> publish)"

lemma ready_server_ok: "srv_ok ready_server"
  by (simp add: ready_server_def srv_ok_def newRtmpServer_def)

lemma ready_publish:
  "map_option (\<lambda>srv'. publisher_of srv' ''/live/a'')
     (server_step (\<lambda>_. 0) sample_callback (Receive ''c1'' (request ''publish'' ''a?ticket=t'')) ready_server)
   = Some (Some ''c1'')"
  by code_simp

text \<open>
  Publishing needs authorisation. Whatever event happens in a consistent state, a connection
  becomes the publisher of a stream only through its own event, and only if the authorisation
  callback accepts some ticket for publishing that stream.
\<close>

theorem publishing_is_authorised:
  assumes "srv_ok srv" "server_step rd auth ev srv = Some srv'"
    and "publisher_of srv' key = Some c" "publisher_of srv key \<noteq> Some c"
  shows "event_conn ev = c \<and> (\<exists>ticket. authorizePublish auth key ticket)"
  using server_step_evolves [OF assms(2)] assms(1,3,4) by (auto simp: evolves_def)

theorem publishing_is_authorised_witness:
  "\<exists>srv'. server_step (\<lambda>_. 0) sample_callback (Receive ''c1'' (request ''publish'' ''a?ticket=t''))
      ready_server = Some srv' \<and> publisher_of srv' ''/live/a'' = Some ''c1'' \<and>
      event_conn (Receive ''c1'' (request ''publish'' ''a?ticket=t'')) = ''c1'' \<and>
      (\<exists>ticket. authorizePublish sample_callback ''/live/a'' ticket)"
proof -
  obtain srv' where step: "server_step (\<lambda>_. 0) sample_callback
      (Receive ''c1'' (request ''publish'' ''a?ticket=t'')) ready_server = Some srv'"
    and pub: "publisher_of srv' ''/live/a'' = Some ''c1''" using ready_publish by auto
  have "publisher_of ready_server ''/live/a'' \<noteq> Some ''c1''"
    by (simp add: publisher_of_def session_of_def ready_server_def newRtmpServer_def)
  from publishing_is_authorised [OF ready_server_ok step pub this] step pub show ?thesis by blast
qed

text \<open>
  Playing needs authorisation, in the same sense.
\<close>

theorem playing_is_authorised:
  assumes "srv_ok srv" "server_step rd auth ev srv = Some srv'"
    and "c \<in> players_of srv' key" "c \<notin> players_of srv key"
  shows "event_conn ev = c \<and> (\<exists>ticket. authorizePlay auth key ticket)"
  using server_step_evolves [OF assms(2)] assms(1,3,4) by (auto simp: evolves_def)

lemma ready_play:
  "map_option (\<lambda>srv'. map_option players (session_of srv' ''/live/a''))
     (server_step (\<lambda>_. 0) None (Receive ''c2'' (request ''play'' ''a'')) ready_server)
   = Some (Some [''c2''])"
  by code_simp

theorem playing_is_authorised_witness:
  "\<exists>srv'. server_step (\<lambda>_. 0) None (Receive ''c2'' (request ''play'' ''a'')) ready_server = Some srv' \<and>
      ''c2'' \<in> players_of srv' ''/live/a'' \<and>
      event_conn (Receive ''c2'' (request ''play'' ''a'')) = ''c2'' \<and>
      (\<exists>ticket. authorizePlay None ''/live/a'' ticket)"
proof -
  obtain srv' where step: "server_step (\<lambda>_. 0) None (Receive ''c2'' (request ''play'' ''a'')) ready_server
      = Some srv'" and play: "''c2'' \<in> players_of srv' ''/live/a''"
    using ready_play by (auto simp: players_of_def)
  have "''c2'' \<notin> players_of ready_server ''/live/a''"
    by (simp add: players_of_def session_of_def ready_server_def newRtmpServer_def)
  from playing_is_authorised [OF ready_server_ok step play this] step play show ?thesis by blast
qed

text \<open>
  A publisher cannot be displaced: events of other connections never take a stream away from
  its publisher.
\<close>

theorem publisher_not_displaced:
  assumes "srv_ok srv" "server_step rd auth ev srv = Some srv'"
    and "publisher_of srv key = Some c" "event_conn ev \<noteq> c"
  shows "publisher_of srv' key = Some c"
  using server_step_evolves [OF assms(2)] assms(1,3,4) by (auto simp: evolves_def)

definition published_server :: RtmpServer where
  "published_server = ready_server\<lparr>sessions := [''/live/a'' \<mapsto> 0],
     sessionHeap := [0 \<mapsto> (newRtmpSession ''/live/a'')\<lparr>publisher := Some ''c1''\<rparr>], nextSession := 1,
     contexts := (\<lambda>c. Some (if c = ''c1'' then ready_context\<lparr>ctx_role := kPublisher, streamName := ''a'',
       ctx_session := Some 0\<rparr> else ready_context))\<rparr>"

lemma published_server_ok: "srv_ok published_server" "contexts_ok published_server"
  by (auto simp: published_server_def srv_ok_def contexts_ok_def newRtmpSession_def ready_context_def
      newRtmpConnectionContext_def kDefaultChunkSize_def word_less_nat_alt split: if_splits)

theorem publisher_not_displaced_witness:
  "\<exists>srv'. server_step (\<lambda>_. 0) None (Receive ''c2'' (request ''publish'' ''a'')) published_server = Some srv' \<and>
      publisher_of srv' ''/live/a'' = Some ''c1''"
proof -
  obtain srv' where step: "server_step (\<lambda>_. 0) None (Receive ''c2'' (request ''publish'' ''a''))
      published_server = Some srv'" using server_step_contexts [OF published_server_ok(2)] by blast
  have "publisher_of published_server ''/live/a'' = Some ''c1''"
    by (simp add: publisher_of_def session_of_def published_server_def)
  from publisher_not_displaced [OF published_server_ok(1) step this] step show ?thesis by simp
qed

end
