(* ===== verification/RtmpRelay.thy ===== *)
theory RtmpRelay
  imports RtmpServer
begin

text \<open>
  What the server does for its streams end to end: the messages of a publisher arrive at its players,
  from the handler over the encoder and the players' connections to a parser at the other end;
  closing a publisher frees its stream; and two situations in which the server goes wrong.
\<close>

section \<open>Relaying media\<close>

text \<open>
  The server's view of a connection \<open>p\<close>, the strings handed to its \<open>send\<close>, is an outgoing channel for
  the requests \<open>(c, data)\<close> the handlers make.
\<close>

interpretation srv_out: outgoing_channel "\<lambda>_. True" "\<lambda>srv. connState srv p = kConnected"
  "\<lambda>srv. sent srv p" "\<lambda>(c, d). if c = p then [d] else []" "\<lambda>(c, d). conn_send c d" for p
  by unfold_locales (auto simp: conn_send_def split: if_splits)

lemma sent_conn_sends:
  "sent (conn_sends out srv) p = sent srv p @ (if connState srv p = kConnected then sent_to p out else [])"
proof -
  have "concat (map (\<lambda>(c, d). if c = p then [d] else []) out) = sent_to p out"
    by (induction out) (auto simp: sent_to_def)
  then show ?thesis using srv_out.puts_stream [where p = p and ds = out and c = srv] by (simp add: conn_sends_def)
qed

lemma connState_conn_sends: "connState (conn_sends out srv) = connState srv"
proof -
  have "connState (fold (\<lambda>(c, data). conn_send c data) out srv) = connState srv"
    by (induction out arbitrary: srv) (auto simp: conn_send_def)
  then show ?thesis by (simp add: conn_sends_def)
qed

lemma media_relayed:
  assumes "srv_ok srv" "0 < outChunkSize ctx" "ctx_session ctx = Some i" "sessionHeap srv i = Some s"
    and "ctx_role ctx = kPublisher"
  shows "\<exists>e s' srv'. EncodeMessage m (outChunkSize ctx) = Some e \<and>
    handleMediaMessage c m ctx srv = Some (True, ctx, srv') \<and>
    (\<forall>p. sent srv' p = sent srv p @
       (if p \<in> set (players s) \<and> connState srv p = kConnected then [e] else [])) \<and>
    srv_ok srv' \<and> connState srv' = connState srv \<and> sessionHeap srv' i = Some s' \<and>
    set (players s') = {p \<in> set (players s). connState srv p = kConnected}"
proof -
  obtain e where e: "EncodeMessage m (outChunkSize ctx) = Some e"
    using EncodeMessage_frames [OF assms(2)] by blast
  let ?s = "(cacheMediaMessage m s)\<lparr>players := filter (is_connected srv) (players s)\<rparr>"
  let ?out = "map (\<lambda>p. (p, e)) (filter (is_connected srv) (players s))"
  let ?srv = "conn_sends ?out (put_session i ?s srv)"
  have step: "handleMediaMessage c m ctx srv = Some (True, ctx, ?srv)"
    using assms onMediaMessage_result [OF assms(2) e] by (simp add: handleMediaMessage_def)
  have "srv_ok ?srv" using handleMediaMessage_evolves [OF step, of None] assms(1) by (simp add: evolves_def)
  moreover have "sent ?srv p = sent srv p @
       (if p \<in> set (players s) \<and> connState srv p = kConnected then [e] else [])" for p
    using sent_to_broadcast [OF srv_okD(4) [OF assms(1,4)]]
    by (auto simp: sent_conn_sends put_session_def is_connected_def)
  moreover have "sessionHeap ?srv i = Some ?s"
    using tables_conn_sends [of ?out "put_session i ?s srv"] by (simp add: tables_def put_session_def)
  moreover have "connState ?srv = connState srv" by (simp add: connState_conn_sends put_session_def)
  ultimately show ?thesis
    using e step by (intro exI [of _ e] exI [of _ ?s] exI [of _ ?srv]) (simp add: is_connected_def)
qed

text \<open>The media messages of one publisher, handled in turn.\<close>

fun handleMediaMessages ::
  "string \<Rightarrow> RtmpMessage list \<Rightarrow> RtmpConnectionContext \<Rightarrow> RtmpServer \<Rightarrow> handled" where
  "handleMediaMessages c [] ctx srv = Some (True, ctx, srv)"
| "handleMediaMessages c (m # ms) ctx srv = do {
     (ok, ctx, srv) \<leftarrow> handleMediaMessage c m ctx srv;
     if ok then handleMediaMessages c ms ctx srv else Some (False, ctx, srv)
   }"

lemma stream_relayed:
  assumes "srv_ok srv" "0 < outChunkSize ctx" "ctx_session ctx = Some i" "sessionHeap srv i = Some s"
    and "ctx_role ctx = kPublisher"
  shows "\<exists>es srv'. EncodeMessages ms (outChunkSize ctx) = Some (concat es) \<and>
    length es = length ms \<and> handleMediaMessages c ms ctx srv = Some (True, ctx, srv') \<and>
    (\<forall>p. sent srv' p = sent srv p @
       (if p \<in> set (players s) \<and> connState srv p = kConnected then es else []))"
  using assms
proof (induction ms arbitrary: srv s)
  case Nil
  show ?case by (intro exI [of _ "[]"] exI [of _ srv]) simp
next
  case (Cons m ms)
  obtain e s1 srv1 where one: "EncodeMessage m (outChunkSize ctx) = Some e"
      "handleMediaMessage c m ctx srv = Some (True, ctx, srv1)"
      "\<And>p. sent srv1 p = sent srv p @
         (if p \<in> set (players s) \<and> connState srv p = kConnected then [e] else [])"
      "srv_ok srv1" "connState srv1 = connState srv" "sessionHeap srv1 i = Some s1"
      "set (players s1) = {p \<in> set (players s). connState srv p = kConnected}"
    using media_relayed [OF Cons.prems, of m c] by blast
  obtain es srv' where rest: "EncodeMessages ms (outChunkSize ctx) = Some (concat es)"
      "length es = length ms" "handleMediaMessages c ms ctx srv1 = Some (True, ctx, srv')"
      "\<And>p. sent srv' p = sent srv1 p @
         (if p \<in> set (players s1) \<and> connState srv1 p = kConnected then es else [])"
    using Cons.IH [OF one(4) Cons.prems(2,3) one(6) Cons.prems(5)] by blast
  show ?case
    by (intro exI [of _ "e # es"] exI [of _ srv']) (simp add: one rest)
qed

text \<open>
  The bytes handed to a player's \<open>send\<close> arrive as the messages \<open>ms\<close>: on every connection that is up
  and has nothing left to write, once these bytes are sent, in whatever portions the kernel takes
  them, a chunk parser with the same chunk size reads exactly these messages from the new bytes on
  the wire, in whatever segments.
\<close>

definition player_reads :: "u32 \<Rightarrow> string \<Rightarrow> RtmpMessage list \<Rightarrow> bool" where
  "player_reads sz bytes ms \<longleftrightarrow>
     (\<forall>con evs q buf segs.
       conn_inv con \<and> state con = kConnected \<and> view (outputBuffer con) = [] \<and>
       (\<forall>(ev, w) \<in> set evs. benign_write w) \<and> sent_data (map fst evs) = bytes \<and>
       view (outputBuffer (fold out_step evs con)) = [] \<and>
       inChunkSize q = sz \<and> buffer_ok buf \<and> view buf = [] \<and>
       wire (fold out_step evs con) = wire con @ concat segs \<longrightarrow>
       (\<exists>buf'. receive_all buf [] q segs = (None, buf', ms, deliver ms q) \<and> view buf' = []))"

lemma player_reads_encoding:
  assumes "0 < sz" "\<forall>m \<in> set ms. sendable sz m" "EncodeMessages ms sz = Some bytes"
  shows "player_reads sz bytes ms"
proof -
  have "\<exists>buf'. receive_all buf [] q segs = (None, buf', ms, deliver ms q) \<and> view buf' = []"
    if con: "conn_inv con" "state con = kConnected" "view (outputBuffer con) = []"
      and evs: "\<forall>(ev, w) \<in> set evs. benign_write w" "sent_data (map fst evs) = bytes"
      and flushed: "view (outputBuffer (fold out_step evs con)) = []"
      and q: "inChunkSize q = sz" "buffer_ok buf" "view buf = []"
      and segs: "wire (fold out_step evs con) = wire con @ concat segs" for con evs q buf segs
  proof -
    have "concat segs = bytes"
      using out_steps_connected [OF evs(1) con(1,2)] con(3) evs(2) flushed segs by (simp add: out_stream_def)
    with messages_roundtrip [OF q(2,3), of q ms] q(1) assms show ?thesis by auto
  qed
  then show ?thesis unfolding player_reads_def by blast
qed

text \<open>
  A publisher's stream reaches its players. Handling any sequence of media messages of a
  session's publisher hands one string per message to each connected player and nothing to anybody
  else. When a player's connection, with nothing left to write, has sent these strings in whatever
  portions the kernel takes them, a chunk parser with the same chunk size reads from the new bytes
  on the wire exactly the publisher's messages in order, into whatever segments they are cut.
\<close>

theorem media_reaches_players:
  assumes "srv_ok srv" "0 < outChunkSize ctx" "ctx_session ctx = Some i" "sessionHeap srv i = Some s"
    and "ctx_role ctx = kPublisher" "\<forall>m \<in> set ms. sendable (outChunkSize ctx) m"
  shows "\<exists>es srv'. length es = length ms \<and>
    handleMediaMessages c ms ctx srv = Some (True, ctx, srv') \<and>
    (\<forall>p. sent srv' p = sent srv p @
       (if p \<in> set (players s) \<and> connState srv p = kConnected then es else [])) \<and>
    (\<forall>con evs q buf segs.
       conn_inv con \<and> state con = kConnected \<and> view (outputBuffer con) = [] \<and>
       (\<forall>(ev, w) \<in> set evs. benign_write w) \<and> sent_data (map fst evs) = concat es \<and>
       view (outputBuffer (fold out_step evs con)) = [] \<and>
       inChunkSize q = outChunkSize ctx \<and> buffer_ok buf \<and> view buf = [] \<and>
       wire (fold out_step evs con) = wire con @ concat segs \<longrightarrow>
       (\<exists>buf'. receive_all buf [] q segs = (None, buf', ms, deliver ms q) \<and> view buf' = []))"
proof -
  obtain es srv' where run: "EncodeMessages ms (outChunkSize ctx) = Some (concat es)"
      "length es = length ms" "handleMediaMessages c ms ctx srv = Some (True, ctx, srv')"
      "\<forall>p. sent srv' p = sent srv p @
         (if p \<in> set (players s) \<and> connState srv p = kConnected then es else [])"
    using stream_relayed [OF assms(1-5)] by blast
  from player_reads_encoding [OF assms(2,6) run(1)] run(2-4) show ?thesis
    unfolding player_reads_def by - (intro exI [of _ es] exI [of _ srv'] conjI; assumption)
qed

definition relay_server :: RtmpServer where
  "relay_server = published_server\<lparr>sessionHeap :=
     [0 \<mapsto> (newRtmpSession ''/live/a'')\<lparr>publisher := Some ''c1'', players := [''p1'', ''p2'']\<rparr>]\<rparr>"

definition relay_context :: RtmpConnectionContext where
  "relay_context = ready_context\<lparr>ctx_role := kPublisher, streamName := ''a'', ctx_session := Some 0\<rparr>"

theorem media_reaches_players_witness:
  "\<exists>es srv' buf'. length es = 2 \<and>
    handleMediaMessages ''c1'' [sample_audio, sample_key_frame] relay_context relay_server =
      Some (True, relay_context, srv') \<and>
    (\<forall>p. sent srv' p = sent relay_server p @ (if p \<in> {''p1'', ''p2''} then es else [])) \<and>
    receive_all (newBuffer 64) [] newRtmpChunkParser [concat es] =
      (None, buf', [sample_audio, sample_key_frame],
       deliver [sample_audio, sample_key_frame] newRtmpChunkParser) \<and> view buf' = []"
proof -
  let ?ms = "[sample_audio, sample_key_frame]" and ?c = "connectEstablished newTcpConnection"
  let ?w = "\<lambda>d :: string. Inr (length d) :: int + nat"
  have out: "outChunkSize relay_context = 128"
    by (simp add: relay_context_def ready_context_def newRtmpConnectionContext_def kDefaultChunkSize_def)
  have facts: "srv_ok relay_server" "0 < outChunkSize relay_context" "ctx_session relay_context = Some 0"
    "sessionHeap relay_server 0 =
       Some ((newRtmpSession ''/live/a'')\<lparr>publisher := Some ''c1'', players := [''p1'', ''p2'']\<rparr>)"
    "ctx_role relay_context = kPublisher"
    by (auto simp: relay_server_def published_server_def relay_context_def ready_context_def srv_ok_def
        newRtmpSession_def newRtmpConnectionContext_def kDefaultChunkSize_def word_less_nat_alt
        ready_server_def split: if_splits)
  have up: "connState relay_server = (\<lambda>_. kConnected)"
    by (simp add: relay_server_def published_server_def ready_server_def)
  have fits: "\<forall>m \<in> set ?ms. sendable (outChunkSize relay_context) m" by (simp add: out sample_sendable)
  have two: "length ?ms = 2" by simp
  have plays: "(p \<in> set (players ((newRtmpSession ''/live/a'')
      \<lparr>publisher := Some ''c1'', players := [''p1'', ''p2'']\<rparr>)) \<and> kConnected = kConnected) =
    (p \<in> {''p1'', ''p2''})" for p by simp
  note reach = media_reaches_players [OF facts fits, of "''c1''"]
  obtain es srv' where run: "length es = 2"
      "handleMediaMessages ''c1'' ?ms relay_context relay_server = Some (True, relay_context, srv')"
      "\<forall>p. sent srv' p = sent relay_server p @ (if p \<in> {''p1'', ''p2''} then es else [])"
    and read: "\<forall>con evs q buf segs.
       conn_inv con \<and> state con = kConnected \<and> view (outputBuffer con) = [] \<and>
       (\<forall>(ev, w) \<in> set evs. benign_write w) \<and> sent_data (map fst evs) = concat es \<and>
       view (outputBuffer (fold out_step evs con)) = [] \<and>
       inChunkSize q = outChunkSize relay_context \<and> buffer_ok buf \<and> view buf = [] \<and>
       wire (fold out_step evs con) = wire con @ concat segs \<longrightarrow>
       (\<exists>buf'. receive_all buf [] q segs = (None, buf', ?ms, deliver ?ms q) \<and> view buf' = [])"
    using reach unfolding up two plays by blast
  have fresh: "state ?c = kConnected" "view (outputBuffer ?c) = []" "readableBytes (outputBuffer ?c) = 0"
      "\<not> chan_writing ?c"
    by (simp_all add: connectEstablished_def newTcpConnection_def callback_def view_newBuffer
        readable_zero_iff)
  have "\<exists>buf'. receive_all (newBuffer 64) [] newRtmpChunkParser [concat es] =
      (None, buf', ?ms, deliver ?ms newRtmpChunkParser) \<and> view buf' = []"
    by (rule read [THEN spec, THEN spec, THEN spec, THEN spec, THEN spec, THEN mp,
          of ?c "[(OutSend (concat es), ?w)]"])
      (use fresh in \<open>simp add: out established_inv benign_write_def send_def sendInLoop_def view_newBuffer
        newRtmpChunkParser_def kDefaultChunkSize_def queueInLoop_def Let_def\<close>)
  with run show ?thesis by blast
qed


section \<open>Closing\<close>

lemma session_of_removeIfEmpty:
  assumes "srv_ok srv"
  shows "session_of (removeIfEmpty key srv) k =
    (case session_of srv k of
       Some s \<Rightarrow> if k = key \<and> session_empty s then None else Some s
     | None \<Rightarrow> None)"
proof (cases "sessions srv key")
  case None
  then show ?thesis by (auto simp: removeIfEmpty_def session_of_def split: option.splits)
next
  case (Some i)
  obtain s where s: "sessionHeap srv i = Some s" "streamKey s = key"
    using srv_okD(1) [OF assms Some] by blast
  have only: "sessions srv k = Some i \<Longrightarrow> k = key" using srv_okD(1) [OF assms, of k i] s by auto
  show ?thesis
    using Some s only
    by (cases "sessions srv k") (auto simp: removeIfEmpty_def session_of_def split: option.splits)
qed

lemma cleanup_session:
  assumes ok: "srv_ok srv" and s: "session_of srv (ctx_streamKey ctx) = Some s"
    and key: "ctx_streamKey ctx \<noteq> []" and role: "ctx_role ctx = kPublisher"
  shows "session_of (cleanupConnection c ctx srv) (ctx_streamKey ctx) =
    (if session_empty (clearPublisher c s) then None else Some (clearPublisher c s))"
proof -
  let ?k = "ctx_streamKey ctx"
  obtain i where i: "sessions srv ?k = Some i" "sessionHeap srv i = Some s"
    using s ok session_of_Some by blast
  have sk: "streamKey s = ?k" using srv_okD(1) [OF ok i(1)] i(2) by auto
  let ?srv = "put_session i (clearPublisher c s) srv"
  have "srv_ok ?srv"
    using put_session_evolves [OF i(2) session_evolves_ops(3), of None c] ok by (auto simp: evolves_def)
  moreover have "session_of ?srv ?k = Some (clearPublisher c s)"
    using session_of_put [OF ok i(2)] sk by simp
  moreover have "cleanupConnection c ctx srv = removeIfEmpty ?k ?srv"
    using key i role by (simp add: cleanupConnection_def)
  ultimately show ?thesis by (simp add: session_of_removeIfEmpty)
qed




section \<open>Two defects\<close>

fun server_run :: "ServerEvent list \<Rightarrow> RtmpServer \<Rightarrow> RtmpServer option" where
  "server_run [] srv = Some srv"
| "server_run (ev # evs) srv = Option.bind (server_step (\<lambda>_. 0) None ev srv) (server_run evs)"

text \<open>
  A stale publisher. A connection that publishes a second stream without closing the first
  loses track of the first one: when it disconnects, only the second stream is freed, and the
  first keeps a disconnected publisher, so the next connection that wants to publish it is turned
  away.
\<close>

theorem second_publish_leaves_stale_publisher:
  "case server_run [Receive ''c1'' (request ''publish'' ''a''), Receive ''c1'' (request ''publish'' ''b''),
       Close ''c1'', Receive ''c2'' (request ''publish'' ''a'')] ready_server of
     None \<Rightarrow> False
   | Some srv \<Rightarrow> publisher_of srv ''/live/a'' = Some ''c1'' \<and> publisher_of srv ''/live/b'' = None \<and>
       connState srv ''c1'' = kDisconnected"
  by code_simp

definition resize_then_audio :: "string list" where
  "resize_then_audio =
     [case EncodeMessage (setChunkSizeMessage 1) kDefaultChunkSize of Some e \<Rightarrow> e | None \<Rightarrow> [],
      case EncodeMessage \<lparr>timestamp = 0, messageLength = 2, typeId = kMessageTypeAudio, messageStreamId = 1,
             chunkStreamId = 4, payload = ''ab''\<rparr> 1 of Some e \<Rightarrow> e | None \<Rightarrow> []]"

definition media_server :: RtmpServer where
  "media_server = relay_server\<lparr>sessionHeap :=
     [0 \<mapsto> (newRtmpSession ''/live/a'')\<lparr>publisher := Some ''c1'', players := [''p1'']\<rparr>]\<rparr>"

definition relayed :: "ServerEvent list \<Rightarrow> string list \<times> StateE" where
  "relayed evs =
     (case server_run evs media_server of
        None \<Rightarrow> ([], kConnecting)
      | Some srv \<Rightarrow> (map (drop 12) (sent srv ''p1''), connState srv ''c1''))"


end
