(* ===== verification/StagedParser.thy ===== *)
theory StagedParser
  imports Interfaces
begin

text \<open>
  The composition of two incremental parsers, as a locale over the contract of theory \<open>Interfaces\<close>
  that yields that contract for the composed parser. It is interpreted on the two phases of an RTMP
  connection in theory \<open>RtmpStream\<close>.
\<close>

section \<open>Parsers in stages\<close>

text \<open>
  Two parsers on one stream: the second takes over, on the bytes that are left, as soon as the first is
  ready. The results of the first stage are tagged \<open>Inl\<close>, those of the second \<open>Inr\<close>.
\<close>

definition staged_step ::
  "('s \<Rightarrow> bool) \<Rightarrow> ('s \<Rightarrow> string \<Rightarrow> ('s, 'e, 'o) outcome) \<Rightarrow> ('t \<Rightarrow> string \<Rightarrow> ('t, 'f, 'p) outcome) \<Rightarrow>
     's \<times> 't \<Rightarrow> string \<Rightarrow> ('s \<times> 't, 'e + 'f, 'o + 'p) outcome" where
  "staged_step ready step1 step2 st v =
     (case st of (s, t) \<Rightarrow>
        if ready s then map_outcome (Pair s) Inr Inr (step2 t v)
        else map_outcome (\<lambda>s. (s, t)) Inl Inl (step1 s v))"

definition staged_good ::
  "('s \<Rightarrow> bool) \<Rightarrow> ('s \<Rightarrow> string \<Rightarrow> ('s, 'e, 'o) outcome) \<Rightarrow> ('s \<Rightarrow> string \<Rightarrow> bool) \<Rightarrow> ('t \<Rightarrow> string \<Rightarrow> bool) \<Rightarrow>
     's \<times> 't \<Rightarrow> string \<Rightarrow> bool" where
  "staged_good ready step1 good1 good2 st v \<longleftrightarrow>
     (case st of (s, t) \<Rightarrow>
        if ready s then good2 t v
        else good1 s v \<and>
          (case run_steps step1 s v of
             Inl e \<Rightarrow> True
           | Inr (s', rest, os) \<Rightarrow> ready s' \<longrightarrow> good2 t rest))"

locale staged_parser = first: incremental_parser step1 good1 + second: incremental_parser step2 good2
  for step1 :: "'s \<Rightarrow> string \<Rightarrow> ('s, 'e, 'o) outcome" and good1
    and step2 :: "'t \<Rightarrow> string \<Rightarrow> ('t, 'f, 'p) outcome" and good2 +
  fixes ready :: "'s \<Rightarrow> bool"
  assumes ready_waits: "ready s \<Longrightarrow> step1 s v = Wait s"
    and waits_ready: "step1 s v = Wait s' \<Longrightarrow> ready s' \<Longrightarrow> ready s"
begin

lemma run_ready: "ready s \<Longrightarrow> run_steps step1 s v = Inr (s, v, [])"
  by (simp add: run_steps.simps ready_waits)

lemma staged_consume:
  assumes good: "staged_good ready step1 good1 good2 st (v @ w)"
    and step: "staged_step ready step1 step2 st v = Consume n st' os"
  shows "staged_step ready step1 step2 st (v @ w) = Consume n st' os \<and> 0 < n \<and> n \<le> length v \<and>
    staged_good ready step1 good1 good2 st' (drop n (v @ w))"
proof -
  obtain s t where st: "st = (s, t)" by (cases st)
  show ?thesis
  proof (cases "ready s")
    case True
    with step st obtain t' os' where "step2 t v = Consume n t' os'" "st' = (s, t')" "os = map Inr os'"
      by (cases "step2 t v") (auto simp: staged_step_def)
    with second.consume_ext [of t v w n t' os'] good st True show ?thesis
      by (auto simp: staged_step_def staged_good_def)
  next
    case False
    with step st obtain s' os' where one: "step1 s v = Consume n s' os'" and st': "st' = (s', t)" "os = map Inl os'"
      by (cases "step1 s v") (auto simp: staged_step_def)
    have good1: "good1 s (v @ w)" using good st False by (simp add: staged_good_def)
    note ext = first.consume_ext [OF good1 one]
    have "run_steps step1 s (v @ w) =
        (case run_steps step1 s' (drop n (v @ w)) of
           Inl e \<Rightarrow> Inl e | Inr (s'', rest, os) \<Rightarrow> Inr (s'', rest, os' @ os))"
      using ext by (subst run_steps.simps) simp
    then have "staged_good ready step1 good1 good2 st' (drop n (v @ w))"
      using good st st' False ext run_ready [of s' "drop n (v @ w)"]
      by (auto simp: staged_good_def split: sum.splits)
    with ext st st' False show ?thesis by (simp add: staged_step_def)
  qed
qed

lemma staged_wait:
  assumes good: "staged_good ready step1 good1 good2 st (v @ w)"
    and step: "staged_step ready step1 step2 st v = Wait st'"
  shows "staged_step ready step1 step2 st' v = Wait st' \<and>
    staged_step ready step1 step2 st' (v @ w) = staged_step ready step1 step2 st (v @ w) \<and>
    staged_good ready step1 good1 good2 st' (v @ w)"
proof -
  obtain s t where st: "st = (s, t)" by (cases st)
  show ?thesis
  proof (cases "ready s")
    case True
    with step st obtain t' where "step2 t v = Wait t'" "st' = (s, t')"
      by (cases "step2 t v") (auto simp: staged_step_def)
    with second.wait_ext [of t v w t'] good st True show ?thesis
      by (simp add: staged_step_def staged_good_def)
  next
    case False
    with step st obtain s' where one: "step1 s v = Wait s'" and st': "st' = (s', t)"
      by (cases "step1 s v") (auto simp: staged_step_def)
    have "good1 s (v @ w)" using good st False by (simp add: staged_good_def)
    note ext = first.wait_ext [OF this one]
    have "\<not> ready s'" using waits_ready [OF one] False by blast
    moreover have "run_steps step1 s' (v @ w) = run_steps step1 s (v @ w)" using ext by (intro first.run_cong) simp
    ultimately show ?thesis using ext good st st' False by (simp add: staged_step_def staged_good_def)
  qed
qed

lemma staged_reject:
  assumes good: "staged_good ready step1 good1 good2 st (v @ w)"
    and step: "staged_step ready step1 step2 st v = Reject e"
  shows "staged_step ready step1 step2 st (v @ w) = Reject e"
proof -
  obtain s t where st: "st = (s, t)" by (cases st)
  show ?thesis
    using good step st first.reject_ext [of s v w] second.reject_ext [of t v w]
    by (cases "ready s"; cases "step1 s v"; cases "step2 t v") (auto simp: staged_step_def staged_good_def)
qed

text \<open>The driver loop of the second stage, and of both.\<close>

lemma run_second:
  "ready s \<Longrightarrow> run_steps (staged_step ready step1 step2) (s, t) v =
     (case run_steps step2 t v of
        Inl e \<Rightarrow> Inl (Inr e) | Inr (t', rest, ps) \<Rightarrow> Inr ((s, t'), rest, map Inr ps))"
proof (induction "length v" arbitrary: t v rule: less_induct)
  case less
  show ?case
  proof (cases "step2 t v")
    case (Consume n t' ps)
    show ?thesis
    proof (cases "n = 0 \<or> length v < n")
      case False
      then have "length (drop n v) < length v" by auto
      from less.hyps [OF this less.prems, of t'] False less.prems Consume show ?thesis
        by (simp add: run_steps.simps [of _ _ v] staged_step_def split: sum.splits prod.splits)
    qed (use less.prems Consume in \<open>simp add: run_steps.simps [of _ _ v] staged_step_def\<close>)
  qed (use less.prems in \<open>simp_all add: run_steps.simps [of _ _ v] staged_step_def\<close>)
qed

lemma run_staged:
  "good1 s v \<Longrightarrow> run_steps (staged_step ready step1 step2) (s, t) v =
     (case run_steps step1 s v of
        Inl e \<Rightarrow> Inl (Inl e)
      | Inr (s', rest, os) \<Rightarrow>
          if ready s'
          then (case run_steps step2 t rest of
                  Inl e \<Rightarrow> Inl (Inr e)
                | Inr (t', rest', ps) \<Rightarrow> Inr ((s', t'), rest', map Inl os @ map Inr ps))
          else Inr ((s', t), rest, map Inl os))"
proof (induction "length v" arbitrary: s v rule: less_induct)
  case less
  show ?case
  proof (cases "ready s")
    case True
    then show ?thesis by (simp add: run_second run_ready split: sum.split)
  next
    case False
    show ?thesis
    proof (cases "step1 s v")
      case (Wait s')
      with False waits_ready [OF Wait] show ?thesis
        by (auto simp: run_steps.simps [of _ _ v] staged_step_def)
    next
      case (Reject e)
      with False show ?thesis by (simp add: run_steps.simps [of _ _ v] staged_step_def)
    next
      case (Consume n s' os)
      from first.consume_ext [of s v "[]", OF _ Consume] less.prems
      have n: "0 < n" "n \<le> length v" "good1 s' (drop n v)" by simp_all
      then have "length (drop n v) < length v" by simp
      note IH = less.hyps [OF this n(3)]
      have both: "run_steps (staged_step ready step1 step2) (s, t) v =
          (case run_steps (staged_step ready step1 step2) (s', t) (drop n v) of
             Inl e \<Rightarrow> Inl e | Inr (st, rest, os') \<Rightarrow> Inr (st, rest, map Inl os @ os'))"
        using False n Consume by (subst run_steps.simps) (simp add: staged_step_def)
      have one: "run_steps step1 s v =
          (case run_steps step1 s' (drop n v) of
             Inl e \<Rightarrow> Inl e | Inr (s'', rest, os') \<Rightarrow> Inr (s'', rest, os @ os'))"
        using n Consume by (subst run_steps.simps) simp
      show ?thesis
      proof (cases "run_steps step1 s' (drop n v)")
        case (Inl e)
        with both one IH show ?thesis by simp
      next
        case (Inr r)
        then show ?thesis
          using both one IH by (cases r; cases "run_steps step2 t (fst (snd r))") auto
      qed
    qed
  qed
qed

end

sublocale staged_parser \<subseteq> both: incremental_parser "staged_step ready step1 step2" "staged_good ready step1 good1 good2"
  by unfold_locales (fact staged_consume staged_reject staged_wait)+

end
