(* ===== verification/RtmpStream.thy ===== *)
theory RtmpStream
  imports RtmpRelay StagedParser
begin

text \<open>
  The byte stream of one RTMP connection, from the sockets to the handlers: handshake and chunk
  parser as one incremental parser over the bytes received, and the handlers over what it yields.

  \<^item> Frames: the handlers neither look at nor change the parser state, the handshake state, the byte
    counter and the input buffers, which are all that the segmentation of the stream can influence.
  \<^item> \<open>connection_step\<close>: the parser of a connection, in both phases; its items are the handshake answer and
    the messages.
  \<^item> The server on a whole stream, whatever its segments.
\<close>

section \<open>What the handlers leave alone\<close>

definition frame_ctx ::
  "HandshakeState \<Rightarrow> RtmpChunkParser \<Rightarrow> nat \<Rightarrow> RtmpConnectionContext \<Rightarrow> RtmpConnectionContext" where
  "frame_ctx h p n ctx = ctx\<lparr>ctx_handshake := h, chunkParser := p, receivedBytes := n\<rparr>"

definition frame_srv ::
  "(string \<Rightarrow> Buffer) \<Rightarrow> (string \<rightharpoonup> RtmpConnectionContext) \<Rightarrow> RtmpServer \<Rightarrow> RtmpServer" where
  "frame_srv i x srv = srv\<lparr>inputs := i, contexts := x\<rparr>"

named_theorems frame

lemma frame_ctx_simps [frame]:
  "ctx_role (frame_ctx h p n ctx) = ctx_role ctx" "outChunkSize (frame_ctx h p n ctx) = outChunkSize ctx"
  "acknowledgementWindow (frame_ctx h p n ctx) = acknowledgementWindow ctx"
  "peerBandwidth (frame_ctx h p n ctx) = peerBandwidth ctx" "ctx_app (frame_ctx h p n ctx) = ctx_app ctx"
  "streamName (frame_ctx h p n ctx) = streamName ctx" "streamId (frame_ctx h p n ctx) = streamId ctx"
  "nextStreamId (frame_ctx h p n ctx) = nextStreamId ctx" "ctx_session (frame_ctx h p n ctx) = ctx_session ctx"
  "(frame_ctx h p n ctx)\<lparr>ctx_role := r\<rparr> = frame_ctx h p n (ctx\<lparr>ctx_role := r\<rparr>)"
  "(frame_ctx h p n ctx)\<lparr>ctx_app := a\<rparr> = frame_ctx h p n (ctx\<lparr>ctx_app := a\<rparr>)"
  "(frame_ctx h p n ctx)\<lparr>tcUrl := a\<rparr> = frame_ctx h p n (ctx\<lparr>tcUrl := a\<rparr>)"
  "(frame_ctx h p n ctx)\<lparr>objectEncoding := e\<rparr> = frame_ctx h p n (ctx\<lparr>objectEncoding := e\<rparr>)"
  "(frame_ctx h p n ctx)\<lparr>streamName := a\<rparr> = frame_ctx h p n (ctx\<lparr>streamName := a\<rparr>)"
  "(frame_ctx h p n ctx)\<lparr>publishType := a\<rparr> = frame_ctx h p n (ctx\<lparr>publishType := a\<rparr>)"
  "(frame_ctx h p n ctx)\<lparr>streamId := i\<rparr> = frame_ctx h p n (ctx\<lparr>streamId := i\<rparr>)"
  "(frame_ctx h p n ctx)\<lparr>nextStreamId := i\<rparr> = frame_ctx h p n (ctx\<lparr>nextStreamId := i\<rparr>)"
  "(frame_ctx h p n ctx)\<lparr>ctx_session := j\<rparr> = frame_ctx h p n (ctx\<lparr>ctx_session := j\<rparr>)"
  "ctx_streamKey (frame_ctx h p n ctx) = ctx_streamKey ctx"
  by (simp_all add: frame_ctx_def ctx_streamKey_def)

lemma frame_srv_simps [frame]:
  "sessions (frame_srv i x srv) = sessions srv" "sessionHeap (frame_srv i x srv) = sessionHeap srv"
  "nextSession (frame_srv i x srv) = nextSession srv" "connState (frame_srv i x srv) = connState srv"
  "is_connected (frame_srv i x srv) = is_connected srv"
  "conn_send c d (frame_srv i x srv) = frame_srv i x (conn_send c d srv)"
  "put_session k s (frame_srv i x srv) = frame_srv i x (put_session k s srv)"
  "removeIfEmpty key (frame_srv i x srv) = frame_srv i x (removeIfEmpty key srv)"
  "sendMessage c m (frame_srv i x srv) = map_option (frame_srv i x) (sendMessage c m srv)"
  "getOrCreateSession key (frame_srv i x srv) = map_prod id (frame_srv i x) (getOrCreateSession key srv)"
  by (auto simp: frame_srv_def conn_send_def put_session_def removeIfEmpty_def sendMessage_def is_connected_def
      getOrCreateSession_def map_prod_def fun_eq_iff bind_map_option split: option.splits bind_split)

lemma frame_conn_sends [frame]: "conn_sends out (frame_srv i x srv) = frame_srv i x (conn_sends out srv)"
proof -
  have "fold (\<lambda>(c, d). conn_send c d) out (frame_srv i x srv) =
      frame_srv i x (fold (\<lambda>(c, d). conn_send c d) out srv)"
    by (induction out arbitrary: srv) (auto simp: frame)
  then show ?thesis by (simp add: conn_sends_def)
qed

lemma frame_cleanup [frame]:
  "cleanupConnection c (frame_ctx h p n ctx) (frame_srv i x srv) = frame_srv i x (cleanupConnection c ctx srv)"
  by (simp add: cleanupConnection_def frame Let_def split: option.split)

text \<open>The result of a handler, inside a frame.\<close>

definition framed ::
  "HandshakeState \<Rightarrow> RtmpChunkParser \<Rightarrow> nat \<Rightarrow> (string \<Rightarrow> Buffer) \<Rightarrow> (string \<rightharpoonup> RtmpConnectionContext) \<Rightarrow>
     handled \<Rightarrow> handled" where
  "framed h p n i x r = map_option (\<lambda>(ok, ctx, srv). (ok, frame_ctx h p n ctx, frame_srv i x srv)) r"

lemma framed_simps [frame]:
  "framed h p n i x None = None"
  "framed h p n i x (Some (ok, ctx, srv)) = Some (ok, frame_ctx h p n ctx, frame_srv i x srv)"
  "framed h p n i x (Option.bind r f) = Option.bind r (\<lambda>s. framed h p n i x (f s))"
  by (simp_all add: framed_def map_option_bind comp_def)

lemma frame_connect:
  "handleConnect c cmd (frame_ctx h p n ctx) (frame_srv i x srv) = framed h p n i x (handleConnect c cmd ctx srv)"
  by (simp add: handleConnect_def Let_def frame bind_map_option comp_def split: option.split)

lemma frame_createStream:
  "handleCreateStream c cmd (frame_ctx h p n ctx) (frame_srv i x srv) =
     framed h p n i x (handleCreateStream c cmd ctx srv)"
  by (simp add: handleCreateStream_def allocateNextStreamId_def frame bind_map_option comp_def)

lemma frame_request [frame]: "streamRequest cmd (frame_ctx h p n ctx) = streamRequest cmd ctx"
  by (simp add: streamRequest_def frame)

lemma frame_publish:
  "handlePublish auth c cmd (frame_ctx h p n ctx) (frame_srv i x srv) =
     framed h p n i x (handlePublish auth c cmd ctx srv)"
proof (cases "streamRequest cmd ctx")
  case None
  then show ?thesis by (simp add: handlePublish_def frame)
next
  case (Some target)
  obtain k srv1 where get: "getOrCreateSession (ctx_streamKey (ctx\<lparr>streamName := target_streamName target\<rparr>)) srv = (k, srv1)"
    by force
  have key: "ctx_streamKey (ctx\<lparr>streamName := a, publishType := t\<rparr>) = ctx_streamKey (ctx\<lparr>streamName := a\<rparr>)" for a t
    by (simp add: ctx_streamKey_def)
  show ?thesis
  proof (cases "sessionHeap srv1 k")
    case None
    with get key Some show ?thesis by (simp add: handlePublish_def Let_def frame bind_map_option comp_def)
  next
    case (Some s)
    obtain ok s' where "setPublisher c s = (ok, s')" by force
    with get key \<open>streamRequest cmd ctx = Some target\<close> Some show ?thesis
      by (simp add: handlePublish_def Let_def frame bind_map_option comp_def)
  qed
qed

lemma frame_play:
  "handlePlay auth c cmd (frame_ctx h p n ctx) (frame_srv i x srv) =
     framed h p n i x (handlePlay auth c cmd ctx srv)"
proof (cases "streamRequest cmd ctx")
  case None
  then show ?thesis by (simp add: handlePlay_def frame)
next
  case (Some target)
  obtain k srv1 where get: "getOrCreateSession (ctx_streamKey (ctx\<lparr>streamName := target_streamName target\<rparr>)) srv = (k, srv1)"
    by force
  show ?thesis
  proof (cases "sessionHeap srv1 k")
    case None
    with get Some show ?thesis by (simp add: handlePlay_def Let_def frame bind_map_option comp_def)
  next
    case (Some s)
    with get \<open>streamRequest cmd ctx = Some target\<close> show ?thesis
      by (simp add: handlePlay_def Let_def frame bind_map_option comp_def)
  qed
qed

lemma frame_media:
  "handleMediaMessage c m (frame_ctx h p n ctx) (frame_srv i x srv) =
     framed h p n i x (handleMediaMessage c m ctx srv)"
  by (simp add: handleMediaMessage_def frame case_prod_unfold cong: option.case_cong split: option.split)

lemma frame_deleteStream:
  "handleDeleteStream c cmd (frame_ctx h p n ctx) (frame_srv i x srv) =
     framed h p n i x (handleDeleteStream c cmd ctx srv)"
  by (simp add: handleDeleteStream_def detachConnectionFromSession_def frame cong: option.case_cong)

text \<open>Every message but Set Chunk Size, which changes the parser.\<close>

lemma frame_message:
  assumes "typeId m \<noteq> kMessageTypeSetChunkSize"
  shows "handleMessage auth c m (frame_ctx h p n ctx) (frame_srv i x srv) =
     framed h p n i x (handleMessage auth c m ctx srv)"
  using assms
  by (simp add: handleMessage_def handleCommandMessage_def frame frame_connect frame_createStream frame_publish
      frame_play frame_media frame_deleteStream split: sum.split)

lemma frame_messages:
  "\<forall>m \<in> set ms. typeId m \<noteq> kMessageTypeSetChunkSize \<Longrightarrow>
   handleMessages auth c ms (frame_ctx h p n ctx) (frame_srv i x srv) =
     framed h p n i x (handleMessages auth c ms ctx srv)"
proof (induction ms arbitrary: ctx srv)
  case (Cons m ms)
  then show ?case
    by (cases "handleMessage auth c m ctx srv") (auto simp: frame_message frame)
qed (simp add: frame)

section \<open>The parser of a connection\<close>

interpretation connection: staged_parser "handshake_step rd" "\<lambda>_ _. True" chunk_step restart_safe isDone for rd
  by unfold_locales (auto simp: isDone_def handshake_step_def split: HandshakeState.splits if_splits)

abbreviation connection_step ::
  "(nat \<Rightarrow> u32) \<Rightarrow> HandshakeState \<times> RtmpChunkParser \<Rightarrow> string \<Rightarrow>
     (HandshakeState \<times> RtmpChunkParser, string + (ParseFailure \<times> RtmpChunkParser), string + RtmpMessage) outcome" where
  "connection_step rd \<equiv> staged_step isDone (handshake_step rd) chunk_step"

text \<open>What the connection does with the items: it sends the answer of the handshake and handles the messages.\<close>

fun handle_items ::
  "auth_callback \<Rightarrow> string \<Rightarrow> (string + RtmpMessage) list \<Rightarrow> RtmpConnectionContext \<Rightarrow> RtmpServer \<Rightarrow> handled" where
  "handle_items auth c [] ctx srv = Some (True, ctx, srv)"
| "handle_items auth c (Inl response # items) ctx srv = handle_items auth c items ctx (conn_send c response srv)"
| "handle_items auth c (Inr m # items) ctx srv = do {
     (ok, ctx, srv) \<leftarrow> handleMessage auth c m ctx srv;
     if \<not> ok then Some (False, ctx, srv) else handle_items auth c items ctx srv
   }"

definition keeps_chunk_size :: "(string + RtmpMessage) list \<Rightarrow> bool" where
  "keeps_chunk_size items \<longleftrightarrow> (\<forall>m. Inr m \<in> set items \<longrightarrow> typeId m \<noteq> kMessageTypeSetChunkSize)"

lemma handle_items_append:
  "handle_items auth c (is @ js) ctx srv =
     Option.bind (handle_items auth c is ctx srv)
       (\<lambda>(ok, ctx, srv). if \<not> ok then Some (False, ctx, srv) else handle_items auth c js ctx srv)"
proof (induction "is" arbitrary: ctx srv)
  case (Cons a "is")
  then show ?case
    by (cases a; cases "handleMessage auth c (projr a) ctx srv") auto
qed simp

lemma handle_items_messages: "handle_items auth c (map Inr ms) ctx srv = handleMessages auth c ms ctx srv"
proof (induction ms arbitrary: ctx srv)
  case (Cons m ms)
  then show ?case by (cases "handleMessage auth c m ctx srv") auto
qed simp

lemma frame_items:
  "keeps_chunk_size items \<Longrightarrow>
   handle_items auth c items (frame_ctx h p n ctx) (frame_srv i x srv) =
     framed h p n i x (handle_items auth c items ctx srv)"
proof (induction items arbitrary: ctx srv)
  case (Cons a items)
  then have "keeps_chunk_size items" by (simp add: keeps_chunk_size_def)
  note IH = Cons.IH [OF this]
  show ?case
  proof (cases a)
    case (Inl r)
    with IH show ?thesis by (simp add: frame)
  next
    case (Inr m)
    with Cons.prems have "typeId m \<noteq> kMessageTypeSetChunkSize" by (simp add: keeps_chunk_size_def)
    with IH Inr show ?thesis
      by (cases "handleMessage auth c m ctx srv") (auto simp: frame_message frame)
  qed
qed (simp add: frame)

text \<open>The handshake answers at most once, and not with an empty string.\<close>

lemma handshake_answer:
  "run_steps (handshake_step rd) hs v = Inr (hs', rest, os) \<Longrightarrow> os = [] \<or> (\<exists>r. os = [r] \<and> r \<noteq> [])"
  by (cases hs)
    (auto simp: run_steps.simps [of _ kWaitC0C1] run_steps.simps [of _ kSendS0S1S2] handshake_step_eqs run_C2
      run_done buildS0S1S2_def split: if_splits)

lemma parseAndHandle_run:
  assumes "buffer_ok buf" "run_steps chunk_step p (view buf) = Inr (p', rest, ms)" "chunkParser ctx = p"
  shows "\<exists>buf'. buffer_ok buf' \<and> view buf' = rest \<and>
    parseAndHandle auth c buf ctx srv =
      map_option (\<lambda>(ok, ctx, srv). (ok, buf', ctx, srv)) (handleMessages auth c ms (ctx\<lparr>chunkParser := p'\<rparr>) srv)"
proof (cases "view buf = []")
  case True
  then have "p' = p" "rest = []" "ms = []" using assms(2) by (simp_all add: run_steps_Wait chunk_step_Nil)
  moreover have "readableBytes buf = 0" using readable_zero_iff [OF assms(1)] True by simp
  ultimately show ?thesis
    using assms(1,3) True by (intro exI [of _ buf]) (simp add: parseAndHandle_def)
next
  case False
  obtain buf' where "parse buf [] p = (None, buf', ms, p')" "buffer_ok buf'" "view buf' = rest"
    using parse_run [OF assms(1), where p = p and ms = "[]"] assms(2) by auto
  moreover have "readableBytes buf \<noteq> 0" using readable_zero_iff [OF assms(1)] False by simp
  ultimately show ?thesis
    using assms(3) by (intro exI [of _ buf'])
      (simp add: parseAndHandle_def map_conv_bind_option case_prod_unfold comp_def)
qed

text \<open>One call of the message callback, on the bytes the buffer then holds.\<close>

lemma frame_self:
  "ctx_handshake ctx = h \<Longrightarrow> chunkParser ctx = p \<Longrightarrow> receivedBytes ctx = n \<Longrightarrow> frame_ctx h p n ctx = ctx"
  "frame_srv (inputs srv) (contexts srv) srv = srv"
  "(frame_ctx h p n ctx)\<lparr>chunkParser := q\<rparr> = frame_ctx h q n ctx" "chunkParser (frame_ctx h p n ctx) = p"
  by (auto simp: frame_ctx_def frame_srv_def)

lemma framed_messages:
  assumes "keeps_chunk_size (map Inr ms)" "handleMessages auth c ms ctx srv = Some (ok, ctx', srv')"
  shows "handleMessages auth c ms (frame_ctx h p n ctx) srv =
    Some (ok, frame_ctx h p n ctx', frame_srv (inputs srv) (contexts srv) srv')"
  using frame_messages [of ms auth c h p n ctx "inputs srv" "contexts srv" srv] assms
  by (auto simp: keeps_chunk_size_def frame_self frame)

lemma handle_answers:
  "handle_items auth c (map Inl os) ctx srv = Some (True, ctx, fold (conn_send c) os srv)"
  by (induction os arbitrary: srv) simp_all

lemma conn_send_self: "inputs (conn_send c d srv) = inputs srv" "contexts (conn_send c d srv) = contexts srv"
  by (simp_all add: conn_send_def)

lemma connection_onMessage_run:
  assumes ok: "buffer_ok buf" "keeps_chunk_size items"
    and run: "run_steps (connection_step rd) (hs, p) (view buf) = Inr ((hs', p'), rest, items)"
    and ctx: "ctx_handshake ctx = hs" "chunkParser ctx = p"
    and items: "handle_items auth c items ctx srv = Some (True, ctx', srv')"
  shows "\<exists>buf' n. buffer_ok buf' \<and> view buf' = rest \<and>
    connection_onMessage rd auth c buf ctx srv =
      Some (True, buf', frame_ctx hs' p' n ctx', frame_srv (inputs srv) (contexts srv) srv')"
proof -
  let ?n = "receivedBytes ctx + readableBytes buf"
  have second: "\<exists>buf'. buffer_ok buf' \<and> view buf' = rest \<and>
      parseAndHandle auth c b (frame_ctx hs' p ?n ctx) srv1 =
        Some (True, buf', frame_ctx hs' p' ?n ctx', frame_srv (inputs srv1) (contexts srv1) srv')"
    if "buffer_ok b" "run_steps chunk_step p (view b) = Inr (p', rest, ms)" "keeps_chunk_size (map Inr ms)"
      "handleMessages auth c ms ctx srv1 = Some (True, ctx', srv')" for b ms srv1
    using parseAndHandle_run [OF that(1,2), of "frame_ctx hs' p ?n ctx" auth c srv1]
      framed_messages [OF that(3,4), of hs' p' ?n] by (auto simp: frame_self(3,4))
  obtain os v1 where one: "run_steps (handshake_step rd) hs (view buf) = Inr (hs', v1, os)"
    and two: "if isDone hs' then \<exists>ms. run_steps chunk_step p v1 = Inr (p', rest, ms) \<and> items = map Inl os @ map Inr ms
      else p' = p \<and> rest = v1 \<and> items = map Inl os"
    using run connection.run_staged [OF TrueI, of rd hs p "view buf"] by (auto split: sum.splits if_splits)
  have ctx1: "frame_ctx hs' p ?n ctx = ctx\<lparr>receivedBytes := ?n, ctx_handshake := hs'\<rparr>"
    using ctx by (simp add: frame_ctx_def)
  show ?thesis
  proof (cases "isDone hs")
    case True
    then have "hs' = hs" "v1 = view buf" "os = []" using one by (simp_all add: isDone_def run_done)
    with two True obtain ms where "run_steps chunk_step p (view buf) = Inr (p', rest, ms)" "items = map Inr ms" by auto
    with second [OF ok(1), of ms srv] ok(2) items True ctx \<open>hs' = hs\<close> ctx1 show ?thesis
      by (auto simp: connection_onMessage_def handle_items_messages frame_ctx_def Let_def)
  next
    case False
    obtain b where b: "process rd buf [] hs = (None, b, concat os, hs')" "buffer_ok b" "view b = v1"
      using process_run [OF ok(1), where rd = rd and s = hs and response = "[]"] one by auto
    let ?srv = "fold (conn_send c) os srv"
    have srv1: "(if concat os \<noteq> [] then conn_send c (concat os) srv else srv) = ?srv"
      and same: "inputs ?srv = inputs srv" "contexts ?srv = contexts srv"
      using handshake_answer [OF one] by (auto simp: conn_send_self)
    show ?thesis
    proof (cases "isDone hs'")
      case True
      with two obtain ms where ms: "run_steps chunk_step p (view b) = Inr (p', rest, ms)" "items = map Inl os @ map Inr ms"
        using b(3) by auto
      then have "keeps_chunk_size (map Inr ms)" "handleMessages auth c ms ctx ?srv = Some (True, ctx', srv')"
        using ok(2) items by (auto simp: keeps_chunk_size_def handle_items_append handle_answers handle_items_messages)
      with second [OF b(2) ms(1), of ?srv] b(1) False True srv1 same ctx ctx1 show ?thesis
        by (auto simp: connection_onMessage_def Let_def)
    next
      case False
      with two have "p' = p" "rest = v1" "ctx' = ctx" "srv' = ?srv" using items by (auto simp: handle_answers)
      with b \<open>\<not> isDone hs\<close> False srv1 same ctx ctx1 frame_self(2) [of ?srv] show ?thesis
        by (auto simp: connection_onMessage_def Let_def intro!: exI [of _ b] exI [of _ ?n])
    qed
  qed
qed


section \<open>The server on a whole stream\<close>

lemma receive_segment:
  assumes ctx: "contexts srv c = Some ctx" "ctx_handshake ctx = hs" "chunkParser ctx = p"
    and ok: "buffer_ok (inputs srv c)" "keeps_chunk_size items"
    and run: "run_steps (connection_step rd) (hs, p) (view (inputs srv c) @ seg) = Inr ((hs', p'), rest, items)"
    and items: "handle_items auth c items ctx srv = Some (True, ctx', srv')"
  shows "\<exists>i x n. server_step rd auth (Receive c seg) srv = Some (frame_srv i x srv') \<and>
    buffer_ok (i c) \<and> view (i c) = rest \<and> x c = Some (frame_ctx hs' p' n ctx') \<and>
    (\<forall>d. d \<noteq> c \<longrightarrow> i d = inputs srv d \<and> x d = contexts srv d)"
proof -
  let ?b = "buf_append seg (inputs srv c)"
  let ?i = "(inputs srv)(c := ?b)"
  let ?srv = "srv\<lparr>inputs := ?i\<rparr>"
  have srv: "?srv = frame_srv ?i (contexts srv) srv" by (simp add: frame_srv_def)
  have self: "ctx = frame_ctx hs p (receivedBytes ctx) ctx" using ctx by (simp add: frame_self)
  have "handle_items auth c items ctx ?srv = Some (True, frame_ctx hs p (receivedBytes ctx) ctx', frame_srv ?i (contexts srv) srv')"
    using frame_items [OF ok(2), of auth c hs p "receivedBytes ctx" ctx ?i "contexts srv" srv] items
    by (simp add: srv frame flip: self)
  moreover have "buffer_ok ?b" "view ?b = view (inputs srv c) @ seg" using ok(1) by (simp_all add: view_simps)
  ultimately obtain b n where one: "buffer_ok b" "view b = rest"
    "connection_onMessage rd auth c ?b ctx ?srv =
      Some (True, b, frame_ctx hs' p' n (frame_ctx hs p (receivedBytes ctx) ctx'),
        frame_srv (inputs ?srv) (contexts ?srv) (frame_srv ?i (contexts srv) srv'))"
    using connection_onMessage_run [of ?b items rd hs p hs' p' rest ctx auth c ?srv] ok(2) run ctx(2,3) by auto
  then have "server_step rd auth (Receive c seg) srv =
      Some (frame_srv (?i(c := b)) ((contexts srv)(c \<mapsto> frame_ctx hs' p' n ctx')) srv')"
    using ctx(1) by (simp add: server_onMessage_def frame_srv_def frame_ctx_def)
  with one(1,2) show ?thesis
    by (intro exI [of _ "?i(c := b)"] exI [of _ "(contexts srv)(c \<mapsto> frame_ctx hs' p' n ctx')"] exI [of _ n]) simp
qed

fun receive_segments ::
  "(nat \<Rightarrow> u32) \<Rightarrow> auth_callback \<Rightarrow> string \<Rightarrow> string list \<Rightarrow> RtmpServer \<Rightarrow> RtmpServer option" where
  "receive_segments rd auth c [] srv = Some srv"
| "receive_segments rd auth c (seg # segs) srv =
     Option.bind (server_step rd auth (Receive c seg) srv) (receive_segments rd auth c segs)"

lemma receive_segments_run:
  assumes "contexts srv c = Some ctx" "ctx_handshake ctx = hs" "chunkParser ctx = p"
    and "buffer_ok (inputs srv c)" "keeps_chunk_size items"
    and "feed_steps (connection_step rd) (hs, p) (view (inputs srv c)) segs = Inr ((hs', p'), rest, items)"
    and "handle_items auth c items ctx srv = Some (True, ctx', srv')"
  shows "\<exists>i x n. receive_segments rd auth c segs srv = Some (frame_srv i x srv') \<and>
    buffer_ok (i c) \<and> view (i c) = rest \<and> x c = Some (frame_ctx hs' p' n ctx') \<and>
    (\<forall>d. d \<noteq> c \<longrightarrow> i d = inputs srv d \<and> x d = contexts srv d)"
  using assms
proof (induction segs arbitrary: srv ctx hs p items ctx' srv')
  case Nil
  then show ?case
    by (intro exI [of _ "inputs srv"] exI [of _ "contexts srv"] exI [of _ "receivedBytes ctx"])
      (auto simp: frame_self)
next
  case (Cons seg segs)
  from Cons.prems(6) obtain hs1 p1 rest1 is1 is2 where
    one: "run_steps (connection_step rd) (hs, p) (view (inputs srv c) @ seg) = Inr ((hs1, p1), rest1, is1)"
    and two: "feed_steps (connection_step rd) (hs1, p1) rest1 segs = Inr ((hs', p'), rest, is2)"
    and items: "items = is1 @ is2"
    by (auto split: sum.splits)
  have keep: "keeps_chunk_size is1" "keeps_chunk_size is2" using Cons.prems(5) items by (auto simp: keeps_chunk_size_def)
  obtain ctx1 srv1 where h: "handle_items auth c is1 ctx srv = Some (True, ctx1, srv1)"
      "handle_items auth c is2 ctx1 srv1 = Some (True, ctx', srv')"
    using Cons.prems(7) by (auto simp: items handle_items_append bind_eq_Some_conv split: if_splits)
  obtain i x n where step: "server_step rd auth (Receive c seg) srv = Some (frame_srv i x srv1)"
      "buffer_ok (i c)" "view (i c) = rest1" "x c = Some (frame_ctx hs1 p1 n ctx1)"
      "\<forall>d. d \<noteq> c \<longrightarrow> i d = inputs srv d \<and> x d = contexts srv d"
    using receive_segment [OF Cons.prems(1-4) keep(1) one h(1)] by blast
  let ?srv = "frame_srv i x srv1" and ?ctx = "frame_ctx hs1 p1 n ctx1"
  have fields: "contexts ?srv = x" "inputs ?srv = i" by (simp_all add: frame_srv_def)
  have "handle_items auth c is2 ?ctx ?srv = Some (True, frame_ctx hs1 p1 n ctx', frame_srv i x srv')"
    using h(2) by (simp add: frame_items [OF keep(2)] frame)
  moreover have "contexts ?srv c = Some ?ctx" "buffer_ok (inputs ?srv c)"
      "feed_steps (connection_step rd) (hs1, p1) (view (inputs ?srv c)) segs = Inr ((hs', p'), rest, is2)"
    using step(2-4) two by (simp_all add: fields)
  moreover have "ctx_handshake ?ctx = hs1" "chunkParser ?ctx = p1" by (simp_all add: frame_ctx_def)
  ultimately obtain i' x' m where
    next_step: "receive_segments rd auth c segs ?srv = Some (frame_srv i' x' (frame_srv i x srv'))"
    "buffer_ok (i' c)" "view (i' c) = rest" "x' c = Some (frame_ctx hs' p' m (frame_ctx hs1 p1 n ctx'))"
    "\<forall>d. d \<noteq> c \<longrightarrow> i' d = i d \<and> x' d = x d"
    using Cons.IH [of ?srv ?ctx hs1 p1 is2 "frame_ctx hs1 p1 n ctx'" "frame_srv i x srv'"] keep(2)
    unfolding fields by blast
  have "frame_srv i' x' (frame_srv i x srv') = frame_srv i' x' srv'"
    "frame_ctx hs' p' m (frame_ctx hs1 p1 n ctx') = frame_ctx hs' p' m ctx'"
    by (simp_all add: frame_srv_def frame_ctx_def)
  with next_step step(1,5) show ?case
    by (intro exI [of _ i'] exI [of _ x'] exI [of _ m]) simp
qed

text \<open>
  The bytes of a client, whoever encoded them: chunks that can be read again, in which the parser
  finds exactly the messages \<open>ms\<close> when it is given all of them at once, leaving \<open>rest\<close> unread.
\<close>

definition carries :: "RtmpChunkParser \<Rightarrow> string \<Rightarrow> RtmpMessage list \<Rightarrow> RtmpChunkParser \<Rightarrow> string \<Rightarrow> bool" where
  "carries p bytes ms p' rest \<longleftrightarrow> restart_safe p bytes \<and>
     (case parse (buf_append bytes (newBuffer kInitialSize)) [] p of
        (failure, buf, messages, parser) \<Rightarrow> failure = None \<and> view buf = rest \<and> messages = ms \<and> parser = p')"

lemma carries_run:
  assumes "carries p bytes ms p' rest"
  shows "restart_safe p bytes" "run_steps chunk_step p bytes = Inr (p', rest, ms)"
proof -
  let ?buf = "buf_append bytes (newBuffer kInitialSize)"
  have "buffer_ok ?buf" "view ?buf = bytes" by (simp_all add: view_simps newBuffer_ok view_newBuffer)
  with parse_run [where buf = ?buf and p = p and ms = "[]"] assms
  show "run_steps chunk_step p bytes = Inr (p', rest, ms)" by (auto simp: carries_def split: sum.splits prod.splits)
  show "restart_safe p bytes" using assms by (simp add: carries_def)
qed

lemma run_carries:
  assumes "restart_safe p bytes" "run_steps chunk_step p bytes = Inr (p', rest, ms)" shows "carries p bytes ms p' rest"
proof -
  let ?buf = "buf_append bytes (newBuffer kInitialSize)"
  have "buffer_ok ?buf" "view ?buf = bytes" by (simp_all add: view_simps newBuffer_ok view_newBuffer)
  with parse_run [where buf = ?buf and p = p and ms = "[]"] assms show ?thesis by (auto simp: carries_def)
qed

text \<open>The encoding of messages by the server's own writer.\<close>

lemma encoded_carries:
  assumes "0 < inChunkSize p" "\<forall>m \<in> set ms. sendable (inChunkSize p) m" "EncodeMessages ms (inChunkSize p) = Some es"
  shows "carries p es ms (deliver ms p) []"
proof -
  have "consumes p es ms (deliver ms p) []" using assms by (intro written_messages) auto
  moreover have "restart_safe (deliver ms p) []"
    by (simp add: restart_safe.simps header_safe_def parseBasicHeader_def chunk_step_Nil)
  ultimately have "restart_safe p es" "run_steps chunk_step p es = Inr (deliver ms p, [], ms)"
    by (simp_all add: consumes_def run_steps_Wait chunk_step_Nil)
  then show ?thesis by (rule run_carries)
qed

text \<open>A connection whose handshake is complete.\<close>

lemma connection_run_ready:
  assumes "contexts srv c = Some ctx" "ctx_handshake ctx = kHandshakeDone"
    and "buffer_ok (inputs srv c)" "view (inputs srv c) = []"
    and "carries (chunkParser ctx) (concat segs) ms p' rest" "\<forall>m \<in> set ms. typeId m \<noteq> kMessageTypeSetChunkSize"
    and "handleMessages auth c ms ctx srv = Some (True, ctx', srv')"
  shows "\<exists>i x n. receive_segments rd auth c segs srv = Some (frame_srv i x srv') \<and> view (i c) = rest \<and>
    x c = Some (frame_ctx kHandshakeDone p' n ctx') \<and>
    (\<forall>d. d \<noteq> c \<longrightarrow> i d = inputs srv d \<and> x d = contexts srv d)"
proof -
  let ?p = "chunkParser ctx"
  note run = carries_run [OF assms(5)]
  have ready: "isDone kHandshakeDone" by (simp add: isDone_def)
  have "run_steps (connection_step rd) (kHandshakeDone, ?p) (concat segs) = Inr ((kHandshakeDone, p'), rest, map Inr ms)"
    using connection.run_second [OF ready, of rd ?p "concat segs"] run by simp
  moreover have "staged_good isDone (handshake_step rd) (\<lambda>_ _. True) restart_safe (kHandshakeDone, ?p) ([] @ concat segs)"
    using run ready by (simp add: staged_good_def)
  moreover have "connection_step rd (kHandshakeDone, ?p) [] = Wait (kHandshakeDone, ?p)"
    by (simp add: staged_step_def ready chunk_step_Nil)
  ultimately have "feed_steps (connection_step rd) (kHandshakeDone, ?p) [] segs = Inr ((kHandshakeDone, p'), rest, map Inr ms)"
    using connection.both.feed_eq_run [of rd "(kHandshakeDone, ?p)" "[]" segs] by simp
  moreover have "handle_items auth c (map Inr ms) ctx srv = Some (True, ctx', srv')"
    using assms(7) by (simp add: handle_items_messages)
  moreover have "keeps_chunk_size (map Inr ms)" using assms(6) by (auto simp: keeps_chunk_size_def)
  ultimately show ?thesis
    using receive_segments_run [OF assms(1,2) refl assms(3), of "map Inr ms" rd segs, unfolded assms(4)] by blast
qed

text \<open>A connection that has just been established.\<close>

lemma connection_run:
  assumes "contexts srv c = Some ctx" "ctx_handshake ctx = kWaitC0C1"
    and "buffer_ok (inputs srv c)" "view (inputs srv c) = []"
    and "u8_of c0 = kVersion" "length c1 = kHandshakePacketSize" "length c2 = kHandshakePacketSize"
    and "concat segs = c0 # c1 @ c2 @ bytes" "carries (chunkParser ctx) bytes ms p' rest"
    and "\<forall>m \<in> set ms. typeId m \<noteq> kMessageTypeSetChunkSize"
    and "handleMessages auth c ms ctx (conn_send c (buildS0S1S2 rd c1) srv) = Some (True, ctx', srv')"
  shows "\<exists>i x n. receive_segments rd auth c segs srv = Some (frame_srv i x srv') \<and> view (i c) = rest \<and>
    x c = Some (frame_ctx kHandshakeDone p' n ctx') \<and>
    (\<forall>d. d \<noteq> c \<longrightarrow> i d = inputs srv d \<and> x d = contexts srv d)"
proof -
  let ?p = "chunkParser ctx" and ?items = "Inl (buildS0S1S2 rd c1) # map Inr ms"
  note run = carries_run [OF assms(9)]
  note shake = run_handshake [OF assms(5-7), of rd bytes]
  have "run_steps (connection_step rd) (kWaitC0C1, ?p) (concat segs) = Inr ((kHandshakeDone, p'), rest, ?items)"
    using connection.run_staged [OF TrueI, of rd kWaitC0C1 ?p "concat segs"] run shake assms(8)
    by (simp add: isDone_def)
  moreover have "staged_good isDone (handshake_step rd) (\<lambda>_ _. True) restart_safe (kWaitC0C1, ?p) ([] @ concat segs)"
    using shake run assms(8) by (simp add: staged_good_def isDone_def)
  moreover have "connection_step rd (kWaitC0C1, ?p) [] = Wait (kWaitC0C1, ?p)"
    by (simp add: staged_step_def isDone_def handshake_step_eqs kC0C1Size_def)
  ultimately have "feed_steps (connection_step rd) (kWaitC0C1, ?p) [] segs = Inr ((kHandshakeDone, p'), rest, ?items)"
    using connection.both.feed_eq_run [of rd "(kWaitC0C1, ?p)" "[]" segs] by simp
  moreover have "handle_items auth c ?items ctx srv = Some (True, ctx', srv')"
    using assms(11) by (simp add: handle_items_messages)
  moreover have "keeps_chunk_size ?items" using assms(10) by (auto simp: keeps_chunk_size_def)
  ultimately show ?thesis
    using receive_segments_run [OF assms(1,2) refl assms(3), of ?items rd segs, unfolded assms(4)] by blast
qed



text \<open>A command message of moderate size fits the chunk format.\<close>

lemma command_sendable:
  assumes "length data < 2 ^ 24"
  shows "sendable sz (commandMessage sid data)" "typeId (commandMessage sid data) \<noteq> kMessageTypeSetChunkSize"
proof -
  have "length data mod 2 ^ 32 = length data" using assms by (intro mod_less) simp
  with assms show "sendable sz (commandMessage sid data)"
    by (simp add: sendable_def encodable_def csid_ok_def commandMessage_def kChunkStreamIdCommand_def
        word_le_nat_alt word_less_nat_alt unat_of_nat)
  show "typeId (commandMessage sid data) \<noteq> kMessageTypeSetChunkSize"
    by (simp add: commandMessage_def message_types)
qed

lemma default_encodes: "\<exists>e. EncodeMessage m kDefaultChunkSize = Some e"
  using EncodeMessage_frames [of kDefaultChunkSize m] by (auto simp: kDefaultChunkSize_def word_less_nat_alt)

text \<open>A client creates a stream and sends audio without having published anything.\<close>

definition createStream_request :: RtmpMessage where
  "createStream_request = commandMessage 0 (fold appendValue [String ''createStream'', Number 0, Null] [])"

definition fresh_server :: RtmpServer where
  "fresh_server = newRtmpServer\<lparr>connState := (\<lambda>_. kConnected), contexts := [''c1'' \<mapsto> newRtmpConnectionContext]\<rparr>"

definition createStream_command :: RtmpCommandMessage where
  "createStream_command = \<lparr>cmd_name = ''createStream'', transactionId = 0, cmd_messageStreamId = 0,
     commandObject = Null, arguments = []\<rparr>"

lemma handle_createStream:
  "\<exists>e. EncodeMessage (createStreamResultMessage createStream_command (nextStreamId ctx)) kDefaultChunkSize = Some e \<and>
     handleMessage auth c createStream_request ctx srv =
       Some (True, ctx\<lparr>streamId := nextStreamId ctx, nextStreamId := nextStreamId ctx + 1\<rparr>, conn_send c e srv)"
proof -
  have "DecodeCommandMessageAmf0 createStream_request = Inr createStream_command"
    unfolding createStream_request_def createStream_command_def by (subst DecodeCommand_values) simp_all
  moreover obtain e where "EncodeMessage (createStreamResultMessage createStream_command (nextStreamId ctx))
      kDefaultChunkSize = Some e"
    using default_encodes by blast
  moreover have "typeId createStream_request = kMessageTypeCommandAmf0" "cmd_name createStream_command = ''createStream''"
    by (simp_all add: createStream_request_def createStream_command_def commandMessage_def)
  ultimately show ?thesis
    by (intro exI [of _ e] conjI)
      (simp_all add: handleMessage_def message_types handleCommandMessage_def handleCreateStream_def
        allocateNextStreamId_def sendMessage_def)
qed

lemma createStream_sendable:
  "sendable sz createStream_request" "typeId createStream_request \<noteq> kMessageTypeSetChunkSize"
proof -
  have "length (fold appendValue [String ''createStream'', Number 0, Null] []) < 2 ^ 24"
    by (simp only: fold_appendValue) simp
  from command_sendable [OF this] show "sendable sz createStream_request"
    "typeId createStream_request \<noteq> kMessageTypeSetChunkSize" by (simp_all add: createStream_request_def)
qed


end
