(* ===== verification/RtmpLive.thy ===== *)
theory RtmpLive
  imports RtmpStream
begin

text \<open>
  A live stream from the publisher's socket to the players' sockets: the bytes of a whole publishing
  client, from its handshake to its last media message, through the server and the players' connections.
\<close>

section \<open>A publishing client\<close>

definition connect_request :: "string \<Rightarrow> RtmpMessage" where
  "connect_request app =
     commandMessage 0 (fold appendValue [String ''connect'', Number 0, ObjectValue [(''app'', String app)]] [])"

definition publish_request :: "string \<Rightarrow> RtmpMessage" where
  "publish_request target =
     commandMessage 1 (fold appendValue [String ''publish'', Number 0, Null, String target] [])"

definition publish_requests :: "string \<Rightarrow> string \<Rightarrow> RtmpMessage list" where
  "publish_requests app target = [connect_request app, createStream_request, publish_request target]"

lemma requests_sendable:
  assumes "length app < 65536" "length target < 65536"
  shows "\<forall>m \<in> set (publish_requests app target). sendable sz m \<and> typeId m \<noteq> kMessageTypeSetChunkSize"
proof -
  have "length (fold appendValue [String ''connect'', Number 0, ObjectValue [(''app'', String app)]] []) < 2 ^ 24"
    "length (fold appendValue [String ''publish'', Number 0, Null, String target] []) < 2 ^ 24"
    using assms by (simp_all only: fold_appendValue) simp_all
  with command_sendable createStream_sendable show ?thesis
    unfolding publish_requests_def connect_request_def publish_request_def by simp
qed

text \<open>A handler that only talks to its own client.\<close>

definition only_answers :: "string \<Rightarrow> RtmpServer \<Rightarrow> RtmpServer \<Rightarrow> bool" where
  "only_answers c srv srv' \<longleftrightarrow> tables srv' = tables srv \<and> connState srv' = connState srv \<and>
     (\<forall>p. p \<noteq> c \<longrightarrow> sent srv' p = sent srv p)"

lemma only_answers_refl: "only_answers c srv srv"
  by (simp add: only_answers_def)

lemma only_answers_send: "only_answers c srv srv1 \<Longrightarrow> only_answers c srv (conn_send c e srv1)"
  by (simp add: only_answers_def conn_send_def tables_def)

lemma only_answers_fold: "only_answers c srv (fold (conn_send c) es srv)"
proof -
  have "only_answers c srv srv1 \<Longrightarrow> only_answers c srv (fold (conn_send c) es srv1)" for srv1
    by (induction es arbitrary: srv1) (simp_all add: only_answers_send)
  then show ?thesis using only_answers_refl by blast
qed

lemma sendMessage_default:
  "\<exists>e. EncodeMessage m kDefaultChunkSize = Some e \<and> sendMessage c m srv = Some (conn_send c e srv)"
  using default_encodes [of m] by (auto simp: sendMessage_def)

definition connect_command :: "string \<Rightarrow> RtmpCommandMessage" where
  "connect_command app = \<lparr>cmd_name = ''connect'', transactionId = 0, cmd_messageStreamId = 0,
     commandObject = ObjectValue [(''app'', String app)], arguments = []\<rparr>"

text \<open>What the server answers to \<open>connect\<close>.\<close>

definition connect_replies :: "RtmpConnectionContext \<Rightarrow> string \<Rightarrow> RtmpMessage list" where
  "connect_replies ctx app =
     [windowAcknowledgementSizeMessage (acknowledgementWindow ctx), setPeerBandwidthMessage (peerBandwidth ctx),
      setChunkSizeMessage (outChunkSize ctx), connectSuccessMessage (connect_command app)]"

lemma handle_connect:
  assumes "length app < 65536"
  shows "\<exists>es. EncodeMessages (connect_replies ctx app) kDefaultChunkSize = Some (concat es) \<and>
    handleMessage auth c (connect_request app) ctx srv =
      Some (True, ctx\<lparr>ctx_app := app\<rparr>, fold (conn_send c) es srv)"
proof -
  have cmd: "DecodeCommandMessageAmf0 (connect_request app) = Inr (connect_command app)"
    unfolding connect_request_def connect_command_def
    by (subst DecodeCommand_values) (use assms in \<open>simp_all add: std_map_ok_def\<close>)
  have type: "typeId (connect_request app) = kMessageTypeCommandAmf0"
    by (simp add: connect_request_def commandMessage_def)
  have obj: "isObjectLike (commandObject (connect_command app))" "cmd_name (connect_command app) = ''connect''"
      "objectValue (commandObject (connect_command app)) = [(''app'', String app)]"
    by (simp_all add: connect_command_def isObjectLike_def objectValue_def)
  obtain e1 where 1: "EncodeMessage (windowAcknowledgementSizeMessage (acknowledgementWindow ctx)) kDefaultChunkSize = Some e1"
    using default_encodes by blast
  obtain e2 where 2: "EncodeMessage (setPeerBandwidthMessage (peerBandwidth ctx)) kDefaultChunkSize = Some e2"
    using default_encodes by blast
  obtain e3 where 3: "EncodeMessage (setChunkSizeMessage (outChunkSize ctx)) kDefaultChunkSize = Some e3"
    using default_encodes by blast
  obtain e4 where 4: "EncodeMessage (connectSuccessMessage (connect_command app)) kDefaultChunkSize = Some e4"
    using default_encodes by blast
  show ?thesis
    by (intro exI [of _ "[e1, e2, e3, e4]"])
      (simp add: connect_replies_def 1 2 3 4 handleMessage_def type cmd message_types handleCommandMessage_def
        handleConnect_def obj isString_def stringValue_def sendMessage_def)
qed

lemma session_for_key:
  assumes ok: "srv_ok srv" and get: "getOrCreateSession key srv = (i, srv1)"
  shows "\<exists>s. sessionHeap srv1 i = Some s \<and> streamKey s = key \<and> publisher s = publisher_of srv key \<and>
    set (players s) = players_of srv key \<and> connState srv1 = connState srv \<and> sent srv1 = sent srv"
proof (cases "sessions srv key")
  case None
  with get show ?thesis
    by (auto simp: getOrCreateSession_def publisher_of_def players_of_def session_of_def newRtmpSession_def)
next
  case (Some j)
  with get have "srv1 = srv" "i = j" by (auto simp: getOrCreateSession_def)
  with srv_okD(1) [OF ok Some] Some show ?thesis
    by (auto simp: publisher_of_def players_of_def session_of_def)
qed

lemma target_name: "ParseStreamTarget target = Some tg \<Longrightarrow> target_streamName tg \<noteq> []"
  by (auto simp: ParseStreamTarget_def Let_def split: if_splits option.splits)

lemma handle_publish:
  assumes ok: "srv_ok srv" and ctx: "streamId ctx = 1" "ctx_app ctx \<noteq> []"
    and target: "length target < 65536" "ParseStreamTarget target = Some tg"
    and key: "key = MakeStreamKey (ctx_app ctx) (target_streamName tg)"
    and auth: "authorizePublish auth key (target_ticket tg)" and free: "publisher_of srv key = None"
  shows "\<exists>i s ctx' srv'. handleMessage auth c (publish_request target) ctx srv = Some (True, ctx', srv') \<and>
    ctx_role ctx' = kPublisher \<and> ctx_session ctx' = Some i \<and> outChunkSize ctx' = outChunkSize ctx \<and>
    srv_ok srv' \<and> sessionHeap srv' i = Some s \<and> streamKey s = key \<and> publisher s = Some c \<and>
    set (players s) = players_of srv key \<and> connState srv' = connState srv \<and>
    (\<forall>p. p \<noteq> c \<longrightarrow> sent srv' p = sent srv p)"
proof -
  let ?cmd = "\<lparr>cmd_name = ''publish'', transactionId = 0, cmd_messageStreamId = 1,
      commandObject = Null, arguments = [String target]\<rparr>"
  have cmd: "DecodeCommandMessageAmf0 (publish_request target) = Inr ?cmd"
    unfolding publish_request_def by (subst DecodeCommand_values) (use target(1) in simp_all)
  have type: "typeId (publish_request target) = kMessageTypeCommandAmf0"
    by (simp add: publish_request_def commandMessage_def)
  have req: "streamRequest ?cmd ctx = Some tg"
    using ctx(1) target(2) by (simp add: streamRequest_def isString_def stringValue_def)
  let ?ctx1 = "ctx\<lparr>streamName := target_streamName tg\<rparr>"
  have skey: "ctx_streamKey ?ctx1 = key" "key \<noteq> []"
    using ctx(2) target_name [OF target(2)] key by (simp_all add: ctx_streamKey_def MakeStreamKey_def)
  obtain i srv1 where get: "getOrCreateSession key srv = (i, srv1)" by force
  obtain s where s: "sessionHeap srv1 i = Some s" "streamKey s = key" "publisher s = None"
      "set (players s) = players_of srv key" "connState srv1 = connState srv" "sent srv1 = sent srv"
    using session_for_key [OF ok get] free by auto
  obtain s' where set: "setPublisher c s = (True, s')" "publisher s' = Some c" "players s' = players s"
      "streamKey s' = streamKey s"
    using s(3) by (auto simp: setPublisher_def)
  let ?srv2 = "put_session i s' srv1" and ?ctx2 = "?ctx1\<lparr>ctx_role := kPublisher, ctx_session := Some i\<rparr>"
  obtain e where e: "sendMessage c (onStatusMessage (streamId ?ctx2) ''NetStream.Publish.Start''
      ''Start publishing.'' False) ?srv2 = Some (conn_send c e ?srv2)"
    using sendMessage_default by blast
  let ?srv3 = "conn_send c e ?srv2"
  have step: "handleMessage auth c (publish_request target) ctx srv = Some (True, ?ctx2, ?srv3)"
    using get s(1) set(1) e auth skey
    by (simp add: handleMessage_def type cmd message_types handleCommandMessage_def handlePublish_def req)
  have "srv_ok ?srv3" using handleMessage_evolves [OF step] ok by (simp add: evolves_def)
  moreover have "sessionHeap ?srv3 i = Some s'" "connState ?srv3 = connState srv"
      "\<forall>p. p \<noteq> c \<longrightarrow> sent ?srv3 p = sent srv p"
    using s(5,6) by (simp_all add: conn_send_def put_session_def)
  ultimately show ?thesis
    using step s(2,4) set by (intro exI [of _ i] exI [of _ s'] exI [of _ ?ctx2] exI [of _ ?srv3]) simp
qed

lemma only_answers_tables:
  assumes "only_answers c srv srv'"
  shows "srv_ok srv' = srv_ok srv" "publisher_of srv' key = publisher_of srv key"
    "players_of srv' key = players_of srv key"
  using assms by (simp_all add: only_answers_def srv_ok_def publisher_of_def players_of_def session_of_def tables_def)

lemma handleMessages_append:
  assumes "handleMessages auth c ms ctx srv = Some (True, ctx1, srv1)"
  shows "handleMessages auth c (ms @ ns) ctx srv = handleMessages auth c ns ctx1 srv1"
  using assms
proof (induction ms arbitrary: ctx srv)
  case (Cons m ms)
  then show ?case by (cases "handleMessage auth c m ctx srv") (auto split: if_splits)
qed simp

lemma publish_requests_handled:
  assumes ok: "srv_ok srv" and app: "app \<noteq> []" "length app < 65536"
    and target: "length target < 65536" "ParseStreamTarget target = Some tg"
    and key: "key = MakeStreamKey app (target_streamName tg)"
    and auth: "authorizePublish auth key (target_ticket tg)" and free: "publisher_of srv key = None"
  shows "\<exists>i s ctx srv'. handleMessages auth c (publish_requests app target) newRtmpConnectionContext srv =
      Some (True, ctx, srv') \<and>
    ctx_role ctx = kPublisher \<and> ctx_session ctx = Some i \<and> outChunkSize ctx = kDefaultChunkSize \<and>
    srv_ok srv' \<and> sessionHeap srv' i = Some s \<and> streamKey s = key \<and> publisher s = Some c \<and>
    set (players s) = players_of srv key \<and> connState srv' = connState srv \<and>
    (\<forall>p. p \<noteq> c \<longrightarrow> sent srv' p = sent srv p)"
proof -
  let ?ctx = newRtmpConnectionContext
  let ?ctx1 = "?ctx\<lparr>ctx_app := app\<rparr>"
  let ?ctx2 = "?ctx1\<lparr>streamId := nextStreamId ?ctx1, nextStreamId := nextStreamId ?ctx1 + 1\<rparr>"
  obtain es where 1: "handleMessage auth c (connect_request app) ?ctx srv = Some (True, ?ctx1, fold (conn_send c) es srv)"
    using handle_connect [OF app(2)] by blast
  let ?srv1 = "fold (conn_send c) es srv"
  obtain e where 2: "handleMessage auth c createStream_request ?ctx1 ?srv1 = Some (True, ?ctx2, conn_send c e ?srv1)"
    using handle_createStream [of ?ctx1 auth c ?srv1] by auto
  let ?srv2 = "conn_send c e ?srv1"
  have quiet: "only_answers c srv ?srv2" using only_answers_fold by (rule only_answers_send)
  note same = only_answers_tables [OF quiet]
  have ctx2: "streamId ?ctx2 = 1" "ctx_app ?ctx2 = app" "outChunkSize ?ctx2 = kDefaultChunkSize"
    by (simp_all add: newRtmpConnectionContext_def)
  obtain i s ctx' srv' where 3: "handleMessage auth c (publish_request target) ?ctx2 ?srv2 = Some (True, ctx', srv')"
      "ctx_role ctx' = kPublisher" "ctx_session ctx' = Some i" "outChunkSize ctx' = kDefaultChunkSize"
      "srv_ok srv'" "sessionHeap srv' i = Some s" "streamKey s = key" "publisher s = Some c"
      "set (players s) = players_of srv key" "connState srv' = connState ?srv2"
      "\<forall>p. p \<noteq> c \<longrightarrow> sent srv' p = sent ?srv2 p"
    using handle_publish [of ?srv2 ?ctx2 target tg key auth c] ok app(1) target key auth free same ctx2 by auto
  have "handleMessages auth c (publish_requests app target) ?ctx srv = Some (True, ctx', srv')"
    by (simp only: publish_requests_def handleMessages.simps 1 2 3(1) bind.bind_lunit prod.case simp_thms if_False if_True)
  moreover have "connState srv' = connState srv" "\<forall>p. p \<noteq> c \<longrightarrow> sent srv' p = sent srv p"
    using 3(10,11) quiet by (auto simp: only_answers_def)
  ultimately show ?thesis using 3(2-9) by blast
qed

section \<open>The media\<close>

definition is_media :: "RtmpMessage \<Rightarrow> bool" where
  "is_media m \<longleftrightarrow> typeId m \<in> {kMessageTypeDataAmf0, kMessageTypeAudio, kMessageTypeVideo}"

lemma media_handled:
  "\<forall>m \<in> set ms. is_media m \<Longrightarrow> handleMessages auth c ms ctx srv = handleMediaMessages c ms ctx srv"
proof (induction ms arbitrary: ctx srv)
  case (Cons m ms)
  then have "handleMessage auth c m ctx srv = handleMediaMessage c m ctx srv"
    by (auto simp: is_media_def handleMessage_def message_types)
  with Cons show ?case by (cases "handleMediaMessage c m ctx srv") auto
qed simp

lemma media_keeps:
  "srv_ok srv \<Longrightarrow> handleMediaMessages c ms ctx srv = Some (ok, ctx', srv') \<Longrightarrow>
     connState srv' = connState srv \<and> publisher_of srv' key = publisher_of srv key"
proof (induction ms arbitrary: ctx srv)
  case (Cons m ms)
  obtain ok1 ctx1 srv1 where one: "handleMediaMessage c m ctx srv = Some (ok1, ctx1, srv1)"
    and rest: "if ok1 then handleMediaMessages c ms ctx1 srv1 = Some (ok, ctx', srv') else srv' = srv1"
    using Cons.prems(2) by (auto simp: bind_eq_Some_conv split: if_splits)
  have put: "publisher_of (put_session i s' srv) key = publisher_of srv key"
    if "sessionHeap srv i = Some s" "publisher s' = publisher s" for i s s'
    using session_of_put [OF Cons.prems(1) that(1), of s' key] session_of_put [OF Cons.prems(1) that(1), of s key] that
    by (auto simp: publisher_of_def put_session_def map_upd_triv)
  have pub: "publisher s' = publisher s" if "onMediaMessage con m sz s = Some (s', out)" for con sz s s' out
    using that by (auto simp: onMediaMessage_def broadcastMessage_def bind_eq_Some_conv cacheMediaMessage_def Let_def
        split: if_splits prod.splits)
  have "publisher_of (conn_sends out srv) key = publisher_of srv key" for out srv
    using tables_conn_sends [of out srv] by (simp add: publisher_of_def session_of_def tables_def)
  then have step: "connState srv1 = connState srv" "publisher_of srv1 key = publisher_of srv key"
    using one put pub by (auto simp: handleMediaMessage_def bind_eq_Some_conv connState_conn_sends put_session_def [where srv = srv]
        split: if_splits option.splits)
  have "srv_ok srv1" using handleMediaMessage_evolves [OF one] Cons.prems(1) by (simp add: evolves_def)
  with Cons.IH [of srv1 ctx1] rest step show ?case by (auto split: if_splits)
qed simp


text \<open>Two players wait for the stream \<open>a\<close> when its publisher arrives.\<close>

definition waiting_server :: RtmpServer where
  "waiting_server = fresh_server\<lparr>sessions := [''/live/a'' \<mapsto> 0],
     sessionHeap := [0 \<mapsto> (newRtmpSession ''/live/a'')\<lparr>players := [''p1'', ''p2'']\<rparr>], nextSession := 1\<rparr>"


end
