(* ===== verification/RtmpJoin.thy ===== *)
theory RtmpJoin
  imports RtmpLive
begin

text \<open>
  A player that joins a live stream, from its first byte on: what it is sent, in order, are the replies to
  its requests, the cached messages that let it catch up, and then the live messages of the publisher.
\<close>

section \<open>The replies of the server fit the chunk format\<close>

definition reply_ok :: "RtmpMessage \<Rightarrow> bool" where
  "reply_ok m \<longleftrightarrow> \<not> is_media m \<and> sendable kDefaultChunkSize m"

lemma control_ok:
  assumes "length data < 2 ^ 24" "t \<notin> {kMessageTypeDataAmf0, kMessageTypeAudio, kMessageTypeVideo}"
  shows "reply_ok (controlMessage t data)"
proof -
  have "length data mod 2 ^ 32 = length data" using assms(1) by (intro mod_less) simp
  with assms show ?thesis
    by (simp add: reply_ok_def is_media_def sendable_def encodable_def csid_ok_def controlMessage_def
        kChunkStreamIdControl_def word_le_nat_alt word_less_nat_alt unat_of_nat)
qed

lemma command_ok: "length data < 2 ^ 24 \<Longrightarrow> reply_ok (commandMessage sid data)"
  using command_sendable(1) by (simp add: reply_ok_def is_media_def commandMessage_def message_types)

lemma connect_replies_ok: "\<forall>m \<in> set (connect_replies ctx app). reply_ok m"
proof -
  have "reply_ok (connectSuccessMessage (connect_command app))"
    unfolding connectSuccessMessage_def Let_def
    by (rule command_ok) (simp add: codec_simps appendString_def appendNumber_def appendUint16BE_def appendDoubleBE_def)
  then show ?thesis
    by (auto simp: connect_replies_def windowAcknowledgementSizeMessage_def setPeerBandwidthMessage_def
        setChunkSizeMessage_def appendUint32BE_def message_types intro!: control_ok)
qed

lemma createStream_reply_ok: "reply_ok (createStreamResultMessage cmd sid)"
  unfolding createStreamResultMessage_def Let_def
  by (rule command_ok) (simp add: appendString_def appendNumber_def appendNull_def appendUint16BE_def appendDoubleBE_def)

lemma status_ok: "length code + length text < 65536 \<Longrightarrow> reply_ok (onStatusMessage sid code text err)"
  unfolding onStatusMessage_def Let_def
  by (rule command_ok) (simp add: codec_simps appendString_def appendNumber_def appendNull_def appendUint16BE_def appendDoubleBE_def)

section \<open>A playing client\<close>

definition play_request :: "string \<Rightarrow> RtmpMessage" where
  "play_request target =
     commandMessage 1 (fold appendValue [String ''play'', Number 0, Null, String target] [])"

definition play_requests :: "string \<Rightarrow> string \<Rightarrow> RtmpMessage list" where
  "play_requests app target = [connect_request app, createStream_request, play_request target]"

lemma play_requests_sendable:
  assumes "length app < 65536" "length target < 65536"
  shows "\<forall>m \<in> set (play_requests app target). sendable sz m \<and> typeId m \<noteq> kMessageTypeSetChunkSize"
proof -
  have "length (fold appendValue [String ''play'', Number 0, Null, String target] []) < 2 ^ 24"
    using assms by (simp_all only: fold_appendValue) simp_all
  with command_sendable requests_sendable [OF assms, of sz] show ?thesis
    by (simp add: play_requests_def play_request_def publish_requests_def)
qed

lemma EncodeMessages_append:
  "EncodeMessages ms sz = Some a \<Longrightarrow> EncodeMessages ns sz = Some b \<Longrightarrow> EncodeMessages (ms @ ns) sz = Some (a @ b)"
  by (induction ms arbitrary: a) (auto split: option.splits)

lemma sent_fold:
  "connState srv c = kConnected \<Longrightarrow> sent (fold (conn_send c) es srv) c = sent srv c @ es"
  by (induction es arbitrary: srv) (simp_all add: conn_send_def)

text \<open>The status report, and the cached messages.\<close>

lemma handle_play:
  assumes ok: "srv_ok srv" and ctx: "streamId ctx = 1" "ctx_app ctx \<noteq> []" "outChunkSize ctx = kDefaultChunkSize"
    and target: "length target < 65536" "ParseStreamTarget target = Some tg"
    and key: "key = MakeStreamKey (ctx_app ctx) (target_streamName tg)"
    and auth: "authorizePlay auth key (target_ticket tg)"
    and s: "sessions srv key = Some i" "sessionHeap srv i = Some s" and up: "connState srv c = kConnected"
  shows "\<exists>es ctx' srv'. handleMessage auth c (play_request target) ctx srv = Some (True, ctx', srv') \<and>
    EncodeMessages (onStatusMessage 1 ''NetStream.Play.Start'' ''Start playing.'' False # replayMessages s)
      kDefaultChunkSize = Some (concat es) \<and>
    sent srv' c = sent srv c @ es \<and> srv_ok srv' \<and> sessionHeap srv' i = Some (snd (addPlayer c s)) \<and>
    connState srv' = connState srv"
proof -
  let ?cmd = "\<lparr>cmd_name = ''play'', transactionId = 0, cmd_messageStreamId = 1,
      commandObject = Null, arguments = [String target]\<rparr>"
  have cmd: "DecodeCommandMessageAmf0 (play_request target) = Inr ?cmd"
    unfolding play_request_def by (subst DecodeCommand_values) (use target(1) in simp_all)
  have type: "typeId (play_request target) = kMessageTypeCommandAmf0"
    by (simp add: play_request_def commandMessage_def)
  have req: "streamRequest ?cmd ctx = Some tg"
    using ctx(1) target(2) by (simp add: streamRequest_def isString_def stringValue_def)
  let ?ctx1 = "ctx\<lparr>streamName := target_streamName tg\<rparr>"
  have skey: "ctx_streamKey ?ctx1 = key" "key \<noteq> []"
    using ctx(2) target_name [OF target(2)] key by (simp_all add: ctx_streamKey_def MakeStreamKey_def)
  have get: "getOrCreateSession key srv = (i, srv)" using s(1) by (simp add: getOrCreateSession_def)
  let ?s = "snd (addPlayer c s)"
  let ?srv2 = "put_session i ?s srv" and ?ctx2 = "?ctx1\<lparr>ctx_role := kPlayer, ctx_session := Some i\<rparr>"
  obtain e where e: "EncodeMessage (onStatusMessage 1 ''NetStream.Play.Start'' ''Start playing.'' False) kDefaultChunkSize = Some e"
      "sendMessage c (onStatusMessage 1 ''NetStream.Play.Start'' ''Start playing.'' False) ?srv2 =
        Some (conn_send c e ?srv2)"
    using sendMessage_default by blast
  have pos: "0 < kDefaultChunkSize" by (simp add: kDefaultChunkSize_def)
  obtain out es where out: "sendEncoded c kDefaultChunkSize (replayMessages s) = Some out"
      "EncodeMessages (replayMessages s) kDefaultChunkSize = Some es" "concat (sent_to c out) = es"
    using sendEncoded_messages [OF pos, of c "replayMessages s"] by blast
  let ?srv3 = "conn_send c e ?srv2"
  let ?srv4 = "conn_sends out ?srv3"
  have state: "connState ?srv3 = connState srv" by (simp add: conn_send_def put_session_def)
  have same: "replayMessages ?s = replayMessages s" by (simp add: addPlayer_def replayMessages_def)
  have replay: "replayCachedMessagesToPlayer (is_connected ?srv3) c (outChunkSize ?ctx2) ?s = Some out"
    using up state out(1) ctx(3) by (simp add: replayCachedMessagesToPlayer_def is_connected_def same)
  have step: "handleMessage auth c (play_request target) ctx srv = Some (True, ?ctx2, ?srv4)"
    using get s(2) e(2) auth skey ctx(1,3) replay
    by (simp add: handleMessage_def type cmd message_types handleCommandMessage_def handlePlay_def req)
  have "srv_ok ?srv4" using handleMessage_evolves [OF step] ok by (simp add: evolves_def)
  moreover have "sent ?srv4 c = sent srv c @ (e # sent_to c out)"
    using up by (simp add: sent_conn_sends state) (simp add: conn_send_def put_session_def up)
  moreover have "sessionHeap ?srv4 i = Some ?s"
    using tables_conn_sends [of out ?srv3] by (simp add: tables_def put_session_def conn_send_def)
  moreover have "connState ?srv4 = connState srv" by (simp add: connState_conn_sends state)
  moreover have "EncodeMessages (onStatusMessage 1 ''NetStream.Play.Start'' ''Start playing.'' False # replayMessages s)
      kDefaultChunkSize = Some (concat (e # sent_to c out))"
    using e(1) out(2,3) by simp
  ultimately show ?thesis
    using step by (intro exI [of _ "e # sent_to c out"] exI [of _ ?ctx2] exI [of _ ?srv4] conjI)
qed

lemma play_requests_handled:
  assumes ok: "srv_ok srv" and app: "app \<noteq> []" "length app < 65536"
    and target: "length target < 65536" "ParseStreamTarget target = Some tg"
    and key: "key = MakeStreamKey app (target_streamName tg)"
    and auth: "authorizePlay auth key (target_ticket tg)"
    and s: "sessions srv key = Some i" "sessionHeap srv i = Some s" and up: "connState srv c = kConnected"
  shows "\<exists>replies es ctx srv'. handleMessages auth c (play_requests app target) newRtmpConnectionContext srv =
      Some (True, ctx, srv') \<and>
    (\<forall>m \<in> set replies. reply_ok m) \<and>
    EncodeMessages (replies @ replayMessages s) kDefaultChunkSize = Some (concat es) \<and>
    sent srv' c = sent srv c @ es \<and> srv_ok srv' \<and> sessionHeap srv' i = Some (snd (addPlayer c s)) \<and>
    connState srv' = connState srv"
proof -
  let ?ctx = newRtmpConnectionContext
  let ?ctx1 = "?ctx\<lparr>ctx_app := app\<rparr>"
  let ?ctx2 = "?ctx1\<lparr>streamId := nextStreamId ?ctx1, nextStreamId := nextStreamId ?ctx1 + 1\<rparr>"
  obtain es1 where 1: "EncodeMessages (connect_replies ?ctx app) kDefaultChunkSize = Some (concat es1)"
      "handleMessage auth c (connect_request app) ?ctx srv = Some (True, ?ctx1, fold (conn_send c) es1 srv)"
    using handle_connect [OF app(2)] by blast
  let ?srv1 = "fold (conn_send c) es1 srv" and ?created = "createStreamResultMessage createStream_command (nextStreamId ?ctx1)"
  obtain e where 2: "EncodeMessage ?created kDefaultChunkSize = Some e"
      "handleMessage auth c createStream_request ?ctx1 ?srv1 = Some (True, ?ctx2, conn_send c e ?srv1)"
    using handle_createStream by blast
  let ?srv2 = "fold (conn_send c) (es1 @ [e]) srv" and ?replies = "connect_replies ?ctx app @ [?created]"
  note quiet = only_answers_fold [of c srv "es1 @ [e]"]
  have tabs: "sessions ?srv2 = sessions srv" "sessionHeap ?srv2 = sessionHeap srv" "connState ?srv2 = connState srv"
    using quiet by (simp_all add: only_answers_def tables_def)
  have ctx2: "streamId ?ctx2 = 1" "ctx_app ?ctx2 = app" "outChunkSize ?ctx2 = kDefaultChunkSize"
    by (simp_all add: newRtmpConnectionContext_def)
  let ?status = "onStatusMessage 1 ''NetStream.Play.Start'' ''Start playing.'' False"
  obtain es2 ctx srv' where 3: "handleMessage auth c (play_request target) ?ctx2 ?srv2 = Some (True, ctx, srv')"
      "EncodeMessages (?status # replayMessages s) kDefaultChunkSize = Some (concat es2)"
      "sent srv' c = sent ?srv2 c @ es2" "srv_ok srv'" "sessionHeap srv' i = Some (snd (addPlayer c s))"
      "connState srv' = connState ?srv2"
    using handle_play [of ?srv2 ?ctx2 target tg key auth i s c] ok app(1) target key auth s up
      only_answers_tables(1) [OF quiet] tabs ctx2 by auto
  have "handleMessages auth c (play_requests app target) ?ctx srv = Some (True, ctx, srv')"
    using 3(1)
    by (simp only: play_requests_def handleMessages.simps 1(2) 2(2) fold_append fold_simps comp_apply bind.bind_lunit
        prod.case simp_thms if_False if_True)
  moreover have "\<forall>m \<in> set (?replies @ [?status]). reply_ok m"
    using connect_replies_ok createStream_reply_ok status_ok by auto
  moreover have "EncodeMessages ((?replies @ [?status]) @ replayMessages s) kDefaultChunkSize =
      Some (concat ((es1 @ [e]) @ es2))"
    using EncodeMessages_append [OF EncodeMessages_append [OF 1(1), of "[?created]" e] 3(2)] 2(1) by simp
  moreover have "sent srv' c = sent srv c @ ((es1 @ [e]) @ es2)"
    using 3(3) sent_fold [OF up, of "es1 @ [e]"] by (simp only: append_assoc)
  moreover have "connState srv' = connState srv" using 3(6) tabs(3) by simp
  ultimately show ?thesis using 3(4,5)
    by (intro exI [of _ "?replies @ [?status]"] exI [of _ "(es1 @ [e]) @ es2"] exI [of _ ctx] exI [of _ srv'] conjI)
qed

section \<open>Joining a live stream\<close>

definition catch_up :: "RtmpMessage list \<Rightarrow> RtmpMessage list" where
  "catch_up hist =
     opt_list (last_such (\<lambda>m. typeId m = kMessageTypeDataAmf0) hist) @
     opt_list (last_such IsAacSequenceHeader hist) @
     opt_list (last_such IsAvcSequenceHeader hist) @ last_gop (filter is_frame hist)"

lemma replay_catch_up: "caches_of hist s \<Longrightarrow> replayMessages s = catch_up hist"
  by (simp add: caches_of_def replayMessages_def catch_up_def)

lemma media_not_chunk_size: "is_media m \<Longrightarrow> typeId m \<noteq> kMessageTypeSetChunkSize"
  by (auto simp: is_media_def message_types)


text \<open>A player comes after a key frame and an audio frame; the publisher goes on with audio.\<close>

definition late_session :: RtmpSession where
  "late_session = (newRtmpSession ''/live/a'')
     \<lparr>publisher := Some ''c1'', gopCache := [sample_key_frame, sample_audio], gopStarted := True\<rparr>"

definition late_server :: RtmpServer where
  "late_server = newRtmpServer\<lparr>connState := (\<lambda>_. kConnected),
     contexts := [''p1'' \<mapsto> newRtmpConnectionContext, ''c1'' \<mapsto> relay_context],
     sessions := [''/live/a'' \<mapsto> 0], sessionHeap := [0 \<mapsto> late_session], nextSession := 1\<rparr>"


end
