(* ===== verification/RtmpChunkTyping.thy ===== *)
theory RtmpChunkTyping
  imports RtmpChunkWriter
begin

text \<open>
  The messages of the chunk parser are messages the chunk writer can send. The relay passes parsed
  media messages on to the players, so what \<open>RtmpChunkParser::parse\<close> returns has to lie in the
  domain of \<open>RtmpChunkWriter::EncodeMessage\<close>: a chunk stream id of the chunk format and a length
  field that is the size of the payload and fits into 24 bits.
\<close>

section \<open>Chunk stream ids and lengths\<close>

lemma ucast_of_nat: "(ucast (w :: u8) :: u32) = word_of_nat (unat w)"
  by (rule word_unat_eq_iff [THEN iffD2]) (use unsigned_less [of w] in \<open>simp add: unsigned_ucast_eq take_bit_nat_eq_self unat_of_nat\<close>)

lemma csid_ok_of_nat: "2 \<le> n \<Longrightarrow> n < 65600 \<Longrightarrow> csid_ok (word_of_nat n)"
  by (simp add: csid_ok_def word_le_nat_alt word_less_nat_alt unat_of_nat)

lemma csid_ok_mark: "2 \<le> (w :: u8) \<Longrightarrow> csid_ok (ucast w)"
proof -
  assume "2 \<le> w"
  then have "2 \<le> unat w" by (simp add: word_le_nat_alt)
  moreover have "unat w < 256" using unsigned_less [of w] by simp
  ultimately show ?thesis unfolding ucast_of_nat by (intro csid_ok_of_nat) simp_all
qed

lemma csid_of_header: "parseBasicHeader v = (fmt, c, h) \<Longrightarrow> h \<noteq> 0 \<Longrightarrow> csid_ok c"
proof -
  assume p: "parseBasicHeader v = (fmt, c, h)" "h \<noteq> 0"
  let ?mark = "u8_of (v ! 0) AND 0x3F" and ?a = "unat (u8_of (v ! 1))" and ?b = "unat (u8_of (v ! 2))"
  have less: "?a < 256" "?b < 256" using unsigned_less [of "u8_of (v ! 1)"] unsigned_less [of "u8_of (v ! 2)"] by simp_all
  consider "2 \<le> ?mark" "c = ucast ?mark" | "c = 64 + ucast (u8_of (v ! 1))"
    | "c = 64 + ucast (u8_of (v ! 1)) + push_bit 8 (ucast (u8_of (v ! 2)))"
    using p by (auto simp: parseBasicHeader_def Let_def split: if_splits)
  then show "csid_ok c"
  proof cases
    case 1
    then show ?thesis by (simp only: csid_ok_mark)
  next
    case 2
    then have "c = word_of_nat (64 + ?a)" by simp
    then show ?thesis using less by (simp only:) (rule csid_ok_of_nat; simp)
  next
    case 3
    then have "c = word_of_nat (64 + ?a + ?b * 256)" by (simp add: push_bit_eq_mult)
    then show ?thesis using less by (simp only:) (rule csid_ok_of_nat; simp)
  qed
qed

lemma ReadUint24BE_less: "unat (ReadUint24BE d) < 2 ^ 24"
proof -
  have "take_bit 24 (ReadUint24BE d) = ReadUint24BE d"
    by (rule bit_word_eqI) (auto simp: ReadUint24BE_def put_byte_def bit_simps dest: bit_imp_le_length)
  then have "unat (ReadUint24BE d) = take_bit 24 (unat (ReadUint24BE d))" by (metis unsigned_take_bit_eq)
  then show ?thesis by (metis take_bit_nat_less_exp)
qed


section \<open>Typed parser states\<close>

definition empty_ok :: "ChunkStreamState \<Rightarrow> bool" where
  "empty_ok st \<longleftrightarrow> (cs_messageLength st = 0 \<longrightarrow> cs_payload st = [])"

definition parser_typed :: "RtmpChunkParser \<Rightarrow> string \<Rightarrow> bool" where
  "parser_typed p v \<longleftrightarrow>
     (\<forall>c st. chunkStreams p c = Some st \<longrightarrow>
        csid_ok c \<and> unat (cs_messageLength st) < 2 ^ 24 \<and> (empty_ok st \<or> header_pending v c))"

lemma header_length:
  "parseMessageHeader d fmt st = (r, st') \<Longrightarrow> unat (cs_messageLength st) < 2 ^ 24 \<Longrightarrow> unat (cs_messageLength st') < 2 ^ 24"
  using ReadUint24BE_less [of "drop 3 d"]
  by (auto simp: parseMessageHeader_def Let_def assign_payload_def split: if_splits)

lemma header_empty:
  "parseMessageHeader d fmt st = (r, st') \<Longrightarrow> empty_ok st \<Longrightarrow>
     empty_ok st' \<or> fmt = kChunkHeaderType0 \<or> fmt = kChunkHeaderType1"
  by (auto simp: parseMessageHeader_def Let_def empty_ok_def assign_payload_def split: if_splits)

lemma header_empty_complete:
  assumes "parseMessageHeader d fmt st = (Inr mh, st')" "mh \<noteq> 0 \<or> fmt = kChunkHeaderType3"
    "empty_ok st \<or> fmt = kChunkHeaderType0 \<or> fmt = kChunkHeaderType1"
  shows "empty_ok st'"
  using assms
  by (auto simp: parseMessageHeader_def Let_def empty_ok_def assign_payload_def chunk_header_types split: if_splits)

lemma lookup_typed:
  assumes "parser_typed p v"
  shows "unat (cs_messageLength (lookupStream p c)) < 2 ^ 24" "empty_ok (lookupStream p c) \<or> header_pending v c"
  using assms by (auto simp: parser_typed_def lookupStream_def newChunkStreamState_def empty_ok_def split: option.splits)

lemma store_typed:
  "parser_typed p v \<Longrightarrow> csid_ok c \<Longrightarrow> unat (cs_messageLength st) < 2 ^ 24 \<Longrightarrow> empty_ok st \<or> header_pending v c \<Longrightarrow>
     parser_typed (storeStream c st p) v"
  by (auto simp: parser_typed_def storeStream_def)

lemma store_typed_consumed:
  assumes "parser_typed p v" "parseBasicHeader v = (fmt, c, h)" "csid_ok c" "unat (cs_messageLength st) < 2 ^ 24" "empty_ok st"
  shows "parser_typed (storeStream c st p) w"
  using assms by (auto simp: parser_typed_def storeStream_def header_pending_def)

text \<open>What a consumed chunk did: a complete header, a copy into the payload, perhaps a message.\<close>

lemma chunk_step_consume:
  assumes "chunk_step p v = Consume n p' os"
  obtains fmt c h k st st' where "parseBasicHeader v = (fmt, c, h)" "h \<noteq> 0"
    "parseMessageHeader (drop h v) fmt (lookupStream p c) = (Inr k, st)" "k \<noteq> 0 \<or> fmt = kChunkHeaderType3"
    "cs_messageLength st' = cs_messageLength st" "length (cs_payload st') = length (cs_payload st)"
    "if cs_bytesRead st' = cs_messageLength st'
     then p' = storeStream c (st'\<lparr>cs_bytesRead := 0, cs_payload := []\<rparr>) p \<and> os = [finishedMessage c st']
     else p' = storeStream c st' p \<and> os = []"
proof -
  obtain fmt c h where bh: "parseBasicHeader v = (fmt, c, h)" by (cases "parseBasicHeader v")
  obtain r st where mh: "parseMessageHeader (drop h v) fmt (lookupStream p c) = (r, st)" by force
  have h: "h \<noteq> 0" using assms bh chunk_step_no_header [of v fmt c p] by (cases h) auto
  obtain k where r: "r = Inr k" using assms bh mh h by (cases r) (auto simp: chunk_step_def Let_def)
  let ?n = "unat (min (cs_messageLength st - cs_bytesRead st) (inChunkSize p))"
  let ?st = "st\<lparr>cs_payload := overwrite (unat (cs_bytesRead st)) (take ?n (drop (h + k) v)) (cs_payload st),
      cs_bytesRead := cs_bytesRead st + word_of_nat ?n\<rparr>"
  have g: "\<not> (k = 0 \<and> \<not> (fmt = kChunkHeaderType3 \<and> cs_headerInitialized st \<and> cs_extendedTimestamp st = 0))"
    "\<not> length v < h + k + ?n" "\<not> length (cs_payload st) < unat (cs_bytesRead st) + ?n"
    using assms bh mh h r by (auto simp: chunk_step_def Let_def split: if_splits)
  have l: "length (cs_payload ?st) = length (cs_payload st)" using g(2,3) by simp
  have e: "if cs_bytesRead ?st = cs_messageLength ?st
     then p' = storeStream c (?st\<lparr>cs_bytesRead := 0, cs_payload := []\<rparr>) p \<and> os = [finishedMessage c ?st]
     else p' = storeStream c ?st p \<and> os = []"
    using assms bh mh h r g by (auto simp: chunk_step_def Let_def split: if_splits)
  show thesis by (rule that [OF bh h _ _ _ l e]) (use mh r g(1) in auto)
qed

lemma chunk_step_typed:
  assumes ok: "parser_ok p v" and ty: "parser_typed p v"
  shows "case chunk_step p v of
      Wait p' \<Rightarrow> parser_typed p' v
    | Consume n p' os \<Rightarrow> parser_typed p' (drop n v) \<and> (\<forall>m \<in> set os. encodable m)
    | Reject (f, p') \<Rightarrow> parser_typed p' v"
proof -
  obtain fmt c h where bh: "parseBasicHeader v = (fmt, c, h)" by (cases "parseBasicHeader v")
  obtain r st where mh: "parseMessageHeader (drop h v) fmt (lookupStream p c) = (r, st)" by force
  note len = header_length [OF mh lookup_typed(1) [OF ty]]
  have kept: "parser_typed (storeStream c st p) v" if "h \<noteq> 0"
  proof (rule store_typed [OF ty csid_of_header [OF bh that] len])
    show "empty_ok st \<or> header_pending v c"
      using lookup_typed(2) [OF ty, of c] header_empty [OF mh] bh that by (auto simp: header_pending_def)
  qed
  show ?thesis
  proof (cases "chunk_step p v")
    case (Wait p')
    then have "p' = p \<or> h \<noteq> 0 \<and> p' = storeStream c st p"
      using bh mh by (auto simp: chunk_step_def Let_def split: if_splits sum.splits)
    with Wait kept ty show ?thesis by auto
  next
    case (Reject fp)
    then have "h \<noteq> 0 \<and> snd fp = storeStream c st p"
      using bh mh by (auto simp: chunk_step_def Let_def split: if_splits sum.splits)
    with Reject kept show ?thesis by (cases fp) simp
  next
    case (Consume n p' os)
    from Consume obtain fmt' c' h' k st0 st' where s: "parseBasicHeader v = (fmt', c', h')" "h' \<noteq> 0"
      "parseMessageHeader (drop h' v) fmt' (lookupStream p c') = (Inr k, st0)" "k \<noteq> 0 \<or> fmt' = kChunkHeaderType3"
      "cs_messageLength st' = cs_messageLength st0" "length (cs_payload st') = length (cs_payload st0)"
      "if cs_bytesRead st' = cs_messageLength st'
       then p' = storeStream c' (st'\<lparr>cs_bytesRead := 0, cs_payload := []\<rparr>) p \<and> os = [finishedMessage c' st']
       else p' = storeStream c' st' p \<and> os = []" by (rule chunk_step_consume)
    have same: "fmt' = fmt" "c' = c" "h' = h" "st0 = st" using s(1,3) bh mh by auto
    have first: "stream_ok (lookupStream p c) \<or> fmt = kChunkHeaderType0 \<or> fmt = kChunkHeaderType1"
      "empty_ok (lookupStream p c) \<or> fmt = kChunkHeaderType0 \<or> fmt = kChunkHeaderType1"
      using stream_ok_lookup [OF ok, of c] lookup_typed(2) [OF ty, of c] bh by (auto simp: header_pending_def)
    have e: "empty_ok st0" by (rule header_empty_complete [OF s(3,4)]) (use first same in simp)
    have "cs_messageLength st0 = 0 \<or> length (cs_payload st0) = unat (cs_messageLength st0)"
      using parseMessageHeader_complete [OF s(3,4)] first same by simp
    then have size: "length (cs_payload st') = unat (cs_messageLength st')" using e s(5,6) by (auto simp: empty_ok_def)
    have cs: "csid_ok c" by (rule csid_of_header [OF s(1,2) [unfolded same]])
    have small: "unat (cs_messageLength st') < 2 ^ 24" using len s(5) same by simp
    have "empty_ok st'" using size by (auto simp: empty_ok_def)
    moreover have "empty_ok (st'\<lparr>cs_bytesRead := 0, cs_payload := []\<rparr>)" by (simp add: empty_ok_def)
    moreover have "encodable (finishedMessage c st')" using cs size small by (simp add: encodable_def finishedMessage_def)
    ultimately show ?thesis
      using s(7) same small store_typed_consumed [OF ty bh cs] Consume by (auto split: if_splits)
  qed
qed

section \<open>Reachable states\<close>

definition typed_inv :: "Buffer \<Rightarrow> RtmpChunkParser \<Rightarrow> bool" where
  "typed_inv buf p \<longleftrightarrow> parser_inv buf p \<and> parser_typed p (view buf)"

lemma parseOneChunk_typed:
  assumes "typed_inv buf p" "parseOneChunk buf ms p = (r, buf', ms', p')"
  shows "typed_inv buf' p' \<and> (\<exists>new. ms' = ms @ new \<and> (\<forall>m \<in> set new. encodable m))"
proof -
  have ok: "buffer_ok buf" "parser_ok p (view buf)" "parser_typed p (view buf)"
    using assms(1) by (auto simp: typed_inv_def parser_inv_def)
  have inv: "parser_inv buf' p'" using parseOneChunk_inv(1) [OF _ assms(2)] assms(1) by (simp add: typed_inv_def)
  from chunk_step_typed [OF ok(2,3)] assms(2) ok(1)
  have "parser_typed p' (view buf') \<and> (\<exists>new. ms' = ms @ new \<and> (\<forall>m \<in> set new. encodable m))"
    by (auto simp: parseOneChunk_step view_simps split: outcome.splits)
  with inv show ?thesis by (simp add: typed_inv_def)
qed

lemma parse_typed:
  "typed_inv buf p \<Longrightarrow> parse buf ms p = (r, buf', ms', p') \<Longrightarrow>
     typed_inv buf' p' \<and> (\<exists>new. ms' = ms @ new \<and> (\<forall>m \<in> set new. encodable m))"
proof (induction buf ms p rule: parse.induct)
  case (1 buf ms p)
  obtain r1 buf1 ms1 p1 where one: "parseOneChunk buf ms p = (r1, buf1, ms1, p1)"
    by (cases "parseOneChunk buf ms p")
  note t = parseOneChunk_typed [OF "1.prems"(1) one]
  then obtain new1 where n1: "typed_inv buf1 p1" "ms1 = ms @ new1" "\<forall>m \<in> set new1. encodable m" by blast
  show ?case
  proof (cases "0 < readableBytes buf \<and> r1 = None \<and> readableBytes buf1 \<noteq> readableBytes buf")
    case True
    then have "parse buf1 ms1 p1 = (r, buf', ms', p')"
      using "1.prems"(2) one by (simp add: parse.simps [of buf])
    with True one n1(1) "1.IH" obtain new2 where "typed_inv buf' p'" "ms' = ms1 @ new2" "\<forall>m \<in> set new2. encodable m"
      by fastforce
    with n1(2,3) show ?thesis by (intro conjI exI [of _ "new1 @ new2"]) auto
  next
    case False
    with "1.prems" one n1 show ?thesis
      by (auto simp: parse.simps [of buf] split: if_splits option.splits)
  qed
qed

lemma parser_reach_typed: "parser_reach buf p \<Longrightarrow> typed_inv buf p"
proof (induction rule: parser_reach.induct)
  case (initial n)
  then show ?case
    using parser_reach_inv [OF parser_reach.initial]
    by (simp add: typed_inv_def parser_typed_def newRtmpChunkParser_def)
next
  case (receive buf p data)
  then show ?case
    using parser_reach_inv [OF parser_reach.receive [OF receive(1)], of data] header_pending_append
    by (fastforce simp: typed_inv_def parser_typed_def parser_inv_def view_simps)
next
  case (parsed buf p ms r buf' ms' p')
  then show ?case using parse_typed by blast
next
  case (resize buf p chunk_size)
  then show ?case
    using parser_reach_inv [OF parser_reach.resize [OF resize(1)], of chunk_size]
    by (simp add: typed_inv_def parser_typed_def setInChunkSize_def)
qed



end
