(* ===== verification/Json.thy ===== *)
theory Json
  imports Prelude
begin

text \<open>
  JSON requests and responses (\<open>src/api/JsonRequest.cc\<close>, \<open>src/api/JsonResponse.h\<close>): a parser for
  flat objects of strings, and the functions that print the replies. A position in the input is
  represented by the rest of the input from there on.
\<close>

section \<open>Parsing\<close>

text \<open>\<open>std::isspace\<close> in the default locale.\<close>

definition isspace :: "char \<Rightarrow> bool" where
  "isspace c \<longleftrightarrow> c \<in> {CHR 0x20, CHR 0x09, CHR 0x0A, CHR 0x0B, CHR 0x0C, CHR 0x0D}"

definition skipSpaces :: "string \<Rightarrow> string" where
  "skipSpaces input = dropWhile isspace input"

definition unescape :: "char \<Rightarrow> char option" where
  "unescape escaped =
     (if escaped = CHR 0x22 \<or> escaped = CHR 0x5C \<or> escaped = CHR ''/'' then Some escaped
      else if escaped = CHR ''b'' then Some (CHR 0x08)
      else if escaped = CHR ''f'' then Some (CHR 0x0C)
      else if escaped = CHR ''n'' then Some (CHR 0x0A)
      else if escaped = CHR ''r'' then Some (CHR 0x0D)
      else if escaped = CHR ''t'' then Some (CHR 0x09)
      else None)"

fun parseStringBody :: "string \<Rightarrow> string \<Rightarrow> (string \<times> string) option" where
  "parseStringBody [] out = None"
| "parseStringBody (ch # rest) out =
     (if ch = CHR 0x22 then Some (out, rest)
      else if ch \<noteq> CHR 0x5C then parseStringBody rest (out @ [ch])
      else case rest of
        [] \<Rightarrow> None
      | escaped # rest' \<Rightarrow>
          (case unescape escaped of
             None \<Rightarrow> None
           | Some c \<Rightarrow> parseStringBody rest' (out @ [c])))"

definition parseString :: "string \<Rightarrow> (string \<times> string) option" where
  "parseString input =
     (case input of
        [] \<Rightarrow> None
      | ch # rest \<Rightarrow> if ch \<noteq> CHR 0x22 then None else parseStringBody rest [])"

type_synonym JsonObject = "string \<rightharpoonup> string"

definition getString :: "string \<Rightarrow> JsonObject \<Rightarrow> string option" where
  "getString key object = object key"

definition contains :: "string \<Rightarrow> JsonObject \<Rightarrow> bool" where
  "contains key object \<longleftrightarrow> object key \<noteq> None"

text \<open>One \<open>"key" : "value"\<close> pair.\<close>

definition parseMember :: "string \<Rightarrow> (string \<times> string \<times> string) option" where
  "parseMember input =
     (case parseString (skipSpaces input) of
        None \<Rightarrow> None
      | Some (key, rest) \<Rightarrow>
          (case skipSpaces rest of
             [] \<Rightarrow> None
           | c # rest \<Rightarrow>
               (if c \<noteq> CHR '':'' then None
                else case parseString (skipSpaces rest) of
                  None \<Rightarrow> None
                | Some (value, rest) \<Rightarrow> Some (key, value, rest))))"

lemma parseStringBody_shorter: "parseStringBody s out = Some (v, rest) \<Longrightarrow> length rest < length s"
  by (induction s out rule: parseStringBody.induct)
    (auto split: if_splits list.splits option.splits intro: less_SucI)

lemma parseString_shorter: "parseString s = Some (v, rest) \<Longrightarrow> length rest < length s"
  by (auto simp: parseString_def split: list.splits if_splits dest: parseStringBody_shorter)

lemma skipSpaces_le: "length (skipSpaces s) \<le> length s"
  by (simp add: skipSpaces_def length_dropWhile_le)

lemma parseMember_shorter: "parseMember s = Some (k, v, rest) \<Longrightarrow> length rest < length s"
proof -
  assume "parseMember s = Some (k, v, rest)"
  then obtain r1 c r2 where "parseString (skipSpaces s) = Some (k, r1)" "skipSpaces r1 = c # r2"
    "parseString (skipSpaces r2) = Some (v, rest)"
    by (auto simp: parseMember_def split: option.splits list.splits if_splits)
  then show ?thesis
    using parseString_shorter [of "skipSpaces s" k r1] parseString_shorter [of "skipSpaces r2" v rest]
      skipSpaces_le [of s] skipSpaces_le [of r1] skipSpaces_le [of r2] by simp
qed

function parseMembers :: "string \<Rightarrow> JsonObject \<Rightarrow> JsonObject option" where
  "parseMembers input object =
     (if input = [] then None
      else case parseMember input of
        None \<Rightarrow> None
      | Some (key, value, rest) \<Rightarrow>
          (let object = object(key \<mapsto> value) in
           case skipSpaces rest of
             [] \<Rightarrow> None
           | c # rest \<Rightarrow>
               (if c = CHR ''}'' then (if skipSpaces rest = [] then Some object else None)
                else if c \<noteq> CHR '','' then None
                else parseMembers rest object)))"
  by pat_completeness auto
termination
proof (relation "measure (\<lambda>(input, object). length input)")
  fix input object x y z xa xb xc c rest
  assume "parseMember input = Some x" "(y, z) = x" "(xa, xb) = z" "skipSpaces xb = c # rest"
  then show "((rest, xc :: JsonObject), input, object) \<in> measure (\<lambda>(input, object). length input)"
    using parseMember_shorter [of input y xa xb] skipSpaces_le [of xb] by auto
qed auto

declare parseMembers.simps [simp del]

definition parseJsonObject :: "string \<Rightarrow> JsonObject option" where
  "parseJsonObject input =
     (case skipSpaces input of
        [] \<Rightarrow> None
      | c # rest \<Rightarrow>
          (if c \<noteq> CHR ''{'' then None
           else case skipSpaces rest of
             [] \<Rightarrow> parseMembers [] Map.empty
           | c # rest' \<Rightarrow>
               (if c = CHR ''}'' then (if skipSpaces rest' = [] then Some Map.empty else None)
                else parseMembers (c # rest') Map.empty)))"


section \<open>Printing\<close>

definition escapeChar :: "char \<Rightarrow> string" where
  "escapeChar ch =
     (if ch = CHR 0x22 then [CHR 0x5C, CHR 0x22]
      else if ch = CHR 0x5C then [CHR 0x5C, CHR 0x5C]
      else if ch = CHR 0x08 then [CHR 0x5C, CHR ''b'']
      else if ch = CHR 0x0C then [CHR 0x5C, CHR ''f'']
      else if ch = CHR 0x0A then [CHR 0x5C, CHR ''n'']
      else if ch = CHR 0x0D then [CHR 0x5C, CHR ''r'']
      else if ch = CHR 0x09 then [CHR 0x5C, CHR ''t'']
      else [ch])"

definition escapeJson :: "string \<Rightarrow> string" where
  "escapeJson s = concat (map escapeChar s)"

definition quote :: "string \<Rightarrow> string" where
  "quote s = [CHR 0x22] @ escapeJson s @ [CHR 0x22]"

text \<open>\<open>std::to_string\<close> of a signed value.\<close>

definition to_string_int :: "int \<Rightarrow> string" where
  "to_string_int i = (if i < 0 then ''-'' @ to_string (nat (- i)) else to_string (nat i))"

definition makeField :: "string \<Rightarrow> string \<Rightarrow> string" where
  "makeField key v = quote key @ '':'' @ quote v"

definition makeNumberField :: "string \<Rightarrow> int \<Rightarrow> string" where
  "makeNumberField key v = quote key @ '':'' @ to_string_int v"

definition makeJsonResponse :: "int \<Rightarrow> string \<Rightarrow> string \<Rightarrow> string" where
  "makeJsonResponse code message dataJson =
     ''{'' @ quote ''code'' @ '':'' @ to_string_int code @ '','' @ quote ''message'' @ '':'' @
     quote message @ '','' @ quote ''data'' @ '':'' @ dataJson @ ''}''"

definition makeOk :: "string \<Rightarrow> string" where
  "makeOk dataJson = makeJsonResponse 0 ''ok'' dataJson"

definition makeError :: "int \<Rightarrow> string \<Rightarrow> string" where
  "makeError code message = makeJsonResponse code message ''null''"


section \<open>Round trip\<close>

lemma parseStringBody_escape:
  "parseStringBody (escapeJson s @ CHR 0x22 # rest) out = Some (out @ s, rest)"
proof (induction s arbitrary: out)
  case Nil
  then show ?case by (simp add: escapeJson_def)
next
  case (Cons c s)
  then show ?case by (simp add: escapeJson_def escapeChar_def unescape_def)
qed

lemma parseString_quote: "parseString (quote s @ rest) = Some (s, rest)"
  by (simp add: parseString_def quote_def parseStringBody_escape)

lemma skipSpaces_quote: "skipSpaces (quote s @ rest) = quote s @ rest"
  by (simp add: skipSpaces_def quote_def isspace_def)

lemma skipSpaces_Cons: "\<not> isspace c \<Longrightarrow> skipSpaces (c # rest) = c # rest"
  by (simp add: skipSpaces_def)

lemma parseMember_field: "parseMember (makeField k v @ rest) = Some (k, v, rest)"
  by (simp add: parseMember_def makeField_def parseString_quote skipSpaces_quote
      skipSpaces_Cons isspace_def)

text \<open>An object as the members separated by commas.\<close>

fun print_members :: "(string \<times> string) list \<Rightarrow> string" where
  "print_members [] = []"
| "print_members [(k, v)] = makeField k v"
| "print_members ((k, v) # m # ms) = makeField k v @ '','' @ print_members (m # ms)"

lemma makeField_nonempty: "makeField k v \<noteq> []"
  by (simp add: makeField_def quote_def)

lemma parseMembers_print:
  "ms \<noteq> [] \<Longrightarrow> parseMembers (print_members ms @ ''}'') obj = Some (obj ++ map_of (rev ms))"
proof (induction ms arbitrary: obj rule: print_members.induct)
  case (2 k v)
  then show ?case
    using makeField_nonempty parseMember_field [of k v "''}''"]
    by (simp add: parseMembers.simps skipSpaces_def isspace_def map_add_def fun_eq_iff)
next
  case (3 k v m ms)
  have "parseMembers (print_members ((k, v) # m # ms) @ ''}'') obj =
      parseMembers (print_members (m # ms) @ ''}'') (obj(k \<mapsto> v))"
    using makeField_nonempty parseMember_field [of k v "'','' @ print_members (m # ms) @ ''}''"]
    by (simp add: parseMembers.simps [of "makeField k v @ _"] skipSpaces_Cons isspace_def)
  also have "\<dots> = Some (obj ++ map_of (rev ((k, v) # m # ms)))"
    using "3.IH" by (simp add: map_add_def fun_eq_iff split: option.splits)
  finally show ?case .
qed simp

text \<open>
  Printing and parsing agree: the object printed from any list of fields, whatever characters
  their keys and values contain, parses to exactly those fields; of a repeated key the last value
  counts.
\<close>

theorem json_roundtrip:
  "parseJsonObject (''{'' @ print_members fields @ ''}'') = Some (map_of (rev fields))"
proof (cases fields)
  case Nil
  then show ?thesis by (simp add: parseJsonObject_def skipSpaces_def isspace_def)
next
  case (Cons f fs)
  obtain k v where f: "f = (k, v)" by (cases f)
  obtain r where r: "print_members fields @ ''}'' = CHR 0x22 # r"
    using Cons f by (cases fs) (auto simp: makeField_def quote_def)
  with parseMembers_print [of fields Map.empty] Cons show ?thesis
    by (simp add: parseJsonObject_def skipSpaces_Cons isspace_def)
qed

end
