(* ===== verification/Http.thy ===== *)
theory Http
  imports Buffer Json
begin

text \<open>
  The HTTP server (\<open>src/http\<close>) and the router (\<open>src/api/Router.cc\<close>).

  The request parser is incremental: it keeps its state in the connection's context between calls
  and leaves unread bytes in the buffer. \<open>parseRequest\<close> is its loop on the buffer; \<open>http_step\<close> is
  one iteration on the readable bytes, the form in which \<open>incremental_parser\<close> is interpreted. A
  line is the string before its CRLF, and pointers into it are positions.
\<close>

section \<open>Requests\<close>

datatype Method = kInvalid | kGet | kPost | kHead | kPut | kDelete

datatype Version = kUnknownVersion | kHttp10 | kHttp11

record HttpRequest =
  http_method :: Method
  http_version :: Version
  path :: string
  query :: string
  body :: string
  receiveTime :: int
  headers :: "(string, string) std_map"

definition newHttpRequest :: HttpRequest where
  "newHttpRequest = \<lparr>http_method = kInvalid, http_version = kUnknownVersion, path = [], query = [],
     body = [], receiveTime = 0, headers = []\<rparr>"

definition setMethod :: "string \<Rightarrow> HttpRequest \<Rightarrow> bool \<times> HttpRequest" where
  "setMethod m req =
     (case map_of [(''GET'', kGet), (''POST'', kPost), (''HEAD'', kHead), (''PUT'', kPut), (''DELETE'', kDelete)] m of
        Some method \<Rightarrow> (True, req\<lparr>http_method := method\<rparr>)
      | None \<Rightarrow> (False, req\<lparr>http_method := kInvalid\<rparr>))"

definition method2Str :: "Method \<Rightarrow> string" where
  "method2Str m = (case m of kInvalid \<Rightarrow> ''UNKNOWN'' | kGet \<Rightarrow> ''GET'' | kPost \<Rightarrow> ''POST''
     | kHead \<Rightarrow> ''HEAD'' | kPut \<Rightarrow> ''PUT'' | kDelete \<Rightarrow> ''DELETE'')"

definition trim :: "string \<Rightarrow> string" where
  "trim s = rev (dropWhile isspace (rev (dropWhile isspace s)))"

definition addHeader :: "string \<Rightarrow> nat \<Rightarrow> HttpRequest \<Rightarrow> HttpRequest" where
  "addHeader line colon req =
     req\<lparr>headers := std_assign (take colon line) (trim (drop (colon + 1) line)) (headers req)\<rparr>"

definition getHeader :: "string \<Rightarrow> HttpRequest \<Rightarrow> string" where
  "getHeader field req = (case map_of (headers req) field of None \<Rightarrow> [] | Some v \<Rightarrow> v)"


section \<open>Parsing\<close>

datatype HttpRequestParseState = kExpectRequestLine | kExpectHeaders | kExpectBody | kGotAll

record HttpContext =
  parse_state :: HttpRequestParseState
  request :: HttpRequest
  contentLength :: nat

definition newHttpContext :: HttpContext where
  "newHttpContext = \<lparr>parse_state = kExpectRequestLine, request = newHttpRequest, contentLength = 0\<rparr>"

definition gotAll :: "HttpContext \<Rightarrow> bool" where
  "gotAll ctx \<longleftrightarrow> parse_state ctx = kGotAll"

definition reset :: "HttpContext \<Rightarrow> HttpContext" where
  "reset ctx = newHttpContext"

definition processRequestLine :: "string \<Rightarrow> HttpRequest \<Rightarrow> bool \<times> HttpRequest" where
  "processRequestLine line req =
     (case find_char (CHR '' '') line of
        None \<Rightarrow> (False, req)
      | Some space \<Rightarrow>
          (let (ok, req) = setMethod (take space line) req;
               start = drop (space + 1) line
           in
           if \<not> ok then (False, req)
           else case find_char (CHR '' '') start of
             None \<Rightarrow> (False, req)
           | Some space2 \<Rightarrow>
               (let target = take space2 start;
                    req = (case find_char (CHR ''?'') target of
                             Some question \<Rightarrow> req\<lparr>path := take question target, query := drop question target\<rparr>
                           | None \<Rightarrow> req\<lparr>path := target\<rparr>);
                    version = drop (space2 + 1) start
                in
                if length version = 8 \<and> take 7 version = ''HTTP/1.'' then
                  (if version ! 7 = CHR ''1'' then (True, req\<lparr>http_version := kHttp11\<rparr>)
                   else if version ! 7 = CHR ''0'' then (True, req\<lparr>http_version := kHttp10\<rparr>)
                   else (False, req))
                else (False, req))))"

definition tolower :: "char \<Rightarrow> char" where
  "tolower c = (let n = (of_char c :: nat) in if 65 \<le> n \<and> n \<le> 90 then char_of (n + 32) else c)"

definition equalCaseInsensitive :: "string \<Rightarrow> string \<Rightarrow> bool" where
  "equalCaseInsensitive lhs rhs \<longleftrightarrow> length lhs = length rhs \<and> map tolower lhs = map tolower rhs"

text \<open>\<open>std::from_chars\<close> into a 64-bit \<open>size_t\<close>, requiring that all characters are used.\<close>

definition is_digit :: "char \<Rightarrow> bool" where
  "is_digit c \<longleftrightarrow> 48 \<le> (of_char c :: nat) \<and> (of_char c :: nat) \<le> 57"

definition from_digits :: "string \<Rightarrow> nat" where
  "from_digits s = foldl (\<lambda>n c. 10 * n + (of_char c - 48)) 0 s"

definition from_chars :: "string \<Rightarrow> nat option" where
  "from_chars s =
     (if s \<noteq> [] \<and> list_all is_digit s \<and> from_digits s < 2 ^ 64 then Some (from_digits s) else None)"

text \<open>The first header of that name in the order of the map; \<open>None\<close> is the return value false.\<close>

fun parseContentLength :: "(string, string) std_map \<Rightarrow> nat option" where
  "parseContentLength [] = Some 0"
| "parseContentLength ((field, v) # hs) =
     (if \<not> equalCaseInsensitive field ''Content-Length'' then parseContentLength hs
      else let v = trim v in if v = [] then None else from_chars v)"

definition headersDone :: "HttpContext \<Rightarrow> bool \<times> HttpContext" where
  "headersDone ctx =
     (case parseContentLength (headers (request ctx)) of
        None \<Rightarrow> (False, ctx\<lparr>contentLength := 0\<rparr>)
      | Some n \<Rightarrow> (True, ctx\<lparr>contentLength := n, parse_state := (if n > 0 then kExpectBody else kGotAll)\<rparr>))"

definition state_rank :: "HttpRequestParseState \<Rightarrow> nat" where
  "state_rank s = (case s of kExpectRequestLine \<Rightarrow> 3 | kExpectHeaders \<Rightarrow> 2 | kExpectBody \<Rightarrow> 1 | kGotAll \<Rightarrow> 0)"

lemma readableBytes_retrieveUntil:
  "findCRLF buf = Some crlf \<Longrightarrow> readableBytes (retrieveUntil (crlf + 2) buf) < readableBytes buf"
proof -
  assume "findCRLF buf = Some crlf"
  then obtain k where k: "search_crlf 0 (view buf) = Some k" and crlf: "crlf = peek buf + k"
    by (auto simp: findCRLF_view)
  from search_crlf_Some [OF k] have "k + 2 \<le> length (view buf)" by auto
  also have "length (view buf) \<le> readableBytes buf" by (simp add: view_def)
  finally have "0 < readableBytes buf" by simp
  then show ?thesis
    by (auto simp: retrieveUntil_def retrieve_def retrieveAll_def readableBytes_def crlf peek_def)
qed

function parseRequest :: "int \<Rightarrow> Buffer \<Rightarrow> HttpContext \<Rightarrow> bool \<times> Buffer \<times> HttpContext" where
  "parseRequest time buf ctx =
     (case parse_state ctx of
        kExpectRequestLine \<Rightarrow>
          (case findCRLF buf of
             None \<Rightarrow> (True, buf, ctx)
           | Some crlf \<Rightarrow>
               (let (ok, req) = processRequestLine (take (crlf - peek buf) (view buf)) (request ctx) in
                if ok
                then parseRequest time (retrieveUntil (crlf + 2) buf)
                       (ctx\<lparr>request := req\<lparr>receiveTime := time\<rparr>, parse_state := kExpectHeaders\<rparr>)
                else (False, buf, ctx\<lparr>request := req\<rparr>)))
      | kExpectHeaders \<Rightarrow>
          (case findCRLF buf of
             None \<Rightarrow> (True, buf, ctx)
           | Some crlf \<Rightarrow>
               (let line = take (crlf - peek buf) (view buf) in
                case find_char (CHR '':'') line of
                  Some colon \<Rightarrow>
                    parseRequest time (retrieveUntil (crlf + 2) buf)
                      (ctx\<lparr>request := addHeader line colon (request ctx)\<rparr>)
                | None \<Rightarrow>
                    (let (ok, ctx) = headersDone ctx in
                     if \<not> ok then (False, buf, ctx)
                     else if contentLength ctx > 0 then parseRequest time (retrieveUntil (crlf + 2) buf) ctx
                     else (True, retrieveUntil (crlf + 2) buf, ctx))))
      | kExpectBody \<Rightarrow>
          (if readableBytes buf \<ge> contentLength ctx
           then parseRequest time (retrieve (contentLength ctx) buf)
                  (ctx\<lparr>request := (request ctx)\<lparr>body := take (contentLength ctx) (view buf)\<rparr>,
                       parse_state := kGotAll\<rparr>)
           else (True, buf, ctx))
      | kGotAll \<Rightarrow> (True, buf, ctx))"
  by pat_completeness auto
termination
  by (relation "measures [\<lambda>(time, buf, ctx). readableBytes buf, \<lambda>(time, buf, ctx). state_rank (parse_state ctx)]")
    (auto simp: readableBytes_retrieveUntil [simplified] readableBytes_retrieve_le le_less [symmetric]
      state_rank_def)

declare parseRequest.simps [simp del]

section \<open>One iteration on the readable bytes\<close>

definition http_step ::
  "int \<Rightarrow> HttpContext \<Rightarrow> string \<Rightarrow> (HttpContext, HttpContext, unit) outcome" where
  "http_step time ctx v =
     (case parse_state ctx of
        kExpectRequestLine \<Rightarrow>
          (case search_crlf 0 v of
             None \<Rightarrow> Wait ctx
           | Some k \<Rightarrow>
               (let (ok, req) = processRequestLine (take k v) (request ctx) in
                if ok
                then Consume (k + 2) (ctx\<lparr>request := req\<lparr>receiveTime := time\<rparr>, parse_state := kExpectHeaders\<rparr>) []
                else Reject (ctx\<lparr>request := req\<rparr>)))
      | kExpectHeaders \<Rightarrow>
          (case search_crlf 0 v of
             None \<Rightarrow> Wait ctx
           | Some k \<Rightarrow>
               (case find_char (CHR '':'') (take k v) of
                  Some colon \<Rightarrow> Consume (k + 2) (ctx\<lparr>request := addHeader (take k v) colon (request ctx)\<rparr>) []
                | None \<Rightarrow>
                    (let (ok, ctx) = headersDone ctx in
                     if \<not> ok then Reject ctx else Consume (k + 2) ctx [])))
      | kExpectBody \<Rightarrow>
          (if length v \<ge> contentLength ctx
           then Consume (contentLength ctx)
                  (ctx\<lparr>request := (request ctx)\<lparr>body := take (contentLength ctx) v\<rparr>,
                       parse_state := kGotAll\<rparr>) []
           else Wait ctx)
      | kGotAll \<Rightarrow> Wait ctx)"

lemma http_step_eqs:
  "parse_state ctx = kExpectRequestLine \<Longrightarrow> http_step time ctx v =
     (case search_crlf 0 v of
        None \<Rightarrow> Wait ctx
      | Some k \<Rightarrow>
          (let (ok, req) = processRequestLine (take k v) (request ctx) in
           if ok
           then Consume (k + 2) (ctx\<lparr>request := req\<lparr>receiveTime := time\<rparr>, parse_state := kExpectHeaders\<rparr>) []
           else Reject (ctx\<lparr>request := req\<rparr>)))"
  "parse_state ctx = kExpectHeaders \<Longrightarrow> http_step time ctx v =
     (case search_crlf 0 v of
        None \<Rightarrow> Wait ctx
      | Some k \<Rightarrow>
          (case find_char (CHR '':'') (take k v) of
             Some colon \<Rightarrow> Consume (k + 2) (ctx\<lparr>request := addHeader (take k v) colon (request ctx)\<rparr>) []
           | None \<Rightarrow>
               (let (ok, ctx) = headersDone ctx in
                if \<not> ok then Reject ctx else Consume (k + 2) ctx [])))"
  "parse_state ctx = kExpectBody \<Longrightarrow> http_step time ctx v =
     (if length v \<ge> contentLength ctx
      then Consume (contentLength ctx)
             (ctx\<lparr>request := (request ctx)\<lparr>body := take (contentLength ctx) v\<rparr>, parse_state := kGotAll\<rparr>) []
      else Wait ctx)"
  "parse_state ctx = kGotAll \<Longrightarrow> http_step time ctx v = Wait ctx"
  by (simp_all add: http_step_def)

text \<open>A context that expects a body knows that the body is not empty.\<close>

definition context_ok :: "HttpContext \<Rightarrow> bool" where
  "context_ok ctx \<longleftrightarrow> (parse_state ctx = kExpectBody \<longrightarrow> 0 < contentLength ctx)"

lemma search_crlf_length: "search_crlf 0 v = Some k \<Longrightarrow> k + 2 \<le> length v"
  using search_crlf_Some [of 0 v k] by auto

lemma headersDone_ok: "headersDone ctx = (True, ctx') \<Longrightarrow> context_ok ctx'"
  by (auto simp: headersDone_def context_ok_def split: option.splits if_splits)

lemma http_step_consumes:
  assumes "context_ok ctx" "http_step time ctx v = Consume n ctx' os"
  shows "0 < n \<and> n \<le> length v \<and> context_ok ctx' \<and> os = []"
  using assms
  by (cases "parse_state ctx")
    (auto simp: http_step_eqs context_ok_def headersDone_def Let_def split: option.splits prod.splits if_splits
      dest: search_crlf_length)

lemma http_step_append:
  assumes "\<And>ctx'. http_step time ctx v \<noteq> Wait ctx'"
  shows "http_step time ctx (v @ w) = http_step time ctx v"
proof (cases "parse_state ctx")
  case kExpectRequestLine
  with assms [of ctx] obtain k where k: "search_crlf 0 v = Some k"
    by (cases "search_crlf 0 v") (auto simp: http_step_eqs)
  with kExpectRequestLine search_crlf_append [OF k, of w] search_crlf_length [OF k] show ?thesis
    by (simp add: http_step_eqs)
next
  case kExpectHeaders
  with assms [of ctx] obtain k where k: "search_crlf 0 v = Some k"
    by (cases "search_crlf 0 v") (auto simp: http_step_eqs)
  then have "take k (v @ w) = take k v" using search_crlf_length [OF k] by simp
  with k kExpectHeaders search_crlf_append [OF k, of w] show ?thesis
    by (simp only: http_step_eqs option.case)
next
  case kExpectBody
  with assms [of ctx] show ?thesis by (auto simp: http_step_eqs split: if_splits)
next
  case kGotAll
  with assms [of ctx] show ?thesis by (simp add: http_step_eqs)
qed

lemma http_step_wait: "http_step time ctx v = Wait ctx' \<Longrightarrow> ctx' = ctx"
  by (cases "parse_state ctx")
    (auto simp: http_step_eqs Let_def split: option.splits prod.splits if_splits)

interpretation http: incremental_parser "http_step time" "\<lambda>ctx _. context_ok ctx" for time
proof
  fix ctx v w n ctx' os
  assume ok: "context_ok ctx" and step: "http_step time ctx v = Consume n ctx' os"
  then show "http_step time ctx (v @ w) = Consume n ctx' os \<and> 0 < n \<and> n \<le> length v \<and> context_ok ctx'"
    using http_step_consumes [OF ok step] http_step_append [of time ctx v w] by simp
next
  fix ctx v w e
  assume "http_step time ctx v = Reject e"
  then show "http_step time ctx (v @ w) = Reject e" using http_step_append [of time ctx v w] by simp
next
  fix ctx v w ctx'
  assume "context_ok ctx" and step: "http_step time ctx v = Wait ctx'"
  then show "http_step time ctx' v = Wait ctx' \<and> http_step time ctx' (v @ w) = http_step time ctx (v @ w) \<and>
      context_ok ctx'"
    using http_step_wait [OF step] by simp
qed

text \<open>The loop of the code is the generic driver on the readable bytes.\<close>

lemma view_retrieveUntil:
  "buffer_ok buf \<Longrightarrow> view (retrieveUntil (peek buf + n) buf) = drop n (view buf)"
  "buffer_ok buf \<Longrightarrow> buffer_ok (retrieveUntil (peek buf + n) buf)"
  by (simp_all add: retrieveUntil_def view_simps)

lemma parseRequest_ok: "buffer_ok buf \<Longrightarrow> buffer_ok (fst (snd (parseRequest time buf ctx)))"
proof (induction time buf ctx rule: parseRequest.induct)
  case (1 time buf ctx)
  then show ?case
    by (subst parseRequest.simps)
      (auto simp: retrieveUntil_def Let_def split: HttpRequestParseState.splits option.splits prod.splits)
qed

lemma run_GotAll: "parse_state ctx = kGotAll \<Longrightarrow> run_steps (http_step time) ctx v = Inr (ctx, v, [])"
  by (simp add: run_steps.simps http_step_eqs)

lemma run_consume:
  "http_step time ctx v = Consume n ctx' [] \<Longrightarrow> 0 < n \<Longrightarrow> n \<le> length v \<Longrightarrow>
     run_steps (http_step time) ctx v = run_steps (http_step time) ctx' (drop n v)"
  by (simp add: run_steps.simps [of _ ctx] split: sum.splits prod.splits)

definition agrees :: "bool \<times> Buffer \<times> HttpContext \<Rightarrow> HttpContext + HttpContext \<times> string \<times> unit list \<Rightarrow> bool" where
  "agrees r run \<longleftrightarrow>
     (case run of
        Inl ctx \<Rightarrow> fst r = False \<and> snd (snd r) = ctx
      | Inr (ctx, rest, _) \<Rightarrow> fst r = True \<and> buffer_ok (fst (snd r)) \<and> view (fst (snd r)) = rest \<and> snd (snd r) = ctx)"

lemma parseRequest_run:
  "buffer_ok buf \<Longrightarrow> context_ok ctx \<Longrightarrow>
     agrees (parseRequest time buf ctx) (run_steps (http_step time) ctx (view buf))"
proof (induction time buf ctx rule: parseRequest.induct)
  case (1 time buf ctx)
  note ok = "1.prems"(1)
  have crlf: "findCRLF buf = map_option ((+) (peek buf)) (search_crlf 0 (view buf))" by (rule findCRLF_view)
  show ?case
  proof (cases "parse_state ctx")
    case kExpectRequestLine
    show ?thesis
    proof (cases "search_crlf 0 (view buf)")
      case None
      with kExpectRequestLine crlf ok show ?thesis
        by (simp add: parseRequest.simps [of time buf] run_steps.simps http_step_eqs agrees_def)
    next
      case (Some k)
      obtain r req where pr: "processRequestLine (take k (view buf)) (request ctx) = (r, req)" by force
      let ?ctx = "ctx\<lparr>request := req\<lparr>receiveTime := time\<rparr>, parse_state := kExpectHeaders\<rparr>"
      show ?thesis
      proof (cases r)
        case False
        with kExpectRequestLine crlf Some pr show ?thesis
          by (simp add: parseRequest.simps [of time buf] run_steps.simps http_step_eqs agrees_def)
      next
        case True
        have "agrees (parseRequest time (retrieveUntil (peek buf + k + 2) buf) ?ctx)
            (run_steps (http_step time) ?ctx (view (retrieveUntil (peek buf + k + 2) buf)))"
          using "1.IH"(1) [OF kExpectRequestLine, of "peek buf + k"] crlf Some pr True ok
            view_retrieveUntil(2) [OF ok, of "k + 2"]
          by (simp add: context_ok_def add.assoc)
        moreover have "run_steps (http_step time) ctx (view buf) =
            run_steps (http_step time) ?ctx (drop (k + 2) (view buf))"
          using kExpectRequestLine Some pr True search_crlf_length [OF Some]
          by (intro run_consume) (simp_all add: http_step_eqs)
        ultimately show ?thesis
          using kExpectRequestLine crlf Some pr True view_retrieveUntil(1) [OF ok, of "k + 2"]
          by (simp add: parseRequest.simps [of time buf ctx] add.assoc)
      qed
    qed
  next
    case kExpectHeaders
    show ?thesis
    proof (cases "search_crlf 0 (view buf)")
      case None
      with kExpectHeaders crlf ok show ?thesis
        by (simp add: parseRequest.simps [of time buf] run_steps.simps http_step_eqs agrees_def)
    next
      case (Some k)
      let ?buf = "retrieveUntil (peek buf + k + 2) buf"
      have vb: "view ?buf = drop (k + 2) (view buf)" "buffer_ok ?buf"
        using view_retrieveUntil [OF ok, of "k + 2"] by (simp_all add: add.assoc)
      show ?thesis
      proof (cases "find_char (CHR '':'') (take k (view buf))")
        case colon: (Some colon)
        let ?ctx = "ctx\<lparr>request := addHeader (take k (view buf)) colon (request ctx)\<rparr>"
        have "agrees (parseRequest time ?buf ?ctx) (run_steps (http_step time) ?ctx (view ?buf))"
          using "1.IH"(3) [OF kExpectHeaders, of "peek buf + k"] crlf Some colon vb kExpectHeaders
          by (simp add: context_ok_def add.assoc)
        moreover have "run_steps (http_step time) ctx (view buf) =
            run_steps (http_step time) ?ctx (drop (k + 2) (view buf))"
          using kExpectHeaders Some colon search_crlf_length [OF Some]
          by (intro run_consume) (simp_all add: http_step_eqs)
        ultimately show ?thesis
          using kExpectHeaders crlf Some colon vb
          by (simp add: parseRequest.simps [of time buf ctx] add.assoc)
      next
        case blank: None
        obtain r ctx1 where hd: "headersDone ctx = (r, ctx1)" by force
        show ?thesis
        proof (cases r)
          case False
          with kExpectHeaders crlf Some blank hd show ?thesis
            by (simp add: parseRequest.simps [of time buf] run_steps.simps http_step_eqs agrees_def)
        next
          case True
          have run: "run_steps (http_step time) ctx (view buf) =
              run_steps (http_step time) ctx1 (drop (k + 2) (view buf))"
            using kExpectHeaders Some blank hd True search_crlf_length [OF Some]
            by (intro run_consume) (simp_all add: http_step_eqs)
          show ?thesis
          proof (cases "0 < contentLength ctx1")
            case pos: True
            have "agrees (parseRequest time ?buf ctx1) (run_steps (http_step time) ctx1 (view ?buf))"
              using "1.IH"(2) [OF kExpectHeaders, of "peek buf + k"] crlf Some blank hd True pos vb
                headersDone_ok [of ctx ctx1]
              by (simp add: add.assoc)
            with run vb kExpectHeaders crlf Some blank hd True pos show ?thesis
              by (simp add: parseRequest.simps [of time buf ctx] add.assoc)
          next
            case zero: False
            then have "parse_state ctx1 = kGotAll"
              using hd True by (auto simp: headersDone_def split: option.splits if_splits)
            with run vb kExpectHeaders crlf Some blank hd True zero show ?thesis
              by (simp add: parseRequest.simps [of time buf ctx] run_GotAll agrees_def add.assoc)
          qed
        qed
      qed
    qed
  next
    case kExpectBody
    let ?n = "contentLength ctx"
    let ?ctx = "ctx\<lparr>request := (request ctx)\<lparr>body := take ?n (view buf)\<rparr>, parse_state := kGotAll\<rparr>"
    have n: "0 < ?n" using "1.prems"(2) kExpectBody by (simp add: context_ok_def)
    show ?thesis
    proof (cases "?n \<le> readableBytes buf")
      case True
      have "run_steps (http_step time) ctx (view buf) = run_steps (http_step time) ?ctx (drop ?n (view buf))"
        using kExpectBody True ok n by (intro run_consume) (simp_all add: http_step_eqs)
      with True kExpectBody ok show ?thesis
        by (simp add: parseRequest.simps [of time buf ctx] parseRequest.simps [of time "retrieve _ _"]
            run_GotAll agrees_def view_simps)
    next
      case False
      with kExpectBody ok show ?thesis
        by (simp add: parseRequest.simps [of time buf] run_steps.simps http_step_eqs agrees_def)
    qed
  next
    case kGotAll
    with ok show ?thesis
      by (simp add: parseRequest.simps [of time buf] run_GotAll agrees_def)
  qed
qed

section \<open>Parsing what a client writes\<close>

text \<open>The text of a request, with its header fields in the order the client sends them.\<close>

definition version_text :: "Version \<Rightarrow> string" where
  "version_text v = (case v of kHttp10 \<Rightarrow> ''HTTP/1.0'' | kHttp11 \<Rightarrow> ''HTTP/1.1'' | kUnknownVersion \<Rightarrow> [])"

definition crlf_text :: string where
  "crlf_text = [CHR 0x0D, CHR 0x0A]"

definition request_line :: "HttpRequest \<Rightarrow> string" where
  "request_line req = method2Str (http_method req) @ CHR '' '' # (path req @ query req) @ CHR '' '' #
     version_text (http_version req)"

definition header_line :: "string \<times> string \<Rightarrow> string" where
  "header_line h = fst h @ CHR '':'' # CHR '' '' # snd h"

definition header_lines :: "(string \<times> string) list \<Rightarrow> string" where
  "header_lines hs = concat (map (\<lambda>h. header_line h @ crlf_text) hs)"

definition request_text :: "(string \<times> string) list \<Rightarrow> HttpRequest \<Rightarrow> string" where
  "request_text hs req = request_line req @ crlf_text @ header_lines hs @ crlf_text @ body req"

definition header_ok :: "string \<times> string \<Rightarrow> bool" where
  "header_ok h \<longleftrightarrow> CHR '':'' \<notin> set (fst h) \<and> CHR 0x0D \<notin> set (fst h) \<and> CHR 0x0D \<notin> set (snd h) \<and>
     trim (snd h) = snd h"

definition put_headers :: "(string \<times> string) list \<Rightarrow> (string, string) std_map \<Rightarrow> (string, string) std_map" where
  "put_headers hs m = foldl (\<lambda>m h. std_assign (fst h) (snd h) m) m hs"

definition request_ok :: "(string \<times> string) list \<Rightarrow> HttpRequest \<Rightarrow> bool" where
  "request_ok hs req \<longleftrightarrow>
     http_method req \<noteq> kInvalid \<and> http_version req \<noteq> kUnknownVersion \<and>
     set (path req) \<inter> {CHR '' '', CHR ''?'', CHR 0x0D} = {} \<and>
     set (query req) \<inter> {CHR '' '', CHR 0x0D} = {} \<and>
     (query req = [] \<or> hd (query req) = CHR ''?'') \<and>
     list_all header_ok hs \<and> headers req = put_headers hs [] \<and>
     parseContentLength (headers req) = Some (length (body req))"

lemma search_crlf_line: "CHR 0x0D \<notin> set line \<Longrightarrow> search_crlf 0 (line @ crlf_text @ rest) = Some (length line)"
proof -
  assume "CHR 0x0D \<notin> set line"
  then have "\<forall>j < length line. line ! j \<noteq> CHR 0x0D" by (metis nth_mem)
  then show ?thesis
    using search_crlf_found [of line 0 rest] by (simp add: crlf_text_def nth_append)
qed

lemma setMethod_method2Str:
  "m \<noteq> kInvalid \<Longrightarrow> setMethod (method2Str m) req = (True, req\<lparr>http_method := m\<rparr>)"
  by (cases m) (simp_all add: setMethod_def method2Str_def)

lemma method2Str_chars:
  "CHR '' '' \<notin> set (method2Str m)" "CHR 0x0D \<notin> set (method2Str m)"
  by (cases m; simp add: method2Str_def)+

lemma target_split:
  assumes "CHR ''?'' \<notin> set p" "q = [] \<or> hd q = CHR ''?''"
  shows "(case find_char (CHR ''?'') (p @ q) of
            Some question \<Rightarrow> req\<lparr>path := take question (p @ q), query := drop question (p @ q)\<rparr>
          | None \<Rightarrow> req\<lparr>path := p @ q\<rparr>) =
         (if q = [] then req\<lparr>path := p\<rparr> else req\<lparr>path := p, query := q\<rparr>)"
proof (cases q)
  case Nil
  with assms show ?thesis by (simp add: find_char_None)
next
  case (Cons a q')
  with assms have "q = CHR ''?'' # q'" by simp
  with find_char_append [OF assms(1), of q'] show ?thesis by simp
qed

lemma processRequestLine_line:
  assumes "request_ok hs req"
  shows "processRequestLine (request_line req) newHttpRequest =
    (True, newHttpRequest\<lparr>http_method := http_method req, path := path req, query := query req,
       http_version := http_version req\<rparr>)"
proof -
  let ?m = "method2Str (http_method req)" and ?t = "path req @ query req"
    and ?v = "version_text (http_version req)"
  have sp: "CHR '' '' \<notin> set ?t" "CHR ''?'' \<notin> set (path req)" "query req = [] \<or> hd (query req) = CHR ''?''"
    and m: "http_method req \<noteq> kInvalid" "http_version req \<noteq> kUnknownVersion"
    using assms by (auto simp: request_ok_def)
  have line: "request_line req = ?m @ CHR '' '' # (?t @ CHR '' '' # ?v)" by (simp add: request_line_def)
  have f1: "find_char (CHR '' '') (request_line req) = Some (length ?m)"
    unfolding line by (rule find_char_append) (rule method2Str_chars)
  have f2: "find_char (CHR '' '') (?t @ CHR '' '' # ?v) = Some (length ?t)"
    by (rule find_char_append) (rule sp)
  have d: "take (length ?m) (request_line req) = ?m"
    "drop (length ?m + 1) (request_line req) = ?t @ CHR '' '' # ?v"
    "take (length ?t) (?t @ CHR '' '' # ?v) = ?t" "drop (length ?t + 1) (?t @ CHR '' '' # ?v) = ?v"
    by (simp_all add: line)
  show ?thesis
    unfolding processRequestLine_def f1 option.case d setMethod_method2Str [OF m(1)] Let_def prod.case f2
      target_split [OF sp(2,3)]
    using m(2) by (cases "http_version req") (simp_all add: version_text_def newHttpRequest_def)
qed

lemma request_line_no_CR: "request_ok hs req \<Longrightarrow> CHR 0x0D \<notin> set (request_line req)"
  using method2Str_chars(2) [of "http_method req"]
  by (cases "http_version req") (auto simp: request_ok_def request_line_def version_text_def)

lemma trim_space: "trim (CHR '' '' # s) = trim s"
  by (simp add: trim_def isspace_def)

lemma run_header_lines:
  assumes "parse_state ctx = kExpectHeaders" "list_all header_ok hs"
  shows "run_steps (http_step time) ctx (header_lines hs @ rest) =
    run_steps (http_step time)
      (ctx\<lparr>request := (request ctx)\<lparr>headers := put_headers hs (headers (request ctx))\<rparr>\<rparr>) rest"
  using assms
proof (induction hs arbitrary: ctx)
  case Nil
  then show ?case by (simp add: header_lines_def put_headers_def)
next
  case (Cons h hs)
  let ?line = "header_line h" and ?rest = "header_lines hs @ rest"
  let ?ctx = "ctx\<lparr>request := addHeader ?line (length (fst h)) (request ctx)\<rparr>"
  have h: "CHR '':'' \<notin> set (fst h)" "CHR 0x0D \<notin> set ?line" "trim (snd h) = snd h"
    using Cons.prems(2) by (auto simp: header_ok_def header_line_def)
  have txt_eq: "header_lines (h # hs) @ rest = ?line @ crlf_text @ ?rest" by (simp add: header_lines_def)
  have colon: "find_char (CHR '':'') ?line = Some (length (fst h))"
    unfolding header_line_def by (rule find_char_append) (rule h)
  have "http_step time ctx (?line @ crlf_text @ ?rest) = Consume (length ?line + 2) ?ctx []"
    using Cons.prems(1) search_crlf_line [OF h(2)] colon by (simp add: http_step_eqs)
  then have "run_steps (http_step time) ctx (header_lines (h # hs) @ rest) =
      run_steps (http_step time) ?ctx (drop (length ?line + 2) (?line @ crlf_text @ ?rest))"
    unfolding txt_eq by (rule run_consume) (simp_all add: crlf_text_def)
  also have "drop (length ?line + 2) (?line @ crlf_text @ ?rest) = ?rest" by (simp add: crlf_text_def)
  finally show ?case
    using Cons.IH [of ?ctx] Cons.prems h(3)
    by (simp add: addHeader_def put_headers_def trim_space header_line_def)
qed

lemma run_header_end:
  assumes "parse_state ctx = kExpectHeaders"
    "parseContentLength (headers (request ctx)) = Some (length b)" "body (request ctx) = []"
  shows "run_steps (http_step time) ctx (crlf_text @ b @ rest) =
    Inr (ctx\<lparr>parse_state := kGotAll, contentLength := length b, request := (request ctx)\<lparr>body := b\<rparr>\<rparr>, rest, [])"
proof -
  let ?ctx = "ctx\<lparr>contentLength := length b, parse_state := (if b = [] then kGotAll else kExpectBody)\<rparr>"
  have "headersDone ctx = (True, ?ctx)" using assms(2) by (simp add: headersDone_def)
  then have "http_step time ctx (crlf_text @ b @ rest) = Consume (0 + 2) ?ctx []"
    using assms(1) search_crlf_line [of "[]" "b @ rest"]
    by (simp add: http_step_eqs find_char_def)
  then have "run_steps (http_step time) ctx (crlf_text @ b @ rest) =
      run_steps (http_step time) ?ctx (drop (0 + 2) (crlf_text @ b @ rest))"
    by (rule run_consume) (simp_all add: crlf_text_def)
  also have "drop (0 + 2) (crlf_text @ b @ rest) = b @ rest" by (simp add: crlf_text_def)
  finally have run: "run_steps (http_step time) ctx (crlf_text @ b @ rest) =
      run_steps (http_step time) ?ctx (b @ rest)" .
  show ?thesis
  proof (cases "b = []")
    case True
    with run assms(3) show ?thesis by (simp add: run_GotAll)
  next
    case False
    let ?done = "?ctx\<lparr>request := (request ?ctx)\<lparr>body := b\<rparr>, parse_state := kGotAll\<rparr>"
    from False have "http_step time ?ctx (b @ rest) = Consume (length b) ?done []"
      by (simp add: http_step_eqs)
    then have "run_steps (http_step time) ?ctx (b @ rest) =
        run_steps (http_step time) ?done (drop (length b) (b @ rest))"
      by (rule run_consume) (use False in simp_all)
    with run show ?thesis by (simp add: run_GotAll)
  qed
qed

definition parsed_context :: "int \<Rightarrow> HttpRequest \<Rightarrow> HttpContext" where
  "parsed_context time req = \<lparr>parse_state = kGotAll, request = req\<lparr>receiveTime := time\<rparr>,
     contentLength = length (body req)\<rparr>"

lemma run_request_text:
  assumes "request_ok hs req"
  shows "run_steps (http_step time) newHttpContext (request_text hs req @ rest) =
    Inr (parsed_context time req, rest, [])"
proof -
  let ?req = "newHttpRequest\<lparr>http_method := http_method req, path := path req, query := query req,
       http_version := http_version req, receiveTime := time\<rparr>"
  let ?ctx = "newHttpContext\<lparr>request := ?req, parse_state := kExpectHeaders\<rparr>"
  let ?tail = "header_lines hs @ crlf_text @ body req @ rest"
  have txt_eq: "request_text hs req @ rest = request_line req @ crlf_text @ ?tail"
    by (simp add: request_text_def)
  have "http_step time newHttpContext (request_line req @ crlf_text @ ?tail) =
      Consume (length (request_line req) + 2) ?ctx []"
    using search_crlf_line [OF request_line_no_CR [OF assms]] processRequestLine_line [OF assms]
    by (simp add: http_step_def newHttpContext_def)
  then have "run_steps (http_step time) newHttpContext (request_text hs req @ rest) =
      run_steps (http_step time) ?ctx
        (drop (length (request_line req) + 2) (request_line req @ crlf_text @ ?tail))"
    unfolding txt_eq by (rule run_consume) (simp_all add: crlf_text_def)
  also have "drop (length (request_line req) + 2) (request_line req @ crlf_text @ ?tail) = ?tail"
    by (simp add: crlf_text_def)
  also have "run_steps (http_step time) ?ctx ?tail =
      run_steps (http_step time) (?ctx\<lparr>request := ?req\<lparr>headers := headers req\<rparr>\<rparr>) (crlf_text @ body req @ rest)"
    using run_header_lines [of ?ctx hs time "crlf_text @ body req @ rest"] assms
    by (simp add: request_ok_def newHttpRequest_def)
  also have "\<dots> = Inr (parsed_context time req, rest, [])"
    using assms
    by (subst run_header_end)
      (auto simp: request_ok_def newHttpContext_def newHttpRequest_def parsed_context_def)
  finally show ?thesis .
qed

end
