(* ===== verification/HttpServer.thy ===== *)
theory HttpServer
  imports Http TcpConnection
begin

text \<open>
  HTTP responses, the HTTP server and the router (\<open>src/http/HttpResponse.cc\<close>,
  \<open>src/http/HttpServer.cc\<close>, \<open>src/api/Router.cc\<close>).

  The server answers on the \<open>TcpConnection\<close> of the network library; the bytes of the connection
  are its input buffer, and the parser state that the code keeps in the connection's context is
  carried beside it. The user's callback is a function on the request, the prepared response and
  whatever state \<open>'w\<close> its closure refers to.
\<close>

section \<open>Responses\<close>

datatype HttpStatusCode =
    kUnknown
  | k200Ok
  | k301MovedPermanently
  | k400BadRequest
  | k401Unauthorized
  | k404NotFound

fun status_int :: "HttpStatusCode \<Rightarrow> nat" where
  "status_int kUnknown = 0"
| "status_int k200Ok = 200"
| "status_int k301MovedPermanently = 301"
| "status_int k400BadRequest = 400"
| "status_int k401Unauthorized = 401"
| "status_int k404NotFound = 404"

record HttpResponse =
  resp_headers :: "(string, string) std_map"
  statusCode :: HttpStatusCode
  statusMessage :: string
  closeConnection :: bool
  resp_body :: string

definition newHttpResponse :: "bool \<Rightarrow> HttpResponse" where
  "newHttpResponse close = \<lparr>resp_headers = [], statusCode = kUnknown, statusMessage = [],
     closeConnection = close, resp_body = []\<rparr>"

definition resp_addHeader :: "string \<Rightarrow> string \<Rightarrow> HttpResponse \<Rightarrow> HttpResponse" where
  "resp_addHeader field v r = r\<lparr>resp_headers := std_assign field v (resp_headers r)\<rparr>"

definition setContentType :: "string \<Rightarrow> HttpResponse \<Rightarrow> HttpResponse" where
  "setContentType contentType r = resp_addHeader ''Content-Type'' contentType r"

definition append_header :: "Buffer \<Rightarrow> string \<times> string \<Rightarrow> Buffer" where
  "append_header output h = buf_append (fst h @ '': '' @ snd h @ crlf_text) output"

definition appendToBuffer :: "HttpResponse \<Rightarrow> Buffer \<Rightarrow> Buffer" where
  "appendToBuffer r output =
     (let output = buf_append (''HTTP/1.1 '' @ to_string (status_int (statusCode r)) @ '' '' @
            statusMessage r @ crlf_text) output;
          output = (if closeConnection r
                    then buf_append (''Connection: close'' @ crlf_text) output
                    else buf_append (''Connection: Keep-Alive'' @ crlf_text)
                           (buf_append (''Content-Length: '' @ to_string (length (resp_body r)) @ crlf_text) output));
          output = foldl append_header output (resp_headers r)
      in buf_append (resp_body r) (buf_append crlf_text output))"

section \<open>The server\<close>

type_synonym 'w HttpCallback = "HttpRequest \<Rightarrow> HttpResponse \<Rightarrow> 'w \<Rightarrow> HttpResponse \<times> 'w"

definition BADREQUEST :: string where
  "BADREQUEST = ''HTTP/1.1 400 Bad Request'' @ crlf_text @ crlf_text"

definition defaultHttpCallback :: "'w HttpCallback" where
  "defaultHttpCallback req resp w =
     (resp\<lparr>statusCode := k404NotFound, statusMessage := ''Not Found'', closeConnection := True\<rparr>, w)"

definition wants_close :: "HttpRequest \<Rightarrow> bool" where
  "wants_close req \<longleftrightarrow>
     (let connection = getHeader ''Connection'' req in
      connection = ''close'' \<or> (http_version req = kHttp10 \<and> connection \<noteq> ''Keep-Alive''))"

definition onRequest ::
  "(string \<Rightarrow> int + nat) \<Rightarrow> 'w HttpCallback \<Rightarrow> HttpRequest \<Rightarrow> TcpConnection \<times> 'w \<Rightarrow> TcpConnection \<times> 'w" where
  "onRequest write httpCallback req cw =
     (let (c, w) = cw;
          (response, w) = httpCallback req (newHttpResponse (wants_close req)) w;
          buf = appendToBuffer response (newBuffer kInitialSize);
          c = send write True (view buf) c;
          c = (if closeConnection response then shutdown True c else c)
      in (c, w))"

text \<open>The connection, its context (absent until the connection callback has run) and the callback's state.\<close>

type_synonym 'w http_conn = "TcpConnection \<times> HttpContext \<times> 'w"

definition http_onConnection :: "TcpConnection \<Rightarrow> HttpContext option \<Rightarrow> HttpContext option" where
  "http_onConnection c ctx = (if connected c then Some newHttpContext else ctx)"

definition http_onMessage ::
  "(string \<Rightarrow> int + nat) \<Rightarrow> 'w HttpCallback \<Rightarrow> int \<Rightarrow> 'w http_conn \<Rightarrow> 'w http_conn" where
  "http_onMessage write httpCallback time s =
     (let (c, ctx, w) = s;
          (ok, buf, ctx) = parseRequest time (inputBuffer c) ctx;
          c = c\<lparr>inputBuffer := buf\<rparr>;
          c = (if \<not> ok then shutdown True (send write True BADREQUEST c) else c)
      in
      if gotAll ctx then
        (let (c, w) = onRequest write httpCallback (request ctx) (c, w) in (c, reset ctx, w))
      else (c, ctx, w))"

section \<open>Routing\<close>

type_synonym 'w Router = "Method \<times> string \<rightharpoonup> 'w HttpCallback"

definition addRoute :: "Method \<Rightarrow> string \<Rightarrow> 'w HttpCallback \<Rightarrow> 'w Router \<Rightarrow> 'w Router" where
  "addRoute method p handler routes = routes((method, p) \<mapsto> handler)"

definition router_get :: "string \<Rightarrow> 'w HttpCallback \<Rightarrow> 'w Router \<Rightarrow> 'w Router" where
  "router_get p handler routes = addRoute kGet p handler routes"

definition router_post :: "string \<Rightarrow> 'w HttpCallback \<Rightarrow> 'w Router \<Rightarrow> 'w Router" where
  "router_post p handler routes = addRoute kPost p handler routes"

definition route :: "'w Router \<Rightarrow> 'w HttpCallback" where
  "route routes req resp w =
     (case routes (http_method req, path req) of
        None \<Rightarrow>
          ((setContentType ''application/json''
             (resp\<lparr>statusCode := k404NotFound, statusMessage := ''Not Found''\<rparr>))
             \<lparr>resp_body := makeError 404 ''not found''\<rparr>, w)
      | Some handler \<Rightarrow> handler req resp w)"

section \<open>The text of a response\<close>

definition response_text :: "HttpResponse \<Rightarrow> string" where
  "response_text r =
     ''HTTP/1.1 '' @ to_string (status_int (statusCode r)) @ '' '' @ statusMessage r @ crlf_text @
     header_lines
       ((if closeConnection r then [(''Connection'', ''close'')]
         else [(''Content-Length'', to_string (length (resp_body r))), (''Connection'', ''Keep-Alive'')]) @
        resp_headers r) @
     crlf_text @ resp_body r"

lemma header_lines_simps:
  "header_lines [] = []" "header_lines (h # hs) = header_line h @ crlf_text @ header_lines hs"
  by (simp_all add: header_lines_def)

lemma view_append_headers:
  "buffer_ok b \<Longrightarrow> buffer_ok (foldl append_header b hs) \<and>
     view (foldl append_header b hs) = view b @ header_lines hs"
  by (induction hs arbitrary: b)
    (simp_all add: header_lines_simps header_line_def append_header_def view_simps)

lemma view_appendToBuffer:
  assumes "buffer_ok b"
  shows "buffer_ok (appendToBuffer r b)" "view (appendToBuffer r b) = view b @ response_text r"
  using assms
  by (simp_all add: appendToBuffer_def response_text_def Let_def view_append_headers view_simps
      header_lines_simps header_line_def)

section \<open>Answering a request\<close>

text \<open>A segment arrives: the connection appends it to its input buffer and calls the server.\<close>

definition http_deliver ::
  "(string \<Rightarrow> int + nat) \<Rightarrow> 'w HttpCallback \<Rightarrow> int \<Rightarrow> string \<Rightarrow> 'w http_conn \<Rightarrow> 'w http_conn" where
  "http_deliver write cb time seg s =
     (let (c, ctx, w) = s in
      http_onMessage write cb time (c\<lparr>inputBuffer := buf_append seg (inputBuffer c)\<rparr>, ctx, w))"

lemma send_keeps_input [simp]: "inputBuffer (send write l d c) = inputBuffer c"
  by (auto simp: send_def sendInLoop_def queueInLoop_def Let_def split: sum.splits)

lemma shutdown_keeps_input [simp]: "inputBuffer (shutdown l c) = inputBuffer c"
  by (auto simp: shutdown_def shutdownInLoop_def queueInLoop_def Let_def)

lemma conn_inv_set_input: "conn_inv c \<Longrightarrow> buffer_ok b \<Longrightarrow> conn_inv (c\<lparr>inputBuffer := b\<rparr>)"
  by (simp add: conn_inv_def)

lemma out_stream_set_input [simp]: "out_stream (c\<lparr>inputBuffer := b\<rparr>) = out_stream c"
  by (simp add: out_stream_def)

lemma conn_inv_input_ok: "conn_inv c \<Longrightarrow> buffer_ok (inputBuffer c)"
  by (simp add: conn_inv_def)

text \<open>The state in which the server has answered with \<open>resp\<close> and waits for the next call, with \<open>rest\<close> unread.\<close>

definition answered ::
  "TcpConnection \<Rightarrow> HttpResponse \<Rightarrow> 'w \<Rightarrow> string \<Rightarrow> 'w http_conn \<Rightarrow> bool" where
  "answered c0 resp w0 rest s \<longleftrightarrow>
     (case s of (c, ctx, w) \<Rightarrow>
        conn_inv c \<and> ctx = newHttpContext \<and> w = w0 \<and> view (inputBuffer c) = rest \<and>
        out_stream c = out_stream c0 @ response_text resp \<and>
        state c = (if closeConnection resp then kDisconnecting else kConnected))"

lemma onRequest_effect:
  assumes "conn_inv c" "state c = kConnected" "benign_write write"
    "cb req (newHttpResponse (wants_close req)) w = (resp, w')" "view (inputBuffer c) = rest"
  obtains c' where "onRequest write cb req (c, w) = (c', w')" "answered c resp w' rest (c', newHttpContext, w')"
proof -
  let ?c = "sendInLoop write (response_text resp) c"
  have txt_eq: "view (appendToBuffer resp (newBuffer kInitialSize)) = response_text resp"
    by (simp add: view_appendToBuffer view_simps)
  note eff = sendInLoop_effect [OF assms(1,3,2), of "response_text resp"]
  have send: "send write True (response_text resp) c = ?c" using assms(2) by (simp add: send_def)
  have "inputBuffer ?c = inputBuffer c" using send_keeps_input [of "write" True "response_text resp" c] send by simp
  with eff shutdown_effect [OF eff(1)] assms(5)
  have "answered c resp w' rest (if closeConnection resp then shutdown True ?c else ?c, newHttpContext, w')"
    by (simp add: answered_def)
  moreover have "onRequest write cb req (c, w) = (if closeConnection resp then shutdown True ?c else ?c, w')"
    using assms(4) send txt_eq by (simp add: onRequest_def Let_def)
  ultimately show ?thesis using that by blast
qed

lemma http_deliver_parsed:
  assumes "conn_inv c" "context_ok ctx"
    "run_steps (http_step time) ctx (view (inputBuffer c) @ seg) = Inr (ctx', rest, os)"
  obtains b where "buffer_ok b" "view b = rest"
    "parseRequest time (buf_append seg (inputBuffer c)) ctx = (True, b, ctx')"
proof -
  let ?b = "buf_append seg (inputBuffer c)"
  have ok: "buffer_ok (inputBuffer c)" using assms(1) by (rule conn_inv_input_ok)
  obtain r b c1 where p: "parseRequest time ?b ctx = (r, b, c1)" by (cases "parseRequest time ?b ctx")
  have "agrees (parseRequest time ?b ctx) (run_steps (http_step time) ctx (view ?b))"
    using ok assms(2) by (intro parseRequest_run) simp_all
  with that p assms(3) ok show ?thesis by (simp add: agrees_def view_simps)
qed

lemma http_deliver_waits:
  assumes "conn_inv c" "context_ok ctx"
    "run_steps (http_step time) ctx (view (inputBuffer c) @ seg) = Inr (ctx', rest, os)"
    "parse_state ctx' \<noteq> kGotAll"
  obtains b where "buffer_ok b" "view b = rest"
    "http_deliver write cb time seg (c, ctx, w) = (c\<lparr>inputBuffer := b\<rparr>, ctx', w)"
  by (rule http_deliver_parsed [OF assms(1-3)])
    (use that assms(4) in \<open>simp add: http_deliver_def http_onMessage_def gotAll_def\<close>)

lemma http_deliver_answers:
  assumes "conn_inv c" "state c = kConnected" "benign_write write" "context_ok ctx"
    "run_steps (http_step time) ctx (view (inputBuffer c) @ seg) = Inr (ctx', rest, os)"
    "parse_state ctx' = kGotAll" "cb (request ctx') (newHttpResponse (wants_close (request ctx'))) w = (resp, w')"
  shows "answered c resp w' rest (http_deliver write cb time seg (c, ctx, w))"
proof -
  obtain b where b: "buffer_ok b" "view b = rest"
    and p: "parseRequest time (buf_append seg (inputBuffer c)) ctx = (True, b, ctx')"
    by (rule http_deliver_parsed [OF assms(1,4,5)])
  let ?c = "c\<lparr>inputBuffer := b\<rparr>"
  have "conn_inv ?c" "state ?c = kConnected" "view (inputBuffer ?c) = rest"
    using assms(1,2) b conn_inv_set_input [of c b] by simp_all
  from onRequest_effect [where cb = cb and req = "request ctx'" and w = w, OF this(1,2) assms(3,7) this(3)]
  obtain c' where "onRequest write cb (request ctx') (?c, w) = (c', w')"
    and a: "answered ?c resp w' rest (c', newHttpContext, w')" .
  with p assms(6) have "http_deliver write cb time seg (c, ctx, w) = (c', newHttpContext, w')"
    by (simp add: http_deliver_def http_onMessage_def gotAll_def reset_def)
  with a show ?thesis by (simp add: answered_def)
qed

lemma deliver_empty:
  assumes "concat segs = []" "answered c0 resp w [] s"
  shows "answered c0 resp w [] (fold (http_deliver write cb time) segs s)"
  using assms
proof (induction segs arbitrary: s)
  case (Cons seg segs)
  obtain c ctx w1 where s: "s = (c, ctx, w1)" by (cases s)
  with Cons.prems(2) have c: "conn_inv c" "ctx = newHttpContext" "view (inputBuffer c) = []" "w1 = w"
    by (simp_all add: answered_def)
  have "run_steps (http_step time) ctx (view (inputBuffer c) @ []) = Inr (newHttpContext, [], [])"
    using c by (simp add: run_steps.simps http_step_def newHttpContext_def)
  then obtain b where b: "buffer_ok b" "view b = []"
    "http_deliver write cb time [] (c, ctx, w1) = (c\<lparr>inputBuffer := b\<rparr>, newHttpContext, w1)"
    by (rule http_deliver_waits [OF c(1), rotated])
      (simp_all add: c context_ok_def newHttpContext_def)
  have "answered c0 resp w [] (c\<lparr>inputBuffer := b\<rparr>, newHttpContext, w1)"
    using Cons.prems(2) c b s conn_inv_set_input [OF c(1) b(1)] by (simp add: answered_def)
  with Cons.IH [of "(c\<lparr>inputBuffer := b\<rparr>, newHttpContext, w1)"] Cons.prems(1) b s show ?case by simp
qed simp

lemma deliver_answers:
  assumes "conn_inv c" "state c = kConnected" "benign_write write" "context_ok ctx"
    "http_step time ctx (view (inputBuffer c)) = Wait ctx" "parse_state ctx \<noteq> kGotAll"
    "run_steps (http_step time) ctx (view (inputBuffer c) @ concat segs) = Inr (fin, [], os)"
    "parse_state fin = kGotAll" "cb (request fin) (newHttpResponse (wants_close (request fin))) w = (resp, w')"
  shows "answered c resp w' [] (fold (http_deliver write cb time) segs (c, ctx, w))"
  using assms
proof (induction segs arbitrary: c ctx os)
  case Nil
  then show ?case by (auto simp: run_steps.simps [of _ ctx])
next
  case (Cons seg segs)
  let ?v = "view (inputBuffer c) @ seg" and ?w = "concat segs"
  note app = http.run_append [where s = ctx and v = ?v and w = ?w and time = time, OF Cons.prems(4)]
  from app Cons.prems(7) obtain ctx1 rest os1 where r1: "run_steps (http_step time) ctx ?v = Inr (ctx1, rest, os1)"
    by (cases "run_steps (http_step time) ctx ?v") auto
  from app r1 Cons.prems(7) obtain os2 where r2: "run_steps (http_step time) ctx1 (rest @ ?w) = Inr (fin, [], os2)"
    by (auto split: sum.splits)
  show ?case
  proof (cases "parse_state ctx1 = kGotAll")
    case True
    with r2 have e: "rest = []" "?w = []" "fin = ctx1" by (auto simp: run_GotAll)
    have "answered c resp w' [] (http_deliver write cb time seg (c, ctx, w))"
      using Cons.prems r1 e by (intro http_deliver_answers [where ctx' = fin and os = os1]) simp_all
    with deliver_empty [OF e(2)] show ?thesis by simp
  next
    case False
    obtain b where b: "buffer_ok b" "view b = rest"
      and d: "http_deliver write cb time seg (c, ctx, w) = (c\<lparr>inputBuffer := b\<rparr>, ctx1, w)"
      by (rule http_deliver_waits [OF Cons.prems(1,4) r1 False])
    let ?c = "c\<lparr>inputBuffer := b\<rparr>"
    have "context_ok ctx1" using http.run_good [OF _ r1] Cons.prems(4) by simp
    moreover have "http_step time ctx1 rest = Wait ctx1"
      using http.run_ends_waiting [OF _ r1] Cons.prems(4) by simp
    ultimately have "answered ?c resp w' [] (fold (http_deliver write cb time) segs (?c, ctx1, w))"
      using Cons.prems(1-3,8,9) b r2 False conn_inv_set_input [OF Cons.prems(1) b(1)]
      by (intro Cons.IH [where os = os2]) simp_all
    with d show ?thesis by (simp add: answered_def)
  qed
qed

text \<open>
  A well-formed request gets exactly one answer, however TCP cuts it up. For every request,
  with its headers in any order, every callback and every way to split the text of the request
  into segments, the server calls the callback on exactly that request and sends exactly the text
  of the callback's response; then it has consumed all input, is ready for the next request, and
  has started to close the connection exactly when the response asks for that.
\<close>

theorem http_request_answered:
  assumes "conn_inv c" "state c = kConnected" "view (inputBuffer c) = []" "benign_write write"
    "request_ok hs req" "concat segs = request_text hs req"
    "cb (req\<lparr>receiveTime := time\<rparr>) (newHttpResponse (wants_close req)) w = (resp, w')"
  shows "\<exists>c'. fold (http_deliver write cb time) segs (c, newHttpContext, w) = (c', newHttpContext, w') \<and>
    wire c' @ view (outputBuffer c') = wire c @ view (outputBuffer c) @ response_text resp \<and>
    view (inputBuffer c') = [] \<and> conn_inv c' \<and>
    state c' = (if closeConnection resp then kDisconnecting else kConnected)"
proof -
  have w: "wants_close (req\<lparr>receiveTime := time\<rparr>) = wants_close req"
    by (simp add: wants_close_def getHeader_def)
  have "answered c resp w' [] (fold (http_deliver write cb time) segs (c, newHttpContext, w))"
    using assms run_request_text [OF assms(5), of time "[]"] w
    by (intro deliver_answers [where fin = "parsed_context time req" and os = "[]"])
      (simp_all add: parsed_context_def http_step_def newHttpContext_def context_ok_def)
  then show ?thesis by (auto simp: answered_def out_stream_def split: prod.splits)
qed

text \<open>A request with a body, cut inside the request line, a header and the body; the peer reads slowly.\<close>

definition sample_headers :: "(string \<times> string) list" where
  "sample_headers = [(''Host'', ''a''), (''Content-Length'', ''2'')]"

definition sample_request :: HttpRequest where
  "sample_request = \<lparr>http_method = kPost, http_version = kHttp11, path = ''/x'', query = ''?q=1'',
     body = ''{}'', receiveTime = 0, headers = [(''Content-Length'', ''2''), (''Host'', ''a'')]\<rparr>"

definition sample_segments :: "string list" where
  "sample_segments =
     (let t = request_text sample_headers sample_request in
      [take 7 t, take 30 (drop 7 t), take 13 (drop 37 t), drop 50 t])"

definition slow_write :: "string \<Rightarrow> int + nat" where
  "slow_write d = Inr (min 3 (length d))"

lemma slow_write_benign: "benign_write slow_write"
  by (simp add: benign_write_def slow_write_def)

lemma established_facts:
  "state (connectEstablished newTcpConnection) = kConnected"
  "view (inputBuffer (connectEstablished newTcpConnection)) = []"
  "wire (connectEstablished newTcpConnection) = []"
  "view (outputBuffer (connectEstablished newTcpConnection)) = []"
  by (simp_all add: connectEstablished_def callback_def newTcpConnection_def view_simps)

lemma sample_request_ok: "request_ok sample_headers sample_request"
proof -
  have "headers sample_request = put_headers sample_headers []" "list_all header_ok sample_headers" by code_simp+
  moreover have "parseContentLength (headers sample_request) = Some (length (body sample_request))"
    by (simp add: sample_request_def equalCaseInsensitive_def tolower_def trim_def isspace_def
        from_chars_def is_digit_def from_digits_def)
  ultimately show ?thesis by (simp add: request_ok_def) (simp add: sample_request_def)
qed

theorem http_request_answered_witness:
  "request_ok sample_headers sample_request \<and>
   (\<exists>c'. fold (http_deliver slow_write defaultHttpCallback 5) sample_segments
       (connectEstablished newTcpConnection, newHttpContext, ()) = (c', newHttpContext, ()) \<and>
     wire c' @ view (outputBuffer c') =
       ''HTTP/1.1 404 Not Found'' @ crlf_text @ ''Connection: close'' @ crlf_text @ crlf_text \<and>
     view (inputBuffer c') = [] \<and> conn_inv c' \<and> state c' = kDisconnecting)"
proof -
  let ?c = "connectEstablished newTcpConnection"
  let ?resp = "(newHttpResponse (wants_close sample_request))\<lparr>statusCode := k404NotFound,
     statusMessage := ''Not Found'', closeConnection := True\<rparr>"
  have ok: "request_ok sample_headers sample_request" by (rule sample_request_ok)
  have "concat sample_segments = request_text sample_headers sample_request" by code_simp
  moreover have "response_text ?resp =
      ''HTTP/1.1 404 Not Found'' @ crlf_text @ ''Connection: close'' @ crlf_text @ crlf_text"
    by code_simp
  ultimately show ?thesis
    using ok http_request_answered [OF established_inv, of slow_write sample_headers sample_request
        sample_segments defaultHttpCallback 5 "()" ?resp "()"] established_facts slow_write_benign
    by (simp add: defaultHttpCallback_def)
qed

text \<open>
  Of two requests that arrive in one segment only the first is answered: the callback runs
  once, one response is sent, and the complete second request stays in the input buffer until the
  peer sends something more.
\<close>

theorem pipelined_request_waits:
  assumes "conn_inv c" "state c = kConnected" "view (inputBuffer c) = []" "benign_write write"
    "request_ok hs req"
    "cb (req\<lparr>receiveTime := time\<rparr>) (newHttpResponse (wants_close req)) w = (resp, w')"
  shows "\<exists>c'. http_deliver write cb time (request_text hs req @ request_text hs2 req2) (c, newHttpContext, w)
      = (c', newHttpContext, w') \<and>
    wire c' @ view (outputBuffer c') = wire c @ view (outputBuffer c) @ response_text resp \<and>
    view (inputBuffer c') = request_text hs2 req2"
proof -
  have w: "wants_close (req\<lparr>receiveTime := time\<rparr>) = wants_close req"
    by (simp add: wants_close_def getHeader_def)
  have "answered c resp w' (request_text hs2 req2)
      (http_deliver write cb time (request_text hs req @ request_text hs2 req2) (c, newHttpContext, w))"
    using assms run_request_text [OF assms(5), of time "request_text hs2 req2"] w
    by (intro http_deliver_answers [where ctx' = "parsed_context time req" and os = "[]"])
      (simp_all add: parsed_context_def newHttpContext_def context_ok_def)
  then show ?thesis by (auto simp: answered_def out_stream_def split: prod.splits)
qed

theorem pipelined_request_waits_witness:
  "\<exists>c'. http_deliver slow_write (\<lambda>req resp n. (resp, Suc n)) 5
      (request_text sample_headers sample_request @ request_text sample_headers sample_request)
      (connectEstablished newTcpConnection, newHttpContext, 0) = (c', newHttpContext, 1) \<and>
    view (inputBuffer c') = request_text sample_headers sample_request"
  using pipelined_request_waits [OF established_inv established_facts(1,2) slow_write_benign sample_request_ok,
      of "\<lambda>req resp n. (resp, Suc n)" 5 0 "newHttpResponse (wants_close sample_request)" 1
        sample_headers sample_request]
  by auto

text \<open>A line without a colon ends the header section even when it is not empty.\<close>

lemma line_without_colon_ends_headers:
  "case parseRequest 0
      (buf_append (''GET / HTTP/1.1'' @ crlf_text @ ''garbage'' @ crlf_text @ ''Host: a'' @ crlf_text @ crlf_text)
        (newBuffer 60)) newHttpContext of
    (ok, buf, ctx) \<Rightarrow> ok \<and> gotAll ctx \<and> headers (request ctx) = [] \<and> view buf = ''Host: a'' @ crlf_text @ crlf_text"
  by code_simp

section \<open>Refusing a request\<close>

lemma search_crlf_prefix:
  assumes "CHR 0x0D \<notin> set line" "v @ w = line @ crlf_text" "w \<noteq> []"
  shows "search_crlf 0 v = None"
proof (cases "search_crlf 0 v")
  case (Some k)
  with search_crlf_append [OF Some, of w] search_crlf_line [OF assms(1), of "[]"] assms(2)
  have "k = length line" by simp
  with search_crlf_length [OF Some] have "length (line @ crlf_text) \<le> length v" by (simp add: crlf_text_def)
  also have "\<dots> < length (v @ w)" using assms(3) by simp
  finally show ?thesis using assms(2) by simp
qed simp

lemma run_no_line: "search_crlf 0 v = None \<Longrightarrow> run_steps (http_step time) newHttpContext v = Inr (newHttpContext, v, [])"
  by (simp add: run_steps.simps http_step_def newHttpContext_def)

lemma deliver_prefix:
  assumes "conn_inv c" "CHR 0x0D \<notin> set line" "view (inputBuffer c) @ concat segs @ w = line @ crlf_text" "w \<noteq> []"
  shows "\<exists>b. buffer_ok b \<and> view b = view (inputBuffer c) @ concat segs \<and>
    fold (http_deliver write cb time) segs (c, newHttpContext, x) = (c\<lparr>inputBuffer := b\<rparr>, newHttpContext, x)"
  using assms
proof (induction segs arbitrary: c)
  case Nil
  then show ?case by (auto intro!: exI [of _ "inputBuffer c"] simp: conn_inv_def)
next
  case (Cons seg segs)
  let ?v = "view (inputBuffer c) @ seg"
  have "search_crlf 0 ?v = None"
    using Cons.prems(3,4) by (intro search_crlf_prefix [OF Cons.prems(2), of _ "concat segs @ w"]) simp_all
  note run = run_no_line [OF this, of time]
  obtain b where b: "buffer_ok b" "view b = ?v"
    and d: "http_deliver write cb time seg (c, newHttpContext, x) = (c\<lparr>inputBuffer := b\<rparr>, newHttpContext, x)"
    by (rule http_deliver_waits [OF Cons.prems(1) _ run]) (simp_all add: context_ok_def newHttpContext_def)
  with Cons.IH [of "c\<lparr>inputBuffer := b\<rparr>"] Cons.prems conn_inv_set_input [OF Cons.prems(1) b(1)]
  show ?case by simp
qed

lemma http_deliver_rejects:
  assumes "conn_inv c" "state c = kConnected" "benign_write write" "context_ok ctx"
    "run_steps (http_step time) ctx (view (inputBuffer c) @ seg) = Inl ctx'" "\<not> gotAll ctx'"
  shows "\<exists>c'. http_deliver write cb time seg (c, ctx, w) = (c', ctx', w) \<and> conn_inv c' \<and>
    out_stream c' = out_stream c @ BADREQUEST \<and> state c' = kDisconnecting"
proof -
  let ?b = "buf_append seg (inputBuffer c)"
  have ok: "buffer_ok (inputBuffer c)" using assms(1) by (rule conn_inv_input_ok)
  obtain r b c1 where p: "parseRequest time ?b ctx = (r, b, c1)" by (cases "parseRequest time ?b ctx")
  have "agrees (parseRequest time ?b ctx) (run_steps (http_step time) ctx (view ?b))"
    using ok assms(4) by (intro parseRequest_run) simp_all
  with p assms(5) ok have r: "\<not> r" "c1 = ctx'" and b: "buffer_ok b"
    using parseRequest_ok [of ?b time ctx] by (simp_all add: agrees_def view_simps)
  let ?c = "c\<lparr>inputBuffer := b\<rparr>"
  let ?sent = "sendInLoop write BADREQUEST ?c"
  have inv: "conn_inv ?c" "state ?c = kConnected" using assms(1,2) b conn_inv_set_input [of c b] by simp_all
  note eff = sendInLoop_effect [OF inv(1) assms(3) inv(2), of BADREQUEST]
  have "http_deliver write cb time seg (c, ctx, w) = (shutdown True ?sent, ctx', w)"
    using p r assms(2,6) by (simp add: http_deliver_def http_onMessage_def send_def)
  with eff shutdown_effect [OF eff(1)] show ?thesis by simp
qed

text \<open>
  C36: A request line that the server cannot parse is refused. However the line is cut into
  segments, the server sends exactly the 400 response and starts to close the connection as soon
  as the end of the line has arrived, and it never calls the callback.
\<close>

theorem http_bad_request:
  assumes "conn_inv c" "state c = kConnected" "view (inputBuffer c) = []" "benign_write write"
    "CHR 0x0D \<notin> set line" "\<not> fst (processRequestLine line newHttpRequest)"
    "concat segs @ seg = line @ crlf_text" "seg \<noteq> []"
  shows "\<exists>c' ctx'. fold (http_deliver write cb time) (segs @ [seg]) (c, newHttpContext, w) = (c', ctx', w) \<and>
    wire c' @ view (outputBuffer c') = wire c @ view (outputBuffer c) @ BADREQUEST \<and>
    state c' = kDisconnecting"
proof -
  obtain b where b: "buffer_ok b" "view b = concat segs"
    and d: "fold (http_deliver write cb time) segs (c, newHttpContext, w) = (c\<lparr>inputBuffer := b\<rparr>, newHttpContext, w)"
    using deliver_prefix [OF assms(1,5), of segs seg "write" cb time w] assms(3,7,8) by auto
  let ?c = "c\<lparr>inputBuffer := b\<rparr>"
  obtain req where req: "processRequestLine line newHttpRequest = (False, req)"
    using assms(6) by (cases "processRequestLine line newHttpRequest") simp
  have "run_steps (http_step time) newHttpContext (view (inputBuffer ?c) @ seg) =
      Inl (newHttpContext\<lparr>request := req\<rparr>)"
    using search_crlf_line [OF assms(5), of "[]"] req b(2) assms(7)
    by (simp add: run_steps.simps http_step_def newHttpContext_def)
  then obtain c' where "http_deliver write cb time seg (?c, newHttpContext, w) =
      (c', newHttpContext\<lparr>request := req\<rparr>, w)" "out_stream c' = out_stream ?c @ BADREQUEST" "state c' = kDisconnecting"
    using http_deliver_rejects [OF conn_inv_set_input [OF assms(1) b(1)] _ assms(4), of newHttpContext time seg _ cb w]
      assms(2) by (fastforce simp: context_ok_def newHttpContext_def gotAll_def)
  with d show ?thesis by (auto simp: out_stream_def)
qed

theorem http_bad_request_witness:
  "\<exists>c' ctx'. fold (http_deliver slow_write (\<lambda>req resp n. (resp, Suc n)) 5) ([''BREW /x HT'', ''TP/1.1'' @ [CHR 0x0D]] @ [[CHR 0x0A]])
      (connectEstablished newTcpConnection, newHttpContext, 0) = (c', ctx', 0) \<and>
    wire c' @ view (outputBuffer c') = BADREQUEST \<and> state c' = kDisconnecting"
proof -
  have "\<not> fst (processRequestLine ''BREW /x HTTP/1.1'' newHttpRequest)"
    by (simp add: processRequestLine_def find_char_def setMethod_def)
  then show ?thesis
    using http_bad_request [OF established_inv established_facts(1,2) slow_write_benign, of "''BREW /x HTTP/1.1''"
        "[''BREW /x HT'', ''TP/1.1'' @ [CHR 0x0D]]" "[CHR 0x0A]" "\<lambda>req resp n. (resp, Suc n)" 5 0]
    by (simp add: established_facts crlf_text_def)
qed

end
