(* ===== verification/Auth.thy ===== *)
theory Auth
  imports Interfaces "HOL-Library.Monad_Syntax"
begin

text \<open>
  Users, login tokens and RTMP tickets (\<open>src/auth\<close>).

  \<^item> The clock is an argument of every operation that reads it (\<open>now\<close>, in seconds).
  \<^item> The random generator \<open>std::mt19937_64\<close> is a parameter: \<open>gen i\<close> is its \<open>i\<close>-th value, and the
    managers keep the position of the next draw. Drawing a token repeats until it is unused, so it
    is a partial function.
  \<^item> \<open>std::hash<std::string>\<close> is a parameter, \<open>hash\<close>.
  \<^item> Every operation holds its manager's mutex throughout, so operations are atomic.
\<close>

section \<open>Types\<close>

datatype UserRole = kUnknownRole | kTeacher | kStudent

datatype RtmpPermission = kUnknownPermission | kPublish | kPlay | kBoth

datatype AuthError = kOk | kBadRequest | kInvalidCredentials | kUnauthorized | kTokenExpired
  | kUserDisabled | kUnsupportedRole

record User =
  user_userId :: string
  user_username :: string
  passwordHash :: string
  user_role :: UserRole
  enabled :: bool

record AuthSession =
  token :: string
  session_userId :: string
  session_username :: string
  session_role :: UserRole
  session_expireAt :: int

record RtmpTicket =
  ticket :: string
  ticket_userId :: string
  ticket_username :: string
  ticket_role :: UserRole
  ticket_streamKey :: string
  allowPublish :: bool
  allowPlay :: bool
  ticket_expireAt :: int

definition roleToString :: "UserRole \<Rightarrow> string" where
  "roleToString r = (case r of kTeacher \<Rightarrow> ''teacher'' | kStudent \<Rightarrow> ''student'' | kUnknownRole \<Rightarrow> ''unknown'')"

definition roleFromString :: "string \<Rightarrow> UserRole" where
  "roleFromString s =
     (if s = ''teacher'' then kTeacher else if s = ''student'' then kStudent else kUnknownRole)"

definition rtmpPermissionToString :: "RtmpPermission \<Rightarrow> string" where
  "rtmpPermissionToString p =
     (case p of kPublish \<Rightarrow> ''publish'' | kPlay \<Rightarrow> ''play'' | kBoth \<Rightarrow> ''both''
      | kUnknownPermission \<Rightarrow> ''unknown'')"

definition rtmpPermissionFromString :: "string \<Rightarrow> RtmpPermission" where
  "rtmpPermissionFromString s =
     (if s = ''publish'' then kPublish else if s = ''play'' then kPlay
      else if s = ''both'' then kBoth else kUnknownPermission)"

definition authErrorMessage :: "AuthError \<Rightarrow> string" where
  "authErrorMessage e =
     (case e of
        kOk \<Rightarrow> ''ok''
      | kBadRequest \<Rightarrow> ''bad request''
      | kInvalidCredentials \<Rightarrow> ''invalid username or password''
      | kUnauthorized \<Rightarrow> ''unauthorized''
      | kTokenExpired \<Rightarrow> ''token expired''
      | kUserDisabled \<Rightarrow> ''user disabled''
      | kUnsupportedRole \<Rightarrow> ''unsupported role'')"


section \<open>User store\<close>

record UserStore =
  usersByName :: "string \<rightharpoonup> User"
  userIdToName :: "string \<rightharpoonup> string"

definition addUser :: "User \<Rightarrow> UserStore \<Rightarrow> bool \<times> UserStore" where
  "addUser user st =
     (if usersByName st (user_username user) \<noteq> None \<or> userIdToName st (user_userId user) \<noteq> None
      then (False, st)
      else (True, st\<lparr>userIdToName := (userIdToName st)(user_userId user \<mapsto> user_username user),
                     usersByName := (usersByName st)(user_username user \<mapsto> user)\<rparr>))"

definition findByUsername :: "string \<Rightarrow> UserStore \<Rightarrow> User option" where
  "findByUsername username st = usersByName st username"

definition findByUserId :: "string \<Rightarrow> UserStore \<Rightarrow> User option" where
  "findByUserId userId st =
     (case userIdToName st userId of None \<Rightarrow> None | Some name \<Rightarrow> usersByName st name)"

definition makePasswordHash :: "(string \<Rightarrow> u64) \<Rightarrow> string \<Rightarrow> string" where
  "makePasswordHash hash password = to_string (unat (hash password))"

definition defaultUser :: "(string \<Rightarrow> u64) \<Rightarrow> string \<Rightarrow> UserRole \<Rightarrow> User" where
  "defaultUser hash name role =
     \<lparr>user_userId = name, user_username = name, passwordHash = makePasswordHash hash ''123456'',
      user_role = role, enabled = True\<rparr>"

definition newUserStore :: "(string \<Rightarrow> u64) \<Rightarrow> UserStore" where
  "newUserStore hash =
     (let st = \<lparr>usersByName = Map.empty, userIdToName = Map.empty\<rparr>;
          st = snd (addUser (defaultUser hash ''teacher01'' kTeacher) st);
          st = snd (addUser (defaultUser hash ''student01'' kStudent) st);
          st = snd (addUser (defaultUser hash ''student02'' kStudent) st)
      in st)"


section \<open>Random credentials\<close>

definition hex_digit :: "nat \<Rightarrow> char" where
  "hex_digit n = char_of (if n < 10 then 48 + n else 87 + n)"

text \<open>\<open>std::format("{:016x}", v)\<close>\<close>

definition hex16 :: "u64 \<Rightarrow> string" where
  "hex16 v = map (\<lambda>i. hex_digit (unat v div 16 ^ (15 - i) mod 16)) [0..<16]"

lemma hex16_code [code]:
  "hex16 v = map (\<lambda>i. hex_digit (nat (uint v div 16 ^ (15 - i) mod 16))) [0..<16]"
proof -
  have "nat (uint v div 16 ^ k mod 16) = unat v div 16 ^ k mod 16" for k
    by (subst nat_mod_distrib; simp add: nat_div_distrib nat_power_eq pos_imp_zdiv_nonneg_iff)
  then show ?thesis by (simp add: hex16_def)
qed

text \<open>The loop that draws until the string is not a key of the table; it returns the next position.\<close>

partial_function (option) generateUnused ::
  "(nat \<Rightarrow> u64) \<Rightarrow> (string \<Rightarrow> bool) \<Rightarrow> nat \<Rightarrow> (string \<times> nat) option" where
  "generateUnused gen used pos =
     (let t = hex16 (gen pos) @ hex16 (gen (pos + 1)) in
      if used t then generateUnused gen used (pos + 2) else Some (t, pos + 2))"

declare generateUnused.simps [code]


section \<open>Login tokens\<close>

record TokenManager =
  tm_sessions :: "string \<rightharpoonup> AuthSession"
  tm_ttlSeconds :: int
  tm_position :: nat

definition newTokenManager :: "int \<Rightarrow> TokenManager" where
  "newTokenManager ttl = \<lparr>tm_sessions = Map.empty, tm_ttlSeconds = ttl, tm_position = 0\<rparr>"

definition removeExpired :: "('e \<Rightarrow> int) \<Rightarrow> int \<Rightarrow> (string \<rightharpoonup> 'e) \<Rightarrow> (string \<rightharpoonup> 'e)" where
  "removeExpired expireAt now m =
     (\<lambda>k. case m k of None \<Rightarrow> None | Some e \<Rightarrow> if expireAt e \<le> now then None else Some e)"

definition createSession ::
  "(nat \<Rightarrow> u64) \<Rightarrow> int \<Rightarrow> User \<Rightarrow> TokenManager \<Rightarrow> (AuthSession \<times> TokenManager) option" where
  "createSession gen now user tm = do {
     let live = removeExpired session_expireAt now (tm_sessions tm);
     (t, pos) \<leftarrow> generateUnused gen (\<lambda>t. live t \<noteq> None) (tm_position tm);
     let session = \<lparr>token = t, session_userId = user_userId user, session_username = user_username user,
                    session_role = user_role user, session_expireAt = now + tm_ttlSeconds tm\<rparr>;
     Some (session, tm\<lparr>tm_sessions := live(t \<mapsto> session), tm_position := pos\<rparr>)
   }"

definition tm_verify :: "int \<Rightarrow> string \<Rightarrow> TokenManager \<Rightarrow> AuthSession option \<times> TokenManager" where
  "tm_verify now t tm =
     (case tm_sessions tm t of
        None \<Rightarrow> (None, tm)
      | Some session \<Rightarrow>
          (if session_expireAt session \<le> now
           then (None, tm\<lparr>tm_sessions := (tm_sessions tm)(t := None)\<rparr>)
           else (Some session, tm)))"

definition tm_remove :: "string \<Rightarrow> TokenManager \<Rightarrow> bool \<times> TokenManager" where
  "tm_remove t tm = (tm_sessions tm t \<noteq> None, tm\<lparr>tm_sessions := (tm_sessions tm)(t := None)\<rparr>)"


section \<open>RTMP tickets\<close>

record RtmpTicketManager =
  tickets :: "string \<rightharpoonup> RtmpTicket"
  rt_ttlSeconds :: int
  rt_position :: nat

definition newRtmpTicketManager :: "int \<Rightarrow> RtmpTicketManager" where
  "newRtmpTicketManager ttl = \<lparr>tickets = Map.empty, rt_ttlSeconds = ttl, rt_position = 0\<rparr>"

definition createTicket ::
  "(nat \<Rightarrow> u64) \<Rightarrow> int \<Rightarrow> AuthSession \<Rightarrow> string \<Rightarrow> RtmpPermission \<Rightarrow> RtmpTicketManager
     \<Rightarrow> (RtmpTicket \<times> RtmpTicketManager) option" where
  "createTicket gen now session stream_key permission rt = do {
     let live = removeExpired ticket_expireAt now (tickets rt);
     (t, pos) \<leftarrow> generateUnused gen (\<lambda>t. live t \<noteq> None) (rt_position rt);
     let tk = \<lparr>ticket = t, ticket_userId = session_userId session, ticket_username = session_username session,
               ticket_role = session_role session, ticket_streamKey = stream_key,
               allowPublish = (permission = kPublish \<or> permission = kBoth),
               allowPlay = (permission = kPlay \<or> permission = kBoth),
               ticket_expireAt = now + rt_ttlSeconds rt\<rparr>;
     Some (tk, rt\<lparr>tickets := live(t \<mapsto> tk), rt_position := pos\<rparr>)
   }"

definition rt_verify ::
  "int \<Rightarrow> string \<Rightarrow> string \<Rightarrow> bool \<Rightarrow> RtmpTicketManager \<Rightarrow> RtmpTicket option \<times> RtmpTicketManager" where
  "rt_verify now t stream_key requirePublish rt =
     (case tickets rt t of
        None \<Rightarrow> (None, rt)
      | Some tk \<Rightarrow>
          (if ticket_expireAt tk \<le> now then (None, rt\<lparr>tickets := (tickets rt)(t := None)\<rparr>)
           else if ticket_streamKey tk \<noteq> stream_key then (None, rt)
           else if requirePublish \<and> \<not> allowPublish tk then (None, rt)
           else if \<not> requirePublish \<and> \<not> allowPlay tk then (None, rt)
           else (Some tk, rt)))"

definition verifyPublish :: "int \<Rightarrow> string \<Rightarrow> string \<Rightarrow> RtmpTicketManager \<Rightarrow> RtmpTicket option \<times> RtmpTicketManager" where
  "verifyPublish now t stream_key rt = rt_verify now t stream_key True rt"

definition verifyPlay :: "int \<Rightarrow> string \<Rightarrow> string \<Rightarrow> RtmpTicketManager \<Rightarrow> RtmpTicket option \<times> RtmpTicketManager" where
  "verifyPlay now t stream_key rt = rt_verify now t stream_key False rt"


section \<open>Login service\<close>

record AuthService =
  userStore :: UserStore
  tokenManager :: TokenManager

definition newAuthService :: "(string \<Rightarrow> u64) \<Rightarrow> AuthService" where
  "newAuthService hash = \<lparr>userStore = newUserStore hash, tokenManager = newTokenManager (2 * 60 * 60)\<rparr>"

text \<open>The error \<open>Inl\<close> or the session; \<open>None\<close> only when drawing a token does not end.\<close>

definition login ::
  "(string \<Rightarrow> u64) \<Rightarrow> (nat \<Rightarrow> u64) \<Rightarrow> int \<Rightarrow> string \<Rightarrow> string \<Rightarrow> UserRole \<Rightarrow> AuthService
     \<Rightarrow> ((AuthError + AuthSession) \<times> AuthService) option" where
  "login hash gen now username password role svc =
     (if username = [] \<or> password = [] \<or> role = kUnknownRole then Some (Inl kBadRequest, svc)
      else case findByUsername username (userStore svc) of
        None \<Rightarrow> Some (Inl kInvalidCredentials, svc)
      | Some user \<Rightarrow>
          (if passwordHash user \<noteq> makePasswordHash hash password then Some (Inl kInvalidCredentials, svc)
           else if \<not> enabled user then Some (Inl kUserDisabled, svc)
           else if user_role user \<noteq> role then Some (Inl kUnsupportedRole, svc)
           else do {
             (session, tm) \<leftarrow> createSession gen now user (tokenManager svc);
             Some (Inr session, svc\<lparr>tokenManager := tm\<rparr>)
           }))"

definition verifyToken :: "int \<Rightarrow> string \<Rightarrow> AuthService \<Rightarrow> AuthSession option \<times> AuthService" where
  "verifyToken now t svc =
     (if t = [] then (None, svc)
      else let (r, tm) = tm_verify now t (tokenManager svc) in (r, svc\<lparr>tokenManager := tm\<rparr>))"

definition logout :: "string \<Rightarrow> AuthService \<Rightarrow> bool \<times> AuthService" where
  "logout t svc =
     (if t = [] then (False, svc)
      else let (r, tm) = tm_remove t (tokenManager svc) in (r, svc\<lparr>tokenManager := tm\<rparr>))"

section \<open>Drawing a credential\<close>

definition draw :: "(nat \<Rightarrow> u64) \<Rightarrow> nat \<Rightarrow> string" where
  "draw gen pos = hex16 (gen pos) @ hex16 (gen (pos + 1))"

lemma generateUnused_unused:
  assumes "generateUnused gen used pos = Some (t, p)"
  shows "\<not> used t"
  by (rule generateUnused.raw_induct [OF _ assms, where P = "\<lambda>gen used pos (t, p). \<not> used t", simplified])
    (auto simp: Let_def split: if_splits)

text \<open>What is drawn is two groups of hexadecimal digits.\<close>

lemma generateUnused_draw:
  assumes "generateUnused gen used pos = Some (t, p)"
  shows "\<exists>k. t = draw gen k"
  by (rule generateUnused.raw_induct [OF _ assms, where P = "\<lambda>gen used pos (t, p). \<exists>k. t = draw gen k", simplified])
    (auto simp: draw_def Let_def split: if_splits)

lemma draw_no_ampersand: "CHR ''&'' \<notin> set (draw gen pos)"
proof -
  have "hex_digit (n mod 16) \<noteq> CHR ''&''" for n :: nat
  proof -
    have "hex_digit (n mod 16) \<in> hex_digit ` {..<16}" by simp
    moreover have "CHR ''&'' \<notin> hex_digit ` {..<16}" by code_simp
    ultimately show ?thesis by metis
  qed
  then show ?thesis by (auto simp: draw_def hex16_def) metis+
qed

text \<open>It returns as soon as one of the later draws is unused.\<close>

lemma generateUnused_returns:
  "\<not> used (draw gen (pos + 2 * n)) \<Longrightarrow> \<exists>t p. generateUnused gen used pos = Some (t, p) \<and> \<not> used t"
proof (induction n arbitrary: pos)
  case 0
  then show ?case by (simp add: generateUnused.simps [of gen used pos] draw_def Let_def)
next
  case (Suc n)
  show ?case
  proof (cases "used (draw gen pos)")
    case True
    then have "generateUnused gen used pos = generateUnused gen used (pos + 2)"
      by (simp add: generateUnused.simps [of gen used pos] draw_def Let_def)
    with Suc.IH [of "pos + 2"] Suc.prems show ?thesis by simp
  next
    case False
    then show ?thesis by (simp add: generateUnused.simps [of gen used pos] draw_def Let_def)
  qed
qed


section \<open>Tokens and tickets are credential stores\<close>

lemma removeExpired_unexpired: "removeExpired ex now m k = unexpired ex now (m k)"
  by (simp add: removeExpired_def unexpired_def split: option.splits)

definition issue_token ::
  "(nat \<Rightarrow> u64) \<Rightarrow> int \<Rightarrow> User \<Rightarrow> TokenManager \<Rightarrow> (string \<times> AuthSession \<times> TokenManager) option" where
  "issue_token gen now user tm = map_option (\<lambda>(s, tm'). (token s, s, tm')) (createSession gen now user tm)"

interpretation tokens: revocable_store tm_sessions session_expireAt "\<lambda>_ _. True" "issue_token gen"
    "\<lambda>now t (_ :: unit). tm_verify now t" "\<lambda>t tm. snd (tm_remove t tm)" for gen
proof
  fix now t q tm
  show "fst (tm_verify now t tm) = (case unexpired session_expireAt now (tm_sessions tm t) of
      None \<Rightarrow> None | Some e \<Rightarrow> if True then Some e else None)"
    "tm_sessions (snd (tm_verify now t tm)) = (tm_sessions tm)(t := unexpired session_expireAt now (tm_sessions tm t))"
    by (auto simp: tm_verify_def unexpired_def fun_upd_idem split: option.splits)
next
  fix now user tm t s tm'
  assume "issue_token gen now user tm = Some (t, s, tm')"
  then obtain pos where "generateUnused gen (\<lambda>t. removeExpired session_expireAt now (tm_sessions tm) t \<noteq> None)
      (tm_position tm) = Some (t, pos)"
    and tm': "tm_sessions tm' = (removeExpired session_expireAt now (tm_sessions tm))(t \<mapsto> s)"
    by (auto simp: issue_token_def createSession_def bind_eq_Some_conv Let_def)
  from generateUnused_unused [OF this(1)] tm'
  show "unexpired session_expireAt now (tm_sessions tm t) = None"
    "tm_sessions tm' = (\<lambda>k'. unexpired session_expireAt now (tm_sessions tm k'))(t := Some s)"
    by (auto simp: removeExpired_unexpired fun_eq_iff)
next
  fix t tm
  show "tm_sessions (snd (tm_remove t tm)) = (tm_sessions tm)(t := None)" by (simp add: tm_remove_def)
qed

definition ticket_allows :: "string \<times> bool \<Rightarrow> RtmpTicket \<Rightarrow> bool" where
  "ticket_allows q tk \<longleftrightarrow> ticket_streamKey tk = fst q \<and> (if snd q then allowPublish tk else allowPlay tk)"

definition issue_ticket ::
  "(nat \<Rightarrow> u64) \<Rightarrow> int \<Rightarrow> AuthSession \<times> string \<times> RtmpPermission \<Rightarrow> RtmpTicketManager
     \<Rightarrow> (string \<times> RtmpTicket \<times> RtmpTicketManager) option" where
  "issue_ticket gen now req rt = (case req of (session, key, perm) \<Rightarrow>
     map_option (\<lambda>(tk, rt'). (ticket tk, tk, rt')) (createTicket gen now session key perm rt))"

interpretation ticket_store: credential_store tickets ticket_expireAt ticket_allows "issue_ticket gen"
    "\<lambda>now t (key, pub). rt_verify now t key pub" for gen
proof
  fix now t rt and q :: "string \<times> bool"
  obtain key pub where q: "q = (key, pub)" by (cases q)
  show "fst ((case q of (key, pub) \<Rightarrow> rt_verify now t key pub) rt) =
      (case unexpired ticket_expireAt now (tickets rt t) of
         None \<Rightarrow> None | Some e \<Rightarrow> if ticket_allows q e then Some e else None)"
    "tickets (snd ((case q of (key, pub) \<Rightarrow> rt_verify now t key pub) rt)) =
      (tickets rt)(t := unexpired ticket_expireAt now (tickets rt t))"
    by (auto simp: q rt_verify_def unexpired_def ticket_allows_def fun_upd_idem split: option.splits)
next
  fix now req rt t tk rt'
  assume "issue_ticket gen now req rt = Some (t, tk, rt')"
  then obtain pos where "generateUnused gen (\<lambda>t. removeExpired ticket_expireAt now (tickets rt) t \<noteq> None)
      (rt_position rt) = Some (t, pos)"
    and rt': "tickets rt' = (removeExpired ticket_expireAt now (tickets rt))(t \<mapsto> tk)"
    by (cases req) (auto simp: issue_ticket_def createTicket_def bind_eq_Some_conv Let_def)
  from generateUnused_unused [OF this(1)] rt'
  show "unexpired ticket_expireAt now (tickets rt t) = None"
    "tickets rt' = (\<lambda>k'. unexpired ticket_expireAt now (tickets rt k'))(t := Some tk)"
    by (auto simp: removeExpired_unexpired fun_eq_iff)
qed

section \<open>Lifetime of a token\<close>

text \<open>
  Everything that may happen to the token manager before time \<open>T\<close> except taking back token \<open>k\<close>:
  other logins, verifications of any token, logouts of other tokens.
\<close>

inductive token_later :: "(nat \<Rightarrow> u64) \<Rightarrow> int \<Rightarrow> string \<Rightarrow> TokenManager \<Rightarrow> TokenManager \<Rightarrow> bool"
  for gen T k where
  same: "token_later gen T k tm tm"
| create: "token_later gen T k tm tm1 \<Longrightarrow> now < T \<Longrightarrow> createSession gen now user tm1 = Some (s, tm2) \<Longrightarrow>
    token_later gen T k tm tm2"
| verify: "token_later gen T k tm tm1 \<Longrightarrow> now < T \<Longrightarrow> token_later gen T k tm (snd (tm_verify now t tm1))"
| remove: "token_later gen T k tm tm1 \<Longrightarrow> t \<noteq> k \<Longrightarrow> token_later gen T k tm (snd (tm_remove t tm1))"

lemma token_later_keeps:
  "token_later gen T k tm tm' \<Longrightarrow> tm_sessions tm k = Some s \<Longrightarrow> session_expireAt s = T \<Longrightarrow>
     tm_sessions tm' k = Some s"
proof (induction rule: token_later.induct)
  case (create tm tm1 now user s' tm2)
  then have "issue_token gen now user tm1 = Some (token s', s', tm2)" by (simp add: issue_token_def)
  with create show ?case by (auto intro: tokens.issue_keeps)
next
  case (verify tm tm1 now t)
  then show ?case using tokens.check_keeps [of tm1 k s now t] by simp
next
  case (remove tm tm1 t)
  then show ?case using tokens.revoke_keeps [of t k tm1] by simp
qed simp

lemma createSession_token:
  "createSession gen now user tm = Some (s, tm1) \<Longrightarrow>
     tm_sessions tm1 (token s) = Some s \<and> session_expireAt s = now + tm_ttlSeconds tm"
  by (auto simp: createSession_def bind_eq_Some_conv Let_def)

text \<open>
  A login token is honoured exactly until it expires or is logged out. After a session is
  created, and whatever other logins, verifications and logouts of other tokens happen before it
  expires, its token still verifies to that very session; at its expiry time and after it does
  not, and neither does it after it was removed.
\<close>

theorem token_lifetime:
  assumes "createSession gen now user tm = Some (s, tm1)"
    and "token_later gen (session_expireAt s) (token s) tm1 tm2"
  shows "(now' < session_expireAt s \<longrightarrow> fst (tm_verify now' (token s) tm2) = Some s) \<and>
    (session_expireAt s \<le> now' \<longrightarrow> fst (tm_verify now' (token s) tm2) = None) \<and>
    fst (tm_verify now' (token s) (snd (tm_remove (token s) tm2))) = None"
proof -
  have "tm_sessions tm2 (token s) = Some s"
    using createSession_token [OF assms(1)] token_later_keeps [OF assms(2)] by simp
  then show ?thesis
    using tokens.check_live [of tm2 "token s" s now'] tokens.check_expired [of tm2 "token s" s now']
      tokens.revoked [of now' "token s" tm2]
    by simp
qed

definition sample_gen :: "nat \<Rightarrow> u64" where "sample_gen i = word_of_nat i"

lemma sample_gen_returns: "\<exists>s tm1. createSession sample_gen now user (newTokenManager ttl) = Some (s, tm1)"
  by (simp add: createSession_def newTokenManager_def removeExpired_def generateUnused.simps Let_def)

theorem token_lifetime_witness:
  "\<exists>s tm1. createSession sample_gen 100 (defaultUser (\<lambda>_. 0) ''teacher01'' kTeacher) (newTokenManager 7200)
      = Some (s, tm1) \<and> fst (tm_verify 7299 (token s) (snd (tm_verify 500 ''guess'' tm1))) = Some s \<and>
      fst (tm_verify 7300 (token s) tm1) = None"
proof -
  let ?u = "defaultUser (\<lambda>_. 0) ''teacher01'' kTeacher"
  obtain s tm1 where c: "createSession sample_gen 100 ?u (newTokenManager 7200) = Some (s, tm1)"
    using sample_gen_returns by blast
  have ex: "session_expireAt s = 7300" using createSession_token [OF c] by (simp add: newTokenManager_def)
  have l: "token_later sample_gen (session_expireAt s) (token s) tm1 (snd (tm_verify 500 ''guess'' tm1))"
    using ex by (intro token_later.verify token_later.same) simp
  from token_lifetime [OF c l, of 7299] token_lifetime [OF c token_later.same, of 7300] c ex
  show ?thesis by auto
qed


section \<open>Lifetime and reach of a ticket\<close>

inductive ticket_later :: "(nat \<Rightarrow> u64) \<Rightarrow> int \<Rightarrow> RtmpTicketManager \<Rightarrow> RtmpTicketManager \<Rightarrow> bool"
  for gen T where
  same: "ticket_later gen T rt rt"
| create: "ticket_later gen T rt rt1 \<Longrightarrow> now < T \<Longrightarrow>
    createTicket gen now session key perm rt1 = Some (tk, rt2) \<Longrightarrow> ticket_later gen T rt rt2"
| verify: "ticket_later gen T rt rt1 \<Longrightarrow> now < T \<Longrightarrow>
    ticket_later gen T rt (snd (rt_verify now t key pub rt1))"

lemma ticket_later_keeps:
  "ticket_later gen T rt rt' \<Longrightarrow> tickets rt k = Some tk \<Longrightarrow> ticket_expireAt tk = T \<Longrightarrow>
     tickets rt' k = Some tk"
proof (induction rule: ticket_later.induct)
  case (create rt rt1 now session key perm tk' rt2)
  then have "issue_ticket gen now (session, key, perm) rt1 = Some (ticket tk', tk', rt2)"
    by (simp add: issue_ticket_def)
  with create show ?case by (auto intro: ticket_store.issue_keeps)
next
  case (verify rt rt1 now t key pub)
  then show ?case using ticket_store.check_keeps [of rt1 k tk now t "(key, pub)"] by simp
qed simp

lemma ticket_accepts:
  assumes "createTicket gen now session key perm rt = Some (tk, rt1)"
    and "ticket_later gen (ticket_expireAt tk) rt1 rt2"
  shows "fst (verifyPublish now' (ticket tk) key' rt2) =
      (if now' < ticket_expireAt tk \<and> key' = key \<and> perm \<in> {kPublish, kBoth} then Some tk else None) \<and>
    fst (verifyPlay now' (ticket tk) key' rt2) =
      (if now' < ticket_expireAt tk \<and> key' = key \<and> perm \<in> {kPlay, kBoth} then Some tk else None)"
proof -
  have "tickets rt1 (ticket tk) = Some tk"
    and tk: "ticket_streamKey tk = key" "allowPublish tk \<longleftrightarrow> perm \<in> {kPublish, kBoth}"
      "allowPlay tk \<longleftrightarrow> perm \<in> {kPlay, kBoth}"
    using assms(1) by (auto simp: createTicket_def bind_eq_Some_conv Let_def)
  then have "tickets rt2 (ticket tk) = Some tk" using ticket_later_keeps [OF assms(2)] by simp
  then have "fst (rt_verify now' (ticket tk) key' pub rt2) =
      (if now' < ticket_expireAt tk \<and> ticket_allows (key', pub) tk then Some tk else None)" for pub
    using ticket_store.check_live [of rt2 "ticket tk" tk now' "(key', pub)"]
      ticket_store.check_expired [of rt2 "ticket tk" tk now' "(key', pub)"]
    by (cases "now' < ticket_expireAt tk") auto
  with tk show ?thesis by (auto simp: verifyPublish_def verifyPlay_def ticket_allows_def)
qed

text \<open>
  An RTMP ticket opens exactly what it was issued for. Until it expires, and whatever other
  tickets are issued and verified meanwhile, verifying it succeeds for its own stream key and the
  operations its permission names, and for nothing else; from its expiry on it never succeeds.
\<close>

theorem ticket_reach:
  assumes "createTicket gen now session key perm rt = Some (tk, rt1)"
    and "ticket_later gen (ticket_expireAt tk) rt1 rt2"
  shows "fst (verifyPublish now' (ticket tk) key' rt2) =
      (if now' < ticket_expireAt tk \<and> key' = key \<and> perm \<in> {kPublish, kBoth} then Some tk else None) \<and>
    fst (verifyPlay now' (ticket tk) key' rt2) =
      (if now' < ticket_expireAt tk \<and> key' = key \<and> perm \<in> {kPlay, kBoth} then Some tk else None)"
  using assms by (rule ticket_accepts)

lemma sample_gen_ticket: "\<exists>tk rt1. createTicket sample_gen now s key perm (newRtmpTicketManager ttl) = Some (tk, rt1)"
  by (simp add: createTicket_def newRtmpTicketManager_def removeExpired_def generateUnused.simps Let_def)

theorem ticket_reach_witness:
  "\<exists>tk rt1. createTicket sample_gen 100 \<lparr>token = ''t'', session_userId = ''u'', session_username = ''u'',
        session_role = kTeacher, session_expireAt = 7300\<rparr> ''/live/a'' kPublish (newRtmpTicketManager 300)
      = Some (tk, rt1) \<and>
    fst (verifyPublish 399 (ticket tk) ''/live/a'' rt1) = Some tk \<and>
    fst (verifyPlay 399 (ticket tk) ''/live/a'' rt1) = None \<and>
    fst (verifyPublish 399 (ticket tk) ''/live/b'' rt1) = None \<and>
    fst (verifyPublish 400 (ticket tk) ''/live/a'' rt1) = None"
proof -
  let ?s = "\<lparr>token = ''t'', session_userId = ''u'', session_username = ''u'',
        session_role = kTeacher, session_expireAt = 7300\<rparr>"
  obtain tk rt1 where c: "createTicket sample_gen 100 ?s ''/live/a'' kPublish (newRtmpTicketManager 300) = Some (tk, rt1)"
    using sample_gen_ticket by blast
  have ex: "ticket_expireAt tk = 400"
    using c by (auto simp: createTicket_def newRtmpTicketManager_def bind_eq_Some_conv Let_def)
  from ticket_reach [OF c ticket_later.same, of 399 "''/live/a''"]
    ticket_reach [OF c ticket_later.same, of 399 "''/live/b''"]
    ticket_reach [OF c ticket_later.same, of 400 "''/live/a''"] c ex
  show ?thesis by auto
qed


section \<open>Login\<close>

text \<open>
  Login outcomes. Login always answers (given that the generator eventually draws an unused
  token); it succeeds exactly for a non-empty user name and password and a known role, when the
  user exists, the password hashes to the stored value, the user is enabled and has the role; the
  new session carries the user's id, name and role, expires after the time to live, and its token
  verifies from then on until it expires.
\<close>

theorem login_outcome:
  assumes "tm = tokenManager svc"
    and "\<exists>n. removeExpired session_expireAt now (tm_sessions tm) (draw gen (tm_position tm + 2 * n)) = None"
  shows "\<exists>r svc'. login hash gen now username password role svc = Some (r, svc') \<and>
    ((\<exists>s. r = Inr s) \<longleftrightarrow> username \<noteq> [] \<and> password \<noteq> [] \<and> role \<noteq> kUnknownRole \<and>
       (\<exists>user. usersByName (userStore svc) username = Some user \<and>
          passwordHash user = makePasswordHash hash password \<and> enabled user \<and> user_role user = role)) \<and>
    (\<forall>s. r = Inr s \<longrightarrow>
       (\<exists>user. usersByName (userStore svc) username = Some user \<and> session_userId s = user_userId user \<and>
          session_username s = user_username user \<and> session_role s = role) \<and>
       session_expireAt s = now + tm_ttlSeconds tm \<and>
       (\<forall>now'. now' < session_expireAt s \<longrightarrow> fst (tm_verify now' (token s) (tokenManager svc')) = Some s))"
proof -
  obtain t p where t: "generateUnused gen (\<lambda>t. removeExpired session_expireAt now (tm_sessions tm) t \<noteq> None)
      (tm_position tm) = Some (t, p)"
    using assms(2) generateUnused_returns
      [where used = "\<lambda>t. removeExpired session_expireAt now (tm_sessions tm) t \<noteq> None"] by blast
  then show ?thesis
    by (auto simp: login_def findByUsername_def createSession_def tm_verify_def Let_def
        assms(1) [symmetric] split: option.splits)
qed

theorem login_outcome_witness:
  "\<exists>r svc'. login (\<lambda>_. 7) sample_gen 100 ''teacher01'' ''123456'' kTeacher (newAuthService (\<lambda>_. 7)) = Some (r, svc') \<and>
    (\<exists>s. r = Inr s \<and> session_userId s = ''teacher01'' \<and> session_expireAt s = 7300 \<and>
       fst (tm_verify 7299 (token s) (tokenManager svc')) = Some s)"
proof -
  let ?svc = "newAuthService (\<lambda>_. 7)"
  have free: "\<exists>n. removeExpired session_expireAt 100 (tm_sessions (tokenManager ?svc))
      (draw sample_gen (tm_position (tokenManager ?svc) + 2 * n)) = None"
    by (simp add: newAuthService_def newTokenManager_def removeExpired_def)
  have user: "usersByName (userStore ?svc) ''teacher01'' = Some (defaultUser (\<lambda>_. 7) ''teacher01'' kTeacher)"
    "tm_ttlSeconds (tokenManager ?svc) = 7200"
    by (simp_all add: newAuthService_def newUserStore_def newTokenManager_def addUser_def defaultUser_def Let_def)
  from login_outcome [OF refl free, of "\<lambda>_. 7" "''teacher01''" "''123456''" kTeacher] user
  show ?thesis by (fastforce simp: defaultUser_def)
qed

section \<open>The two indices of the user store\<close>

definition user_store_ok :: "UserStore \<Rightarrow> bool" where
  "user_store_ok st \<longleftrightarrow>
     (\<forall>n u. usersByName st n = Some u \<longrightarrow> user_username u = n \<and> userIdToName st (user_userId u) = Some n) \<and>
     (\<forall>i n. userIdToName st i = Some n \<longrightarrow> (\<exists>u. usersByName st n = Some u \<and> user_userId u = i))"

lemma user_store_ok_name: "user_store_ok st \<Longrightarrow> usersByName st n = Some u \<Longrightarrow> user_username u = n"
  by (simp add: user_store_ok_def)

lemma addUser_ok:
  assumes "user_store_ok st" shows "user_store_ok (snd (addUser u st))"
proof (cases "usersByName st (user_username u) = None \<and> userIdToName st (user_userId u) = None")
  case False
  then have "snd (addUser u st) = st" by (auto simp: addUser_def)
  with assms show ?thesis by simp
next
  case True
  then have st': "snd (addUser u st) = st\<lparr>userIdToName := (userIdToName st)(user_userId u \<mapsto> user_username u),
      usersByName := (usersByName st)(user_username u \<mapsto> u)\<rparr>" by (simp add: addUser_def)
  have "usersByName st n = Some v \<Longrightarrow> user_username v = n \<and> userIdToName st (user_userId v) = Some n" for n v
    using assms by (simp add: user_store_ok_def)
  moreover have "userIdToName st i = Some n \<Longrightarrow> \<exists>v. usersByName st n = Some v \<and> user_userId v = i" for i n
    using assms by (simp add: user_store_ok_def)
  ultimately show ?thesis using True unfolding user_store_ok_def st' by (auto; fastforce)
qed

lemma newUserStore_ok: "user_store_ok (newUserStore hash)"
proof -
  have "user_store_ok \<lparr>usersByName = Map.empty, userIdToName = Map.empty\<rparr>" by (simp add: user_store_ok_def)
  then show ?thesis by (simp add: newUserStore_def addUser_ok Let_def)
qed

lemma fold_addUser_ok: "user_store_ok st \<Longrightarrow> user_store_ok (fold (\<lambda>u st. snd (addUser u st)) us st)"
  by (induction us arbitrary: st) (simp_all add: addUser_ok)

text \<open>
  The user store's indices agree after any sequence of registrations: looking a user up by id
  and by name gives the same user, ids and names are unique, and a registration that would reuse
  either is refused.
\<close>

theorem user_store_consistent:
  "(let st = fold (\<lambda>u st. snd (addUser u st)) us (newUserStore hash) in
    (\<forall>i u. findByUserId i st = Some u \<longleftrightarrow> (findByUsername (user_username u) st = Some u \<and> user_userId u = i)) \<and>
    (\<forall>n u. findByUsername n st = Some u \<longleftrightarrow> (findByUserId (user_userId u) st = Some u \<and> user_username u = n)) \<and>
    (\<forall>u. fst (addUser u st) \<longleftrightarrow>
       findByUsername (user_username u) st = None \<and> findByUserId (user_userId u) st = None))"
proof -
  let ?st = "fold (\<lambda>u st. snd (addUser u st)) us (newUserStore hash)"
  have ok: "user_store_ok ?st" using fold_addUser_ok newUserStore_ok by blast
  have byname: "usersByName ?st n = Some u \<Longrightarrow> user_username u = n \<and> userIdToName ?st (user_userId u) = Some n" for n u
    using ok by (simp add: user_store_ok_def)
  have byid: "userIdToName ?st i = Some n \<Longrightarrow> \<exists>u. usersByName ?st n = Some u \<and> user_userId u = i" for i n
    using ok by (simp add: user_store_ok_def)
  have find: "findByUserId i ?st = Some u \<longleftrightarrow> usersByName ?st (user_username u) = Some u \<and> user_userId u = i" for i u
  proof
    assume "findByUserId i ?st = Some u"
    then obtain n where n: "userIdToName ?st i = Some n" "usersByName ?st n = Some u"
      by (auto simp: findByUserId_def split: option.splits)
    then show "usersByName ?st (user_username u) = Some u \<and> user_userId u = i"
      using byid [OF n(1)] byname [OF n(2)] by auto
  next
    assume "usersByName ?st (user_username u) = Some u \<and> user_userId u = i"
    then show "findByUserId i ?st = Some u"
      using byname [of "user_username u" u] by (auto simp: findByUserId_def)
  qed
  have none: "findByUserId i ?st = None \<longleftrightarrow> userIdToName ?st i = None" for i
    using byid [of i] by (auto simp: findByUserId_def split: option.splits)
  show ?thesis
    unfolding Let_def
  proof (intro conjI allI)
    fix i n u
    show "findByUserId i ?st = Some u \<longleftrightarrow> findByUsername (user_username u) ?st = Some u \<and> user_userId u = i"
      using find by (simp add: findByUsername_def)
    show "findByUsername n ?st = Some u \<longleftrightarrow> findByUserId (user_userId u) ?st = Some u \<and> user_username u = n"
      using find [of "user_userId u" u] byname [of n u] by (auto simp: findByUsername_def)
    show "fst (addUser u ?st) \<longleftrightarrow>
        findByUsername (user_username u) ?st = None \<and> findByUserId (user_userId u) ?st = None"
      using none [of "user_userId u"] by (simp add: findByUsername_def addUser_def)
  qed
qed

end
