(* ===== verification/LoginServer.thy ===== *)
theory LoginServer
  imports HttpServer Auth RtmpServer
begin

text \<open>
  The teacher back end (\<open>src/example/login_server.cc\<close>): the HTTP routes for login, logout, the
  current user and RTMP tickets, and the authorisation callback of the RTMP server, which share
  one authentication service and one ticket manager.

  The clock, the hash and the two random generators are the parameters of theory \<open>Auth\<close>, collected
  in \<open>Env\<close>. A handler that draws a credential may in principle not return; the state that the routes
  share is therefore an option.
\<close>

section \<open>Replies\<close>

record Backend =
  authService :: AuthService
  rtmpTicketManager :: RtmpTicketManager

record Env =
  env_hash :: "string \<Rightarrow> u64"
  tokenGen :: "nat \<Rightarrow> u64"
  ticketGen :: "nat \<Rightarrow> u64"
  env_now :: int
  rtmpPort :: nat

definition newBackend :: "(string \<Rightarrow> u64) \<Rightarrow> Backend" where
  "newBackend h = \<lparr>authService = newAuthService h, rtmpTicketManager = newRtmpTicketManager (5 * 60)\<rparr>"

definition kRtmpHost :: string where "kRtmpHost = ''127.0.0.1''"
definition kRtmpApp :: string where "kRtmpApp = ''live''"

definition authErrorCode :: "AuthError \<Rightarrow> int" where
  "authErrorCode e =
     (case e of
        kOk \<Rightarrow> 0
      | kBadRequest \<Rightarrow> 1000
      | kInvalidCredentials \<Rightarrow> 1001
      | kUnauthorized \<Rightarrow> 1002
      | kTokenExpired \<Rightarrow> 1004
      | kUserDisabled \<Rightarrow> 1005
      | kUnsupportedRole \<Rightarrow> 1006)"

definition makeLoginData :: "AuthSession \<Rightarrow> string" where
  "makeLoginData s =
     ''{'' @ makeField ''token'' (token s) @ '','' @ makeField ''userId'' (session_userId s) @ '','' @
     makeField ''username'' (session_username s) @ '','' @ makeField ''role'' (roleToString (session_role s)) @ '','' @
     makeNumberField ''expireAt'' (session_expireAt s) @ ''}''"

definition makeUserData :: "AuthSession \<Rightarrow> string" where
  "makeUserData s =
     ''{'' @ makeField ''userId'' (session_userId s) @ '','' @ makeField ''username'' (session_username s) @ '','' @
     makeField ''role'' (roleToString (session_role s)) @ ''}''"

definition login_makeStreamKey :: "string \<Rightarrow> string \<Rightarrow> string" where
  "login_makeStreamKey app name = ''/'' @ app @ ''/'' @ name"

definition isalnum :: "char \<Rightarrow> bool" where
  "isalnum c \<longleftrightarrow>
     (let n = (of_char c :: nat) in (48 \<le> n \<and> n \<le> 57) \<or> (65 \<le> n \<and> n \<le> 90) \<or> (97 \<le> n \<and> n \<le> 122))"

definition isValidStreamName :: "string \<Rightarrow> bool" where
  "isValidStreamName name \<longleftrightarrow>
     name \<noteq> [] \<and> list_all (\<lambda>ch. isalnum ch \<or> ch = CHR ''_'' \<or> ch = CHR ''-'' \<or> ch = CHR ''.'') name"

definition ticketUrl :: "RtmpTicket \<Rightarrow> string \<Rightarrow> nat \<Rightarrow> string \<Rightarrow> string \<Rightarrow> string" where
  "ticketUrl tk host port app name =
     ''rtmp://'' @ host @ '':'' @ to_string port @ ''/'' @ app @ ''/'' @ name @ ''?ticket='' @ ticket tk"

definition makeRtmpTicketData :: "RtmpTicket \<Rightarrow> string \<Rightarrow> nat \<Rightarrow> string \<Rightarrow> string \<Rightarrow> string" where
  "makeRtmpTicketData tk host port app name =
     (let url = ticketUrl tk host port app name;
          d = ''{'' @ makeField ''streamKey'' (ticket_streamKey tk) @ '','';
          d = (if allowPublish tk then d @ makeField ''publishUrl'' url @ '','' else d);
          d = (if allowPlay tk then d @ makeField ''playUrl'' url @ '','' else d)
      in d @ makeNumberField ''expireAt'' (ticket_expireAt tk) @ ''}'')"

definition getBearerToken :: "HttpRequest \<Rightarrow> string option" where
  "getBearerToken req =
     (let authorization = getHeader ''Authorization'' req; kPrefix = ''Bearer '' in
      if length authorization \<le> length kPrefix \<or> take (length kPrefix) authorization \<noteq> kPrefix then None
      else Some (drop (length kPrefix) authorization))"

definition setJson :: "HttpStatusCode \<Rightarrow> string \<Rightarrow> string \<Rightarrow> HttpResponse \<Rightarrow> HttpResponse" where
  "setJson status message b resp =
     (setContentType ''application/json'' (resp\<lparr>statusCode := status, statusMessage := message\<rparr>))\<lparr>resp_body := b\<rparr>"

definition setUnauthorized :: "HttpResponse \<Rightarrow> HttpResponse" where
  "setUnauthorized resp =
     setJson k401Unauthorized ''Unauthorized'' (makeError (authErrorCode kUnauthorized) (authErrorMessage kUnauthorized)) resp"

definition setBadRequest :: "HttpResponse \<Rightarrow> HttpResponse" where
  "setBadRequest resp = setJson k400BadRequest ''Bad Request'' (makeError 1000 ''bad request'') resp"

section \<open>Routes\<close>

type_synonym handler = "HttpRequest \<Rightarrow> HttpResponse \<Rightarrow> Backend \<Rightarrow> (HttpResponse \<times> Backend) option"

definition health_handler :: handler where
  "health_handler req resp b =
     Some (setJson k200Ok ''OK'' (makeOk (''{'' @ quote ''service'' @ '':'' @ quote ''login_server'' @ ''}'')) resp, b)"

definition login_handler :: "Env \<Rightarrow> handler" where
  "login_handler env req resp b =
     (case parseJsonObject (body req) of
        None \<Rightarrow> Some (setBadRequest resp, b)
      | Some obj \<Rightarrow>
          (case (getString ''username'' obj, getString ''password'' obj, getString ''role'' obj) of
             (Some username, Some password, Some roleText) \<Rightarrow>
               (case login (env_hash env) (tokenGen env) (env_now env) username password (roleFromString roleText) (authService b) of
                  None \<Rightarrow> None
                | Some (Inl e, svc) \<Rightarrow>
                    Some (setJson k200Ok ''OK'' (makeError (authErrorCode e) (authErrorMessage e)) resp,
                      b\<lparr>authService := svc\<rparr>)
                | Some (Inr s, svc) \<Rightarrow>
                    Some (setJson k200Ok ''OK'' (makeOk (makeLoginData s)) resp, b\<lparr>authService := svc\<rparr>))
           | _ \<Rightarrow> Some (setBadRequest resp, b)))"

definition me_handler :: "Env \<Rightarrow> handler" where
  "me_handler env req resp b =
     (case getBearerToken req of
        None \<Rightarrow> Some (setUnauthorized resp, b)
      | Some t \<Rightarrow>
          (let (r, svc) = verifyToken (env_now env) t (authService b); b = b\<lparr>authService := svc\<rparr> in
           case r of
             None \<Rightarrow> Some (setUnauthorized resp, b)
           | Some s \<Rightarrow> Some (setJson k200Ok ''OK'' (makeOk (makeUserData s)) resp, b)))"

definition logout_handler :: handler where
  "logout_handler req resp b =
     (case getBearerToken req of
        None \<Rightarrow> Some (setUnauthorized resp, b)
      | Some t \<Rightarrow>
          (let (ok, svc) = logout t (authService b); b = b\<lparr>authService := svc\<rparr> in
           if \<not> ok then Some (setUnauthorized resp, b)
           else Some (setJson k200Ok ''OK'' (makeOk ''null'') resp, b)))"

definition ticket_handler :: "Env \<Rightarrow> handler" where
  "ticket_handler env req resp b =
     (case getBearerToken req of
        None \<Rightarrow> Some (setUnauthorized resp, b)
      | Some t \<Rightarrow>
          (let (r, svc) = verifyToken (env_now env) t (authService b); b = b\<lparr>authService := svc\<rparr> in
           case r of
             None \<Rightarrow> Some (setUnauthorized resp, b)
           | Some s \<Rightarrow>
               (case parseJsonObject (body req) of
                  None \<Rightarrow> Some (setBadRequest resp, b)
                | Some obj \<Rightarrow>
                    (case (getString ''streamName'' obj, getString ''permission'' obj) of
                       (Some name, Some permissionText) \<Rightarrow>
                         (if \<not> isValidStreamName name then Some (setBadRequest resp, b)
                          else let permission = rtmpPermissionFromString permissionText in
                            if permission = kUnknownPermission then Some (setBadRequest resp, b)
                            else case createTicket (ticketGen env) (env_now env) s (login_makeStreamKey kRtmpApp name)
                                        permission (rtmpTicketManager b) of
                              None \<Rightarrow> None
                            | Some (tk, rt) \<Rightarrow>
                                Some (setJson k200Ok ''OK'' (makeOk (makeRtmpTicketData tk kRtmpHost (rtmpPort env) kRtmpApp name)) resp,
                                  b\<lparr>rtmpTicketManager := rt\<rparr>))
                     | _ \<Rightarrow> Some (setBadRequest resp, b)))))"

definition lift_handler :: "handler \<Rightarrow> Backend option HttpCallback" where
  "lift_handler h req resp w =
     (case w of
        None \<Rightarrow> (resp, None)
      | Some b \<Rightarrow> (case h req resp b of None \<Rightarrow> (resp, None) | Some (resp, b) \<Rightarrow> (resp, Some b)))"

definition login_router :: "Env \<Rightarrow> Backend option Router" where
  "login_router env =
     router_post ''/api/rtmp/ticket'' (lift_handler (ticket_handler env))
      (router_post ''/api/logout'' (lift_handler logout_handler)
      (router_get ''/api/me'' (lift_handler (me_handler env))
      (router_post ''/api/login'' (lift_handler (login_handler env))
      (router_get ''/api/health'' (lift_handler health_handler) Map.empty))))"

text \<open>
  The callback of the RTMP server at a given time. Checking a ticket may erase it when it has
  expired; that changes no later check, so the callback is taken as a function of the state.
\<close>

definition rtmp_auth :: "int \<Rightarrow> RtmpTicketManager \<Rightarrow> auth_callback" where
  "rtmp_auth now rt =
     Some (\<lambda>key t publish. if publish then fst (verifyPublish now t key rt) \<noteq> None
                           else fst (verifyPlay now t key rt) \<noteq> None)"

section \<open>A ticket opens its stream\<close>

lemma valid_name_chars: "isValidStreamName name \<Longrightarrow> name \<noteq> [] \<and> CHR ''?'' \<notin> set name"
  by (auto simp: isValidStreamName_def isalnum_def list_all_iff)

lemma createTicket_returns:
  assumes "removeExpired ticket_expireAt now (tickets rt) (draw gen (rt_position rt + 2 * n)) = None"
  obtains tk rt' where "createTicket gen now s key perm rt = Some (tk, rt')" "CHR ''&'' \<notin> set (ticket tk)"
    "ticket_expireAt tk = now + rt_ttlSeconds rt"
proof -
  let ?used = "\<lambda>t. removeExpired ticket_expireAt now (tickets rt) t \<noteq> None"
  obtain t p where g: "generateUnused gen ?used (rt_position rt) = Some (t, p)"
    using generateUnused_returns [of ?used gen "rt_position rt" n] assms by blast
  obtain k where "t = draw gen k" using generateUnused_draw [OF g] by blast
  then have "CHR ''&'' \<notin> set t" using draw_no_ampersand by simp
  with g that show ?thesis by (simp add: createTicket_def Let_def)
qed

lemma authorize_rtmp:
  "authorizePublish (rtmp_auth now rt) key t \<longleftrightarrow> fst (verifyPublish now t key rt) \<noteq> None"
  "authorizePlay (rtmp_auth now rt) key t \<longleftrightarrow> fst (verifyPlay now t key rt) \<noteq> None"
  by (simp_all add: authorizePublish_def authorizePlay_def rtmp_auth_def)

lemma verifyToken_live:
  "tm_sessions (tokenManager svc) t = Some s \<Longrightarrow> now < session_expireAt s \<Longrightarrow> t \<noteq> [] \<Longrightarrow>
     verifyToken now t svc = (Some s, svc)"
  by (simp add: verifyToken_def tm_verify_def)

lemma getBearerToken_nonempty: "getBearerToken req = Some t \<Longrightarrow> t \<noteq> []"
  by (auto simp: getBearerToken_def Let_def split: if_splits)

text \<open>
  C8: From login to streaming. A request for an RTMP ticket that carries a live token, a valid
  stream name and a permission is answered with 200 and the address of the stream with a new
  ticket. The stream name with this ticket, as the address has it, is what the RTMP server splits
  into the name and the ticket again; and until the ticket expires, whatever other tickets are
  issued and checked in between, the RTMP server authorises publishing and playing that stream
  with it exactly as the permission says, and never afterwards.
\<close>

theorem ticket_opens_stream:
  assumes "getBearerToken req = Some t" "tm_sessions (tokenManager (authService b)) t = Some s"
    "env_now env < session_expireAt s" "parseJsonObject (body req) = Some obj"
    "obj ''streamName'' = Some name" "isValidStreamName name" "obj ''permission'' = Some ptext"
    "rtmpPermissionFromString ptext = perm" "perm \<noteq> kUnknownPermission"
    "removeExpired ticket_expireAt (env_now env) (tickets (rtmpTicketManager b))
       (draw (ticketGen env) (rt_position (rtmpTicketManager b) + 2 * n)) = None"
  shows "\<exists>tk rt. ticket_handler env req resp b =
      Some (setJson k200Ok ''OK'' (makeOk (makeRtmpTicketData tk kRtmpHost (rtmpPort env) kRtmpApp name)) resp,
            b\<lparr>rtmpTicketManager := rt\<rparr>) \<and>
    ParseStreamTarget (name @ ''?ticket='' @ ticket tk) = Some \<lparr>target_streamName = name, target_ticket = ticket tk\<rparr> \<and>
    ticket_expireAt tk = env_now env + rt_ttlSeconds (rtmpTicketManager b) \<and>
    (\<forall>rt2 now'. ticket_later (ticketGen env) (ticket_expireAt tk) rt rt2 \<longrightarrow>
       (authorizePublish (rtmp_auth now' rt2) (MakeStreamKey kRtmpApp name) (ticket tk) \<longleftrightarrow>
          now' < ticket_expireAt tk \<and> perm \<in> {kPublish, kBoth}) \<and>
       (authorizePlay (rtmp_auth now' rt2) (MakeStreamKey kRtmpApp name) (ticket tk) \<longleftrightarrow>
          now' < ticket_expireAt tk \<and> perm \<in> {kPlay, kBoth}))"
proof -
  let ?key = "MakeStreamKey kRtmpApp name" and ?rt = "rtmpTicketManager b"
  have key: "login_makeStreamKey kRtmpApp name = ?key" by (simp add: login_makeStreamKey_def MakeStreamKey_def)
  obtain tk rt where tk: "createTicket (ticketGen env) (env_now env) s ?key perm ?rt = Some (tk, rt)"
    "CHR ''&'' \<notin> set (ticket tk)" "ticket_expireAt tk = env_now env + rt_ttlSeconds ?rt"
    by (rule createTicket_returns [OF assms(10)])
  have auth: "(authorizePublish (rtmp_auth now' rt2) ?key (ticket tk) \<longleftrightarrow>
          now' < ticket_expireAt tk \<and> perm \<in> {kPublish, kBoth}) \<and>
       (authorizePlay (rtmp_auth now' rt2) ?key (ticket tk) \<longleftrightarrow>
          now' < ticket_expireAt tk \<and> perm \<in> {kPlay, kBoth})"
    if later: "ticket_later (ticketGen env) (ticket_expireAt tk) rt rt2" for rt2 now'
    using ticket_accepts [OF tk(1) later, of now' ?key] by (auto simp: authorize_rtmp)
  have reply: "ticket_handler env req resp b =
      Some (setJson k200Ok ''OK'' (makeOk (makeRtmpTicketData tk kRtmpHost (rtmpPort env) kRtmpApp name)) resp,
            b\<lparr>rtmpTicketManager := rt\<rparr>)"
    using assms(1,4-9) tk(1) key verifyToken_live [OF assms(2,3) getBearerToken_nonempty [OF assms(1)]]
    by (simp add: ticket_handler_def getString_def Let_def)
  have "ParseStreamTarget (name @ ''?ticket='' @ ticket tk) =
      Some \<lparr>target_streamName = name, target_ticket = ticket tk\<rparr>"
    using ParseStreamTarget_ticket [of name "ticket tk" "[]"] valid_name_chars [OF assms(6)] tk(2) by simp
  with reply tk(3) auth show ?thesis by (intro exI [of _ tk] exI [of _ rt] conjI allI impI) auto
qed

definition sample_env :: Env where
  "sample_env = \<lparr>env_hash = (\<lambda>_. 7), tokenGen = sample_gen, ticketGen = sample_gen, env_now = 100, rtmpPort = 1935\<rparr>"

definition sample_session :: AuthSession where
  "sample_session = \<lparr>token = ''tok'', session_userId = ''teacher01'', session_username = ''teacher01'',
     session_role = kTeacher, session_expireAt = 7300\<rparr>"

definition sample_backend :: Backend where
  "sample_backend = (newBackend (\<lambda>_. 7))\<lparr>authService := (newAuthService (\<lambda>_. 7))
     \<lparr>tokenManager := (newTokenManager 7200)\<lparr>tm_sessions := [''tok'' \<mapsto> sample_session]\<rparr>\<rparr>\<rparr>"

definition ticket_request :: HttpRequest where
  "ticket_request = newHttpRequest\<lparr>http_method := kPost, path := ''/api/rtmp/ticket'',
     headers := [(''Authorization'', ''Bearer tok'')],
     body := ''{'' @ makeField ''streamName'' ''a1'' @ '','' @ makeField ''permission'' ''publish'' @ ''}''\<rparr>"

lemma ticket_request_parts:
  "getBearerToken ticket_request = Some ''tok''"
  "map_option (\<lambda>obj. (obj ''streamName'', obj ''permission'')) (parseJsonObject (body ticket_request))
     = Some (Some ''a1'', Some ''publish'')"
  "isValidStreamName ''a1''" "rtmpPermissionFromString ''publish'' = kPublish"
  by code_simp+

theorem ticket_opens_stream_witness:
  "\<exists>tk rt. ticket_handler sample_env ticket_request (newHttpResponse False) sample_backend =
      Some (setJson k200Ok ''OK'' (makeOk (makeRtmpTicketData tk kRtmpHost 1935 kRtmpApp ''a1'')) (newHttpResponse False),
            sample_backend\<lparr>rtmpTicketManager := rt\<rparr>) \<and>
    authorizePublish (rtmp_auth 399 rt) ''/live/a1'' (ticket tk) \<and>
    \<not> authorizePlay (rtmp_auth 399 rt) ''/live/a1'' (ticket tk) \<and>
    \<not> authorizePublish (rtmp_auth 400 rt) ''/live/a1'' (ticket tk)"
proof -
  obtain obj where obj: "parseJsonObject (body ticket_request) = Some obj" "obj ''streamName'' = Some ''a1''"
    "obj ''permission'' = Some ''publish''" using ticket_request_parts(2) by auto
  have b: "tm_sessions (tokenManager (authService sample_backend)) ''tok'' = Some sample_session"
    "env_now sample_env < session_expireAt sample_session" "rtmpPort sample_env = 1935"
    "env_now sample_env + rt_ttlSeconds (rtmpTicketManager sample_backend) = 400"
    "removeExpired ticket_expireAt (env_now sample_env) (tickets (rtmpTicketManager sample_backend))
       (draw (ticketGen sample_env) (rt_position (rtmpTicketManager sample_backend) + 2 * 0)) = None"
    "MakeStreamKey kRtmpApp ''a1'' = ''/live/a1''"
    by (simp_all add: sample_backend_def sample_session_def sample_env_def newBackend_def newRtmpTicketManager_def
        removeExpired_def MakeStreamKey_def kRtmpApp_def)
  have "kPublish \<noteq> kUnknownPermission" by simp
  from ticket_opens_stream [OF ticket_request_parts(1) b(1,2) obj(1,2) ticket_request_parts(3) obj(3)
      ticket_request_parts(4) this b(5), of "newHttpResponse False"]
  obtain tk rt where *: "ticket_handler sample_env ticket_request (newHttpResponse False) sample_backend =
      Some (setJson k200Ok ''OK'' (makeOk (makeRtmpTicketData tk kRtmpHost 1935 kRtmpApp ''a1'')) (newHttpResponse False),
            sample_backend\<lparr>rtmpTicketManager := rt\<rparr>)" "ticket_expireAt tk = 400"
    and later: "\<forall>rt2 now'. ticket_later (ticketGen sample_env) 400 rt rt2 \<longrightarrow>
       (authorizePublish (rtmp_auth now' rt2) ''/live/a1'' (ticket tk) \<longleftrightarrow> now' < 400) \<and>
       \<not> authorizePlay (rtmp_auth now' rt2) ''/live/a1'' (ticket tk)"
    unfolding b(3,4,6) by auto
  then show ?thesis using later [rule_format, OF ticket_later.same] by (intro exI [of _ tk] exI [of _ rt]) simp
qed

section \<open>Only users who logged in get to a stream\<close>

text \<open>A request that presents the password of the user \<open>name\<close>.\<close>

definition shows_password :: "(string \<Rightarrow> u64) \<Rightarrow> string \<Rightarrow> HttpRequest \<Rightarrow> bool" where
  "shows_password h name req \<longleftrightarrow>
     http_method req = kPost \<and> path req = ''/api/login'' \<and>
     (case parseJsonObject (body req) of
        None \<Rightarrow> False
      | Some obj \<Rightarrow>
          (case (getString ''username'' obj, getString ''password'' obj, findByUsername name (newUserStore h)) of
             (Some n, Some pw, Some u) \<Rightarrow> n = name \<and> passwordHash u = makePasswordHash h pw \<and> enabled u
           | _ \<Rightarrow> False))"

text \<open>A request for a ticket that permits publishing (or playing) the stream \<open>key\<close>.\<close>

definition asks_ticket :: "string \<Rightarrow> bool \<Rightarrow> HttpRequest \<Rightarrow> bool" where
  "asks_ticket key publish req \<longleftrightarrow>
     http_method req = kPost \<and> path req = ''/api/rtmp/ticket'' \<and> getBearerToken req \<noteq> None \<and>
     (case parseJsonObject (body req) of
        None \<Rightarrow> False
      | Some obj \<Rightarrow>
          (case (getString ''streamName'' obj, getString ''permission'' obj) of
             (Some n, Some p) \<Rightarrow> isValidStreamName n \<and> key = MakeStreamKey kRtmpApp n \<and>
               rtmpPermissionFromString p \<in> {kBoth, if publish then kPublish else kPlay}
           | _ \<Rightarrow> False))"

definition session_vouched :: "(string \<Rightarrow> u64) \<Rightarrow> HttpRequest list \<Rightarrow> AuthSession \<Rightarrow> bool" where
  "session_vouched h reqs s \<longleftrightarrow> list_ex (shows_password h (session_username s)) reqs"

text \<open>
  In a history of requests, the latest first: a request for the ticket that comes after a request
  that presented the password of \<open>name\<close>.
\<close>

fun granted :: "(string \<Rightarrow> u64) \<Rightarrow> string \<Rightarrow> string \<Rightarrow> bool \<Rightarrow> HttpRequest list \<Rightarrow> bool" where
  "granted h name key publish [] \<longleftrightarrow> False"
| "granted h name key publish (req # reqs) \<longleftrightarrow>
     asks_ticket key publish req \<and> list_ex (shows_password h name) reqs \<or> granted h name key publish reqs"

definition ticket_vouched :: "(string \<Rightarrow> u64) \<Rightarrow> HttpRequest list \<Rightarrow> RtmpTicket \<Rightarrow> bool" where
  "ticket_vouched h reqs tk \<longleftrightarrow>
     (allowPublish tk \<longrightarrow> granted h (ticket_username tk) (ticket_streamKey tk) True reqs) \<and>
     (allowPlay tk \<longrightarrow> granted h (ticket_username tk) (ticket_streamKey tk) False reqs)"

definition backend_ok :: "(string \<Rightarrow> u64) \<Rightarrow> HttpRequest list \<Rightarrow> Backend \<Rightarrow> bool" where
  "backend_ok h reqs b \<longleftrightarrow>
     userStore (authService b) = newUserStore h \<and>
     (\<forall>s \<in> ran (tm_sessions (tokenManager (authService b))). session_vouched h reqs s) \<and>
     (\<forall>tk \<in> ran (tickets (rtmpTicketManager b)). ticket_vouched h reqs tk)"

lemma vouched_later:
  "session_vouched h reqs s \<Longrightarrow> session_vouched h (req # reqs) s"
  "ticket_vouched h reqs tk \<Longrightarrow> ticket_vouched h (req # reqs) tk"
  by (auto simp: session_vouched_def ticket_vouched_def)

lemma backend_ok_later: "backend_ok h reqs b \<Longrightarrow> backend_ok h (req # reqs) b"
  by (simp add: backend_ok_def vouched_later)

lemma ran_removeExpired: "ran (removeExpired ex now m) \<subseteq> ran m"
  by (auto simp: removeExpired_def ran_def split: option.splits if_splits)

lemma ran_erase: "ran (m(k := None)) \<subseteq> ran m"
  by (auto simp: ran_def split: if_splits)

lemma ran_insert: "ran (m(k \<mapsto> v)) \<subseteq> insert v (ran m)"
  by (auto simp: ran_def split: if_splits)

lemma login_router_cases:
  assumes "route (login_router env) req resp (Some b) = (resp', Some b')"
  obtains "b' = b"
  | "http_method req = kPost" "path req = ''/api/login''" "login_handler env req resp b = Some (resp', b')"
  | "me_handler env req resp b = Some (resp', b')"
  | "logout_handler req resp b = Some (resp', b')"
  | "http_method req = kPost" "path req = ''/api/rtmp/ticket''" "ticket_handler env req resp b = Some (resp', b')"
  using assms
  by (auto simp: route_def login_router_def router_post_def router_get_def addRoute_def lift_handler_def
      health_handler_def split: if_splits option.splits)

lemma verifyToken_shrinks:
  assumes "verifyToken now t svc = (r, svc')"
  shows "userStore svc' = userStore svc"
    "ran (tm_sessions (tokenManager svc')) \<subseteq> ran (tm_sessions (tokenManager svc))"
    "r = Some s \<Longrightarrow> s \<in> ran (tm_sessions (tokenManager svc))"
  using assms
  by (auto simp: verifyToken_def tm_verify_def intro: ranI split: if_splits option.splits dest: subsetD [OF ran_erase])

lemma logout_shrinks:
  assumes "logout t svc = (r, svc')"
  shows "userStore svc' = userStore svc"
    "ran (tm_sessions (tokenManager svc')) \<subseteq> ran (tm_sessions (tokenManager svc))"
  using assms by (auto simp: logout_def tm_remove_def split: if_splits dest: subsetD [OF ran_erase])

lemma rt_verify_shrinks: "ran (tickets (snd (rt_verify now t key pub rt))) \<subseteq> ran (tickets rt)"
  by (auto simp: rt_verify_def split: option.splits dest: subsetD [OF ran_erase])

lemma backend_ok_shrink:
  assumes "backend_ok h reqs b" "userStore svc = userStore (authService b)"
    "ran (tm_sessions (tokenManager svc)) \<subseteq> ran (tm_sessions (tokenManager (authService b)))"
  shows "backend_ok h reqs (b\<lparr>authService := svc\<rparr>)"
  using assms by (auto simp: backend_ok_def)

lemma me_handler_ok:
  assumes "backend_ok h reqs b" "me_handler env req resp b = Some (resp', b')"
  shows "backend_ok h reqs b'"
  using assms
  by (auto simp: me_handler_def Let_def intro: backend_ok_shrink [OF assms(1) verifyToken_shrinks(1,2)]
      split: option.splits prod.splits)

lemma logout_handler_ok:
  assumes "backend_ok h reqs b" "logout_handler req resp b = Some (resp', b')"
  shows "backend_ok h reqs b'"
  using assms
  by (auto simp: logout_handler_def Let_def intro: backend_ok_shrink [OF assms(1) logout_shrinks(1,2)]
      split: option.splits prod.splits if_splits)

lemma login_result:
  assumes "login h gen now name pw role svc = Some (r, svc')" "userStore svc = newUserStore h"
  shows "userStore svc' = newUserStore h"
    "tm_sessions (tokenManager svc') = tm_sessions (tokenManager svc) \<or>
     (\<exists>s u. ran (tm_sessions (tokenManager svc')) \<subseteq> insert s (ran (tm_sessions (tokenManager svc))) \<and>
        session_username s = name \<and> findByUsername name (newUserStore h) = Some u \<and>
        passwordHash u = makePasswordHash h pw \<and> enabled u)"
proof -
  show "userStore svc' = newUserStore h"
    using assms by (auto simp: login_def bind_eq_Some_conv split: if_splits option.splits)
  show "tm_sessions (tokenManager svc') = tm_sessions (tokenManager svc) \<or>
     (\<exists>s u. ran (tm_sessions (tokenManager svc')) \<subseteq> insert s (ran (tm_sessions (tokenManager svc))) \<and>
        session_username s = name \<and> findByUsername name (newUserStore h) = Some u \<and>
        passwordHash u = makePasswordHash h pw \<and> enabled u)"
  proof (cases "svc' = svc")
    case False
    with assms obtain u s tm where u: "findByUsername name (newUserStore h) = Some u"
        "passwordHash u = makePasswordHash h pw" "enabled u"
      and c: "createSession gen now u (tokenManager svc) = Some (s, tm)" "svc' = svc\<lparr>tokenManager := tm\<rparr>"
      by (auto simp: login_def bind_eq_Some_conv split: if_splits option.splits)
    have "session_username s = name"
      using c(1) u(1) user_store_ok_name [OF newUserStore_ok]
      by (auto simp: createSession_def findByUsername_def bind_eq_Some_conv Let_def)
    moreover have "ran (tm_sessions tm) \<subseteq> insert s (ran (tm_sessions (tokenManager svc)))"
      using c(1) ran_insert ran_removeExpired [of session_expireAt now "tm_sessions (tokenManager svc)"]
      by (fastforce simp: createSession_def bind_eq_Some_conv Let_def)
    ultimately show ?thesis using u c(2) by auto
  qed simp
qed

lemma login_handler_ok:
  assumes ok: "backend_ok h reqs b" and env: "env_hash env = h"
    and req: "http_method req = kPost" "path req = ''/api/login''"
    and step: "login_handler env req resp b = Some (resp', b')"
  shows "backend_ok h (req # reqs) b'"
proof (cases "b' = b")
  case True
  with ok show ?thesis by (simp add: backend_ok_later)
next
  case False
  with step env obtain obj name pw role r svc where j: "parseJsonObject (body req) = Some obj"
      "getString ''username'' obj = Some name" "getString ''password'' obj = Some pw"
    and l: "login h (tokenGen env) (env_now env) name pw role (authService b) = Some (r, svc)"
    and b': "b' = b\<lparr>authService := svc\<rparr>"
    by (auto simp: login_handler_def split: option.splits sum.splits)
  have old: "\<forall>s \<in> ran (tm_sessions (tokenManager (authService b))). session_vouched h (req # reqs) s"
    "\<forall>tk \<in> ran (tickets (rtmpTicketManager b)). ticket_vouched h (req # reqs) tk"
    "userStore (authService b) = newUserStore h"
    using ok by (auto simp: backend_ok_def vouched_later)
  have new: "session_vouched h (req # reqs) s"
    if "session_username s = name" "findByUsername name (newUserStore h) = Some u"
      "passwordHash u = makePasswordHash h pw" "enabled u" for s u
    using that j req by (simp add: session_vouched_def shows_password_def)
  show ?thesis
    using login_result [OF l old(3)] old new b' by (fastforce simp: backend_ok_def)
qed

lemma ticket_handler_ok:
  assumes ok: "backend_ok h reqs b"
    and req: "http_method req = kPost" "path req = ''/api/rtmp/ticket''"
    and step: "ticket_handler env req resp b = Some (resp', b')"
  shows "backend_ok h (req # reqs) b'"
proof -
  consider (none) "getBearerToken req = None" "b' = b"
    | (auth) t r svc where "getBearerToken req = Some t" "verifyToken (env_now env) t (authService b) = (r, svc)"
    using step by (cases "getBearerToken req"; cases "verifyToken (env_now env) (the (getBearerToken req)) (authService b)")
      (auto simp: ticket_handler_def)
  then show ?thesis
  proof cases
    case none
    with ok show ?thesis by (simp add: backend_ok_later)
  next
    case auth
    let ?b = "b\<lparr>authService := svc\<rparr>"
    have okb: "backend_ok h (req # reqs) ?b"
      using backend_ok_later [OF backend_ok_shrink [OF ok verifyToken_shrinks(1,2) [OF auth(2)]]] .
    show ?thesis
    proof (cases "b' = ?b")
      case False
      with step auth obtain s obj name ptext tk rt where s: "r = Some s" "parseJsonObject (body req) = Some obj"
          "getString ''streamName'' obj = Some name" "getString ''permission'' obj = Some ptext" "isValidStreamName name"
        and c: "createTicket (ticketGen env) (env_now env) s (MakeStreamKey kRtmpApp name) (rtmpPermissionFromString ptext)
            (rtmpTicketManager b) = Some (tk, rt)" "b' = ?b\<lparr>rtmpTicketManager := rt\<rparr>"
        by (auto simp: ticket_handler_def login_makeStreamKey_def MakeStreamKey_def Let_def
            split: option.splits if_splits)
      have "list_ex (shows_password h (session_username s)) reqs"
        using verifyToken_shrinks(3) [OF auth(2) s(1)] ok by (auto simp: backend_ok_def session_vouched_def)
      then have "ticket_vouched h (req # reqs) tk"
        using c(1) s req auth(1) by (auto simp: ticket_vouched_def asks_ticket_def createTicket_def bind_eq_Some_conv Let_def)
      moreover have "ran (tickets rt) \<subseteq> insert tk (ran (tickets (rtmpTicketManager b)))"
        using c(1) ran_insert ran_removeExpired [of ticket_expireAt "env_now env" "tickets (rtmpTicketManager b)"]
        by (fastforce simp: createTicket_def bind_eq_Some_conv Let_def)
      ultimately show ?thesis using okb c(2) by (auto simp: backend_ok_def)
    qed (use okb in simp)
  qed
qed

lemma route_ok:
  assumes "backend_ok (env_hash env) reqs b" "route (login_router env) req resp (Some b) = (resp', Some b')"
  shows "backend_ok (env_hash env) (req # reqs) b'"
  using assms(2)
  by (cases rule: login_router_cases)
    (use assms(1) in \<open>auto intro: backend_ok_later login_handler_ok ticket_handler_ok dest: me_handler_ok logout_handler_ok\<close>)

lemma newBackend_ok: "backend_ok h [] (newBackend h)"
  by (simp add: backend_ok_def newBackend_def newAuthService_def newTokenManager_def newRtmpTicketManager_def)

text \<open>Erasing an expired ticket changes no check from then on.\<close>

lemma rt_verify_erases:
  "now \<le> now' \<Longrightarrow>
     fst (rt_verify now' t' key' pub' (snd (rt_verify now t key pub rt))) = fst (rt_verify now' t' key' pub' rt)"
  by (auto simp: rt_verify_def split: option.splits)

section \<open>Requests without a live token\<close>

text \<open>
  The protected routes refuse a request that has no live token. Asking for the current user or
  for an RTMP ticket with no bearer token, an unknown one or an expired one is answered with 401
  and the unauthorised error, creates no ticket and no session, and forgets at most the expired
  session.
\<close>

theorem protected_routes_refuse:
  assumes "(http_method req, path req) \<in> {(kGet, ''/api/me''), (kPost, ''/api/rtmp/ticket'')}"
    and "getBearerToken req = None \<or>
      (\<exists>t. getBearerToken req = Some t \<and>
         (case tm_sessions (tokenManager (authService b)) t of None \<Rightarrow> True | Some s \<Rightarrow> session_expireAt s \<le> env_now env))"
  shows "\<exists>b'. route (login_router env) req resp (Some b) = (setUnauthorized resp, Some b') \<and>
    rtmpTicketManager b' = rtmpTicketManager b \<and> userStore (authService b') = userStore (authService b) \<and>
    tm_sessions (tokenManager (authService b')) \<subseteq>\<^sub>m tm_sessions (tokenManager (authService b)) \<and>
    (\<forall>t s. tm_sessions (tokenManager (authService b)) t = Some s \<and> env_now env < session_expireAt s \<longrightarrow>
       tm_sessions (tokenManager (authService b')) t = Some s)"
proof -
  have refuse: "getBearerToken req = None \<or> (\<exists>t svc. getBearerToken req = Some t \<and>
      verifyToken (env_now env) t (authService b) = (None, svc) \<and> userStore svc = userStore (authService b) \<and>
      tm_sessions (tokenManager svc) \<subseteq>\<^sub>m tm_sessions (tokenManager (authService b)) \<and>
      (\<forall>t s. tm_sessions (tokenManager (authService b)) t = Some s \<and> env_now env < session_expireAt s \<longrightarrow>
         tm_sessions (tokenManager svc) t = Some s))"
    using assms(2) getBearerToken_nonempty [of req]
    by (auto simp: verifyToken_def tm_verify_def map_le_def split: option.splits)
  have r: "route (login_router env) req resp (Some b) =
      (if http_method req = kGet then lift_handler (me_handler env) req resp (Some b)
       else lift_handler (ticket_handler env) req resp (Some b))"
    using assms(1) by (auto simp: route_def login_router_def router_post_def router_get_def addRoute_def)
  from refuse show ?thesis
    by (auto simp: r lift_handler_def me_handler_def ticket_handler_def)
qed

theorem protected_routes_refuse_witness:
  "\<exists>b'. route (login_router (sample_env\<lparr>env_now := 7300\<rparr>)) ticket_request (newHttpResponse False) (Some sample_backend)
      = (setUnauthorized (newHttpResponse False), Some b') \<and> rtmpTicketManager b' = rtmpTicketManager sample_backend"
proof -
  have "(http_method ticket_request, path ticket_request) \<in> {(kGet, ''/api/me''), (kPost, ''/api/rtmp/ticket'')}"
    by (simp add: ticket_request_def)
  moreover have "getBearerToken ticket_request = None \<or> (\<exists>t. getBearerToken ticket_request = Some t \<and>
      (case tm_sessions (tokenManager (authService sample_backend)) t of
         None \<Rightarrow> True | Some s \<Rightarrow> session_expireAt s \<le> env_now (sample_env\<lparr>env_now := 7300\<rparr>)))"
    by (simp add: ticket_request_parts sample_backend_def sample_session_def)
  ultimately show ?thesis using protected_routes_refuse by blast
qed

end
