(* ===== verification/TimerQueue.thy ===== *)
theory TimerQueue
  imports Prelude "HOL-Library.Product_Lexorder"
begin

text \<open>
  Timers (\<open>src/net/Timer.h\<close>, \<open>Timer.cc\<close>, \<open>TimerQueue.h\<close>, \<open>TimerQueue.cc\<close>, \<open>Timestamp.h\<close>), as the
  loop thread and the threads that add timers from outside run them.

  \<^item> Timer objects live in a heap and are referred to by address, because the code frees them by
    hand; \<open>None\<close> is the use of an address that holds no timer. Addresses may be reused: the
    allocator is a parameter that returns an address not in use.
  \<^item> \<open>addTimer\<close> ends with a read of the timer it has handed over. In the loop thread the timer is
    inserted before that read. From another thread the insertion is queued, and the read happens
    at some later moment: the two halves of the call are separate events, \<open>posted\<close> holds the timers
    whose insertion is queued, and \<open>reading\<close> those that a caller has still to read.
  \<^item> A timestamp is its number of microseconds; 64 bits of them last for 292,000 years, and the model does
    not bound them. Of the \<open>double\<close> that gives an interval the code uses
    only whether it is positive and its product with a million, truncated towards zero: that
    product is \<open>n\<close> for \<open>Positive n\<close> and \<open>-n\<close> for \<open>NonPositive n\<close>.
  \<^item> A callback is a number; what its body asks of the queue, in which state, is given by a parameter.
  \<^item> There are two clocks: the timestamps are read from the system clock, which can be set, and the timer
    descriptor counts on the monotonic one. A \<open>Clock\<close> is a reading of both. \<open>timerfd\<close> is the monotonic time at
    which the descriptor becomes readable, if it is armed.
  \<^item> History variables: \<open>fired\<close> holds the sequence numbers of the timers run so far, \<open>cancel_log\<close> the
    arguments of \<open>cancelInLoop\<close>.
\<close>

section \<open>Timers and the queue\<close>

datatype interval = is_Positive: Positive nat | NonPositive nat

definition kMicroSecondsPerSecond :: int where "kMicroSecondsPerSecond = 1000 * 1000"

definition addTime :: "int \<Rightarrow> interval \<Rightarrow> int" where
  "addTime timestamp seconds = timestamp + (case seconds of Positive delta \<Rightarrow> int delta | NonPositive delta \<Rightarrow> - int delta)"

definition valid :: "int \<Rightarrow> bool" where
  "valid timestamp \<longleftrightarrow> timestamp > 0"

record Timer =
  tm_callback :: nat
  expiration :: int
  interval :: interval
  repeat :: bool
  sequence :: int

definition restart :: "int \<Rightarrow> Timer \<Rightarrow> Timer" where
  "restart now tm = (if repeat tm then tm\<lparr>expiration := addTime now (interval tm)\<rparr> else tm\<lparr>expiration := 0\<rparr>)"

type_synonym TimerId = "nat \<times> int"

text \<open>The system clock and the monotonic clock.\<close>

type_synonym Clock = "int \<times> int"

record TimerQueue =
  timers :: "(int \<times> nat) list"
  activeTimers :: "TimerId set"
  callingExpiredTimers :: bool
  cancelingTimers :: "TimerId set"
  timer_heap :: "(nat \<times> Timer) list"
  numCreated :: int
  timerfd :: "int option"
  posted :: "nat list"
  reading :: "nat list"
  fired :: "int list"
  cancel_log :: "TimerId list"

definition newTimerQueue :: TimerQueue where
  "newTimerQueue = \<lparr>timers = [], activeTimers = {}, callingExpiredTimers = False, cancelingTimers = {},
     timer_heap = [], numCreated = 0, timerfd = None, posted = [], reading = [], fired = [], cancel_log = []\<rparr>"

definition deref :: "nat \<Rightarrow> TimerQueue \<Rightarrow> Timer option" where
  "deref p q = map_of (timer_heap q) p"

definition delete_timer :: "nat \<Rightarrow> TimerQueue \<Rightarrow> TimerQueue" where
  "delete_timer p q = q\<lparr>timer_heap := filter (\<lambda>e. fst e \<noteq> p) (timer_heap q)\<rparr>"

definition update_timer :: "nat \<Rightarrow> (Timer \<Rightarrow> Timer) \<Rightarrow> TimerQueue \<Rightarrow> TimerQueue" where
  "update_timer p f q =
     q\<lparr>timer_heap := map (\<lambda>e. if fst e = p then (fst e, f (snd e)) else e) (timer_heap q)\<rparr>"

text \<open>\<open>std::set\<close> as a strictly ordered list.\<close>

fun set_insert :: "'a::linorder \<Rightarrow> 'a list \<Rightarrow> 'a list" where
  "set_insert x [] = [x]"
| "set_insert x (y # ys) = (if x < y then x # y # ys else if x = y then y # ys else y # set_insert x ys)"

text \<open>Seconds and nanoseconds of the descriptor's timeout.\<close>

definition howMuchTimeFromNow :: "int \<Rightarrow> int \<Rightarrow> int \<times> int" where
  "howMuchTimeFromNow clock when =
     (let microseconds = when - clock;
          microseconds = (if microseconds < 100 then 100 else microseconds)
      in (microseconds div kMicroSecondsPerSecond, (microseconds mod kMicroSecondsPerSecond) * 1000))"

definition resetTimerfd :: "Clock \<Rightarrow> int \<Rightarrow> TimerQueue \<Rightarrow> TimerQueue" where
  "resetTimerfd clock when q =
     (let (sec, nsec) = howMuchTimeFromNow (fst clock) when
      in q\<lparr>timerfd := Some (snd clock + sec * kMicroSecondsPerSecond + nsec div 1000)\<rparr>)"

definition timer_insert :: "nat \<Rightarrow> TimerQueue \<Rightarrow> (bool \<times> TimerQueue) option" where
  "timer_insert p q =
     (case deref p q of
        None \<Rightarrow> None
      | Some tm \<Rightarrow>
          (let when = expiration tm;
               earliestChanged = (case timers q of [] \<Rightarrow> True | e # _ \<Rightarrow> when < fst e)
           in Some (earliestChanged,
                q\<lparr>timers := set_insert (when, p) (timers q),
                  activeTimers := insert (p, sequence tm) (activeTimers q)\<rparr>)))"

definition addTimerInLoop :: "Clock \<Rightarrow> nat \<Rightarrow> TimerQueue \<Rightarrow> TimerQueue option" where
  "addTimerInLoop clock p q =
     (case timer_insert p q of
        None \<Rightarrow> None
      | Some (earliestChanged, q) \<Rightarrow>
          (if earliestChanged
           then case deref p q of None \<Rightarrow> None | Some tm \<Rightarrow> Some (resetTimerfd clock (expiration tm) q)
           else Some q))"

definition newTimer :: "nat \<Rightarrow> int \<Rightarrow> interval \<Rightarrow> TimerQueue \<Rightarrow> Timer \<times> TimerQueue" where
  "newTimer cb when i q =
     (let s = numCreated q + 1 in
      (\<lparr>tm_callback = cb, expiration = when, interval = i, repeat = is_Positive i, sequence = s\<rparr>, q\<lparr>numCreated := s\<rparr>))"

text \<open>\<open>new Timer\<close> and \<open>TimerId(timer, timer->sequece())\<close>, the first and the last line of \<open>addTimer\<close>.\<close>

definition allocTimer ::
  "((nat \<times> Timer) list \<Rightarrow> nat) \<Rightarrow> nat \<Rightarrow> int \<Rightarrow> interval \<Rightarrow> TimerQueue \<Rightarrow> nat \<times> TimerQueue" where
  "allocTimer alloc cb when i q =
     (let p = alloc (timer_heap q); (tm, q) = newTimer cb when i q in (p, q\<lparr>timer_heap := (p, tm) # timer_heap q\<rparr>))"

definition makeTimerId :: "nat \<Rightarrow> TimerQueue \<Rightarrow> TimerId option" where
  "makeTimerId p q = map_option (\<lambda>tm. (p, sequence tm)) (deref p q)"

text \<open>\<open>addTimer\<close> in the thread of the loop, where \<open>runInLoop\<close> inserts the timer at once.\<close>

definition addTimer ::
  "((nat \<times> Timer) list \<Rightarrow> nat) \<Rightarrow> Clock \<Rightarrow> nat \<Rightarrow> int \<Rightarrow> interval \<Rightarrow> TimerQueue \<Rightarrow> (TimerId \<times> TimerQueue) option" where
  "addTimer alloc clock cb when i q =
     (let (p, q) = allocTimer alloc cb when i q
      in case addTimerInLoop clock p q of
           None \<Rightarrow> None
         | Some q \<Rightarrow> map_option (\<lambda>tid. (tid, q)) (makeTimerId p q))"

text \<open>\<open>addTimer\<close> in another thread, up to \<open>runInLoop\<close>, which queues the insertion, and from there on.\<close>

definition addTimer_post ::
  "((nat \<times> Timer) list \<Rightarrow> nat) \<Rightarrow> nat \<Rightarrow> int \<Rightarrow> interval \<Rightarrow> TimerQueue \<Rightarrow> TimerQueue" where
  "addTimer_post alloc cb when i q =
     (let (p, q) = allocTimer alloc cb when i q in q\<lparr>posted := posted q @ [p], reading := reading q @ [p]\<rparr>)"

definition addTimer_return :: "nat \<Rightarrow> TimerQueue \<Rightarrow> TimerQueue option" where
  "addTimer_return p q =
     (if p \<in> set (reading q)
      then map_option (\<lambda>tid. q\<lparr>reading := remove1 p (reading q)\<rparr>) (makeTimerId p q) else Some q)"

text \<open>The loop runs the first of the queued insertions.\<close>

definition run_posted :: "Clock \<Rightarrow> TimerQueue \<Rightarrow> TimerQueue option" where
  "run_posted clock q =
     (case posted q of [] \<Rightarrow> Some q | p # ps \<Rightarrow> addTimerInLoop clock p (q\<lparr>posted := ps\<rparr>))"

text \<open>The timers of \<open>EventLoop\<close>; \<open>now\<close> is the reading of the clock for the start of the delay.\<close>

definition runAt ::
  "((nat \<times> Timer) list \<Rightarrow> nat) \<Rightarrow> Clock \<Rightarrow> int \<Rightarrow> nat \<Rightarrow> TimerQueue \<Rightarrow> (TimerId \<times> TimerQueue) option" where
  "runAt alloc clock time cb q = addTimer alloc clock cb time (NonPositive 0) q"

definition runAfter ::
  "((nat \<times> Timer) list \<Rightarrow> nat) \<Rightarrow> int \<Rightarrow> Clock \<Rightarrow> interval \<Rightarrow> nat \<Rightarrow> TimerQueue \<Rightarrow> (TimerId \<times> TimerQueue) option" where
  "runAfter alloc now clock delay cb q = runAt alloc clock (addTime now delay) cb q"

definition runEvery ::
  "((nat \<times> Timer) list \<Rightarrow> nat) \<Rightarrow> int \<Rightarrow> Clock \<Rightarrow> interval \<Rightarrow> nat \<Rightarrow> TimerQueue \<Rightarrow> (TimerId \<times> TimerQueue) option" where
  "runEvery alloc now clock i cb q = addTimer alloc clock cb (addTime now i) i q"

definition cancelInLoop :: "TimerId \<Rightarrow> TimerQueue \<Rightarrow> TimerQueue option" where
  "cancelInLoop timer q =
     (let q = q\<lparr>cancel_log := cancel_log q @ [timer]\<rparr> in
      if timer \<in> activeTimers q then
        (case deref (fst timer) q of
           None \<Rightarrow> None
         | Some tm \<Rightarrow>
             Some (let q = q\<lparr>timers := filter (\<lambda>e. e \<noteq> (expiration tm, fst timer)) (timers q)\<rparr>;
                       q = delete_timer (fst timer) q
                   in q\<lparr>activeTimers := activeTimers q - {timer}\<rparr>))
      else if callingExpiredTimers q then Some (q\<lparr>cancelingTimers := insert timer (cancelingTimers q)\<rparr>)
      else Some q)"

text \<open>
  What a callback may ask of the queue: \<open>runAt\<close>, \<open>runAfter\<close>, \<open>runEvery\<close> and \<open>cancel\<close> of the loop. The
  first three are all \<open>addTimer\<close>.
\<close>

datatype TimerOp = AddOp Clock nat int interval | CancelOp TimerId

fun timer_op :: "((nat \<times> Timer) list \<Rightarrow> nat) \<Rightarrow> TimerOp \<Rightarrow> TimerQueue \<Rightarrow> TimerQueue option" where
  "timer_op alloc (AddOp clock cb when i) q = map_option snd (addTimer alloc clock cb when i q)"
| "timer_op alloc (CancelOp timer) q = cancelInLoop timer q"

fun timer_ops :: "((nat \<times> Timer) list \<Rightarrow> nat) \<Rightarrow> TimerOp list \<Rightarrow> TimerQueue \<Rightarrow> TimerQueue option" where
  "timer_ops alloc [] q = Some q"
| "timer_ops alloc (x # xs) q = (case timer_op alloc x q of None \<Rightarrow> None | Some q \<Rightarrow> timer_ops alloc xs q)"

text \<open>Entries before the sentry \<open>(now, UINTPTR_MAX)\<close>: no timer lives at the highest address.\<close>

fun forget_active :: "(int \<times> nat) list \<Rightarrow> TimerQueue \<Rightarrow> TimerQueue option" where
  "forget_active [] q = Some q"
| "forget_active (e # es) q =
     (case deref (snd e) q of
        None \<Rightarrow> None
      | Some tm \<Rightarrow> forget_active es (q\<lparr>activeTimers := activeTimers q - {(snd e, sequence tm)}\<rparr>))"

definition getExpired :: "int \<Rightarrow> TimerQueue \<Rightarrow> ((int \<times> nat) list \<times> TimerQueue) option" where
  "getExpired now q =
     (let expired = takeWhile (\<lambda>e. fst e \<le> now) (timers q) in
      case forget_active expired (q\<lparr>timers := dropWhile (\<lambda>e. fst e \<le> now) (timers q)\<rparr>) of
        None \<Rightarrow> None | Some q \<Rightarrow> Some (expired, q))"

fun run_expired ::
  "((nat \<times> Timer) list \<Rightarrow> nat) \<Rightarrow> (TimerQueue \<Rightarrow> nat \<Rightarrow> TimerOp list) \<Rightarrow> (int \<times> nat) list \<Rightarrow> TimerQueue \<Rightarrow> TimerQueue option" where
  "run_expired alloc cbs [] q = Some q"
| "run_expired alloc cbs (e # es) q =
     (case deref (snd e) q of
        None \<Rightarrow> None
      | Some tm \<Rightarrow>
          (case timer_ops alloc (cbs q (tm_callback tm)) (q\<lparr>fired := fired q @ [sequence tm]\<rparr>) of
             None \<Rightarrow> None
           | Some q \<Rightarrow> run_expired alloc cbs es q))"

fun readd_expired :: "int \<Rightarrow> (int \<times> nat) list \<Rightarrow> TimerQueue \<Rightarrow> TimerQueue option" where
  "readd_expired now [] q = Some q"
| "readd_expired now (e # es) q =
     (case deref (snd e) q of
        None \<Rightarrow> None
      | Some tm \<Rightarrow>
          (if repeat tm \<and> (snd e, sequence tm) \<notin> cancelingTimers q
           then case timer_insert (snd e) (update_timer (snd e) (restart now) q) of
                  None \<Rightarrow> None | Some (_, q) \<Rightarrow> readd_expired now es q
           else readd_expired now es (delete_timer (snd e) q)))"

definition reset_queue :: "int \<Rightarrow> Clock \<Rightarrow> (int \<times> nat) list \<Rightarrow> TimerQueue \<Rightarrow> TimerQueue option" where
  "reset_queue now clock expired q =
     (case readd_expired now expired q of
        None \<Rightarrow> None
      | Some q \<Rightarrow>
          (case timers q of
             [] \<Rightarrow> Some q
           | e # _ \<Rightarrow>
               (case deref (snd e) q of
                  None \<Rightarrow> None
                | Some tm \<Rightarrow>
                    Some (if valid (expiration tm) then resetTimerfd clock (expiration tm) q else q))))"

text \<open>Reading the descriptor disarms it: the timer is set without a period.\<close>

definition timer_handleRead ::
  "((nat \<times> Timer) list \<Rightarrow> nat) \<Rightarrow> (TimerQueue \<Rightarrow> nat \<Rightarrow> TimerOp list) \<Rightarrow> int \<Rightarrow> Clock \<Rightarrow> TimerQueue \<Rightarrow> TimerQueue option" where
  "timer_handleRead alloc cbs now clock q =
     (case getExpired now (q\<lparr>timerfd := None\<rparr>) of
        None \<Rightarrow> None
      | Some (expired, q) \<Rightarrow>
          (case run_expired alloc cbs expired (q\<lparr>callingExpiredTimers := True, cancelingTimers := {}\<rparr>) of
             None \<Rightarrow> None
           | Some q \<Rightarrow> reset_queue now clock expired (q\<lparr>callingExpiredTimers := False\<rparr>)))"

text \<open>The destructor; freeing an address that holds no timer is the failure \<open>None\<close>.\<close>

fun delete_all :: "(int \<times> nat) list \<Rightarrow> TimerQueue \<Rightarrow> TimerQueue option" where
  "delete_all [] q = Some q"
| "delete_all (e # es) q = (if deref (snd e) q = None then None else delete_all es (delete_timer (snd e) q))"

definition destroyTimerQueue :: "TimerQueue \<Rightarrow> TimerQueue option" where
  "destroyTimerQueue q = delete_all (timers q) (q\<lparr>timerfd := None\<rparr>)"

text \<open>
  What happens to the queue. In the loop thread: a request, made there or queued by another thread
  (\<open>cancel\<close> needs no second half), the descriptor, and the insertion of a timer added by another
  thread. In other threads: the two halves of \<open>addTimer\<close>.
\<close>

datatype TimerEvent =
    Request TimerOp
  | Expire int Clock
  | RunPosted Clock
  | AddPost nat int interval
  | AddReturn nat

fun timer_event ::
  "((nat \<times> Timer) list \<Rightarrow> nat) \<Rightarrow> (TimerQueue \<Rightarrow> nat \<Rightarrow> TimerOp list) \<Rightarrow> TimerEvent \<Rightarrow> TimerQueue \<Rightarrow> TimerQueue option" where
  "timer_event alloc cbs (Request x) q = timer_op alloc x q"
| "timer_event alloc cbs (Expire now clock) q = timer_handleRead alloc cbs now clock q"
| "timer_event alloc cbs (RunPosted clock) q = run_posted clock q"
| "timer_event alloc cbs (AddPost cb when i) q = Some (addTimer_post alloc cb when i q)"
| "timer_event alloc cbs (AddReturn p) q = addTimer_return p q"

fun timer_run ::
  "((nat \<times> Timer) list \<Rightarrow> nat) \<Rightarrow> (TimerQueue \<Rightarrow> nat \<Rightarrow> TimerOp list) \<Rightarrow> TimerEvent list \<Rightarrow> TimerQueue \<Rightarrow> TimerQueue option" where
  "timer_run alloc cbs [] q = Some q"
| "timer_run alloc cbs (x # xs) q =
     (case timer_event alloc cbs x q of None \<Rightarrow> None | Some q \<Rightarrow> timer_run alloc cbs xs q)"

section \<open>Memory safety\<close>

text \<open>
  The invariant, relative to the set of expired timers whose callbacks are being run: the ordered
  list and the set of active timers both hold exactly the other live timers.
\<close>

definition queue_inv :: "nat set \<Rightarrow> TimerQueue \<Rightarrow> bool" where
  "queue_inv P q \<longleftrightarrow>
     sorted_wrt (<) (timers q) \<and>
     activeTimers q = {(p, sequence tm) | p tm. deref p q = Some tm \<and> p \<notin> P} \<and>
     set (timers q) = {(expiration tm, p) | p tm. deref p q = Some tm \<and> p \<notin> P} \<and>
     (\<forall>p \<in> P. deref p q \<noteq> None) \<and>
     (\<forall>p tm. deref p q = Some tm \<longrightarrow> sequence tm \<le> numCreated q) \<and>
     (\<forall>p p' tm tm'. deref p q = Some tm \<longrightarrow> deref p' q = Some tm' \<longrightarrow> sequence tm = sequence tm' \<longrightarrow> p = p') \<and>
     (\<forall>p tm. deref p q = Some tm \<longrightarrow> repeat tm \<longrightarrow> is_Positive (interval tm))"

definition allocator :: "((nat \<times> Timer) list \<Rightarrow> nat) \<Rightarrow> bool" where
  "allocator alloc \<longleftrightarrow> (\<forall>h. map_of h (alloc h) = None)"

lemma queue_invD:
  assumes "queue_inv P q"
  shows "sorted_wrt (<) (timers q)"
    and "(p, s) \<in> activeTimers q \<longleftrightarrow> p \<notin> P \<and> (\<exists>tm. deref p q = Some tm \<and> sequence tm = s)"
    and "(t, p) \<in> set (timers q) \<longleftrightarrow> p \<notin> P \<and> (\<exists>tm. deref p q = Some tm \<and> expiration tm = t)"
    and "p \<in> P \<Longrightarrow> \<exists>tm. deref p q = Some tm"
    and "deref p q = Some tm \<Longrightarrow> sequence tm \<le> numCreated q"
    and "deref p q = Some tm \<Longrightarrow> deref p' q = Some tm' \<Longrightarrow> sequence tm = sequence tm' \<Longrightarrow> p = p'"
    and "deref p q = Some tm \<Longrightarrow> repeat tm \<Longrightarrow> is_Positive (interval tm)"
  using assms unfolding queue_inv_def by auto

lemma queue_invI:
  assumes "sorted_wrt (<) (timers q)"
    and "\<And>p s. (p, s) \<in> activeTimers q \<longleftrightarrow> p \<notin> P \<and> (\<exists>tm. deref p q = Some tm \<and> sequence tm = s)"
    and "\<And>t p. (t, p) \<in> set (timers q) \<longleftrightarrow> p \<notin> P \<and> (\<exists>tm. deref p q = Some tm \<and> expiration tm = t)"
    and "\<And>p. p \<in> P \<Longrightarrow> deref p q \<noteq> None"
    and "\<And>p tm. deref p q = Some tm \<Longrightarrow> sequence tm \<le> numCreated q"
    and "\<And>p p' tm tm'. deref p q = Some tm \<Longrightarrow> deref p' q = Some tm' \<Longrightarrow> sequence tm = sequence tm' \<Longrightarrow> p = p'"
    and "\<And>p tm. deref p q = Some tm \<Longrightarrow> repeat tm \<Longrightarrow> is_Positive (interval tm)"
  shows "queue_inv P q"
proof -
  have "activeTimers q = {(p, sequence tm) | p tm. deref p q = Some tm \<and> p \<notin> P}" using assms(2) by auto
  moreover have "set (timers q) = {(expiration tm, p) | p tm. deref p q = Some tm \<and> p \<notin> P}" using assms(3) by auto
  moreover have "\<forall>p p' tm tm'. deref p q = Some tm \<longrightarrow> deref p' q = Some tm' \<longrightarrow> sequence tm = sequence tm' \<longrightarrow> p = p'"
    using assms(6) by blast
  ultimately show ?thesis using assms(1,4,5,7) by (simp add: queue_inv_def)
qed

lemma deref_delete [simp]: "deref p (delete_timer p' q) = (if p = p' then None else deref p q)"
proof -
  have "map_of (filter (\<lambda>e. fst e \<noteq> p') h) p = (if p = p' then None else map_of h p)" for h :: "(nat \<times> Timer) list"
    by (induction h) auto
  then show ?thesis by (simp add: deref_def delete_timer_def)
qed

lemma deref_update [simp]:
  "deref p (update_timer p' f q) = (if p = p' then map_option f (deref p q) else deref p q)"
proof -
  have "map_of (map (\<lambda>e. if fst e = p' then (fst e, f (snd e)) else e) h) p =
      (if p = p' then map_option f (map_of h p) else map_of h p)" for h :: "(nat \<times> Timer) list"
    by (induction h) auto
  then show ?thesis by (simp add: deref_def update_timer_def)
qed

lemma deref_simps [simp]:
  "deref p (q\<lparr>timers := ts\<rparr>) = deref p q"
  "deref p (q\<lparr>activeTimers := a\<rparr>) = deref p q"
  "deref p (q\<lparr>callingExpiredTimers := b\<rparr>) = deref p q"
  "deref p (q\<lparr>cancelingTimers := c\<rparr>) = deref p q"
  "deref p (q\<lparr>numCreated := n\<rparr>) = deref p q"
  "deref p (q\<lparr>timerfd := d\<rparr>) = deref p q"
  "deref p (q\<lparr>fired := f\<rparr>) = deref p q"
  "deref p (q\<lparr>posted := ps\<rparr>) = deref p q"
  "deref p (q\<lparr>reading := ps\<rparr>) = deref p q"
  "deref p (q\<lparr>cancel_log := l\<rparr>) = deref p q"
  "deref p (resetTimerfd clock when q) = deref p q"
  "deref p (q\<lparr>timer_heap := (p', tm) # timer_heap q\<rparr>) = (if p = p' then Some tm else deref p q)"
  by (simp_all add: deref_def resetTimerfd_def split: prod.splits)

lemma heap_ops_keep [simp]:
  "timers (delete_timer p q) = timers q" "activeTimers (delete_timer p q) = activeTimers q"
  "numCreated (delete_timer p q) = numCreated q" "timers (update_timer p f q) = timers q"
  "activeTimers (update_timer p f q) = activeTimers q" "numCreated (update_timer p f q) = numCreated q"
  "cancelingTimers (delete_timer p q) = cancelingTimers q" "cancelingTimers (update_timer p f q) = cancelingTimers q"
  "fired (delete_timer p q) = fired q" "fired (update_timer p f q) = fired q"
  "timerfd (delete_timer p q) = timerfd q" "timerfd (update_timer p f q) = timerfd q"
  "posted (delete_timer p q) = posted q" "posted (update_timer p f q) = posted q"
  "cancel_log (delete_timer p q) = cancel_log q" "cancel_log (update_timer p f q) = cancel_log q"
  "callingExpiredTimers (delete_timer p q) = callingExpiredTimers q"
  "callingExpiredTimers (update_timer p f q) = callingExpiredTimers q"
  by (simp_all add: delete_timer_def update_timer_def)

lemma resetTimerfd_eq: "resetTimerfd clock when q = q\<lparr>timerfd := Some (snd clock + max 100 (when - fst clock))\<rparr>"
proof -
  have "m div k * k + m mod k * 1000 div 1000 = m" for m k :: int by simp
  then show ?thesis by (simp add: resetTimerfd_def howMuchTimeFromNow_def Let_def max_def)
qed

lemma set_set_insert [simp]: "set (set_insert x xs) = insert x (set xs)"
  by (induction xs) auto

lemma sorted_set_insert: "sorted_wrt (<) xs \<Longrightarrow> sorted_wrt (<) (set_insert (x :: 'a::linorder) xs)"
  by (induction xs) auto

text \<open>Putting a live timer that is in none of the lists, or was pending, into both.\<close>

lemma timer_insert_effect:
  assumes "queue_inv (insert p P) q" "p \<notin> P"
  obtains b q' where "timer_insert p q = Some (b, q')" "queue_inv P q'"
    "timer_heap q' = timer_heap q" "numCreated q' = numCreated q" "fired q' = fired q"
    "cancelingTimers q' = cancelingTimers q" "callingExpiredTimers q' = callingExpiredTimers q" "timerfd q' = timerfd q"
    "posted q' = posted q" "cancel_log q' = cancel_log q"
    "b = (timers q = [] \<or> (\<exists>tm. deref p q = Some tm \<and> expiration tm < fst (hd (timers q))))"
    "\<forall>tm. deref p q = Some tm \<longrightarrow> timers q' = set_insert (expiration tm, p) (timers q)"
proof -
  obtain tm where tm: "deref p q = Some tm" using queue_invD(4) [OF assms(1), of p] by auto
  let ?q = "q\<lparr>timers := set_insert (expiration tm, p) (timers q),
    activeTimers := insert (p, sequence tm) (activeTimers q)\<rparr>"
  have "queue_inv P ?q"
    using assms tm sorted_set_insert [of "timers q"] unfolding queue_inv_def by auto
  with that tm show ?thesis by (auto simp: timer_insert_def Let_def split: list.splits)
qed

text \<open>A new timer is live and in none of the lists.\<close>

lemma allocTimer_effect:
  assumes "queue_inv P q" "allocator alloc"
  obtains p q' where "allocTimer alloc cb when i q = (p, q')" "queue_inv (insert p P) q'" "deref p q = None" "p \<notin> P"
    "q' = q\<lparr>numCreated := numCreated q + 1, timer_heap := timer_heap q'\<rparr>"
    "\<And>p'. deref p' q' = (if p' = p then Some \<lparr>tm_callback = cb, expiration = when, interval = i,
        repeat = is_Positive i, sequence = numCreated q + 1\<rparr> else deref p' q)"
proof -
  let ?p = "alloc (timer_heap q)"
  let ?tm = "\<lparr>tm_callback = cb, expiration = when, interval = i, repeat = is_Positive i, sequence = numCreated q + 1\<rparr>"
  let ?q = "q\<lparr>numCreated := numCreated q + 1, timer_heap := (?p, ?tm) # timer_heap q\<rparr>"
  have fresh: "deref ?p q = None" using assms(2) by (simp add: allocator_def deref_def)
  have P: "?p \<notin> P" using fresh assms(1) by (auto simp: queue_inv_def)
  have d: "deref p' ?q = (if p' = ?p then Some ?tm else deref p' q)" for p' by (simp add: deref_def)
  have "queue_inv (insert ?p P) ?q"
  proof (rule queue_invI)
    note inv = queue_invD [OF assms(1)]
    have old: "sequence tm \<noteq> numCreated q + 1" if "deref p q = Some tm" for p tm using inv(5) [OF that] by simp
    show "sorted_wrt (<) (timers ?q)" using inv(1) by simp
    show "(p, s) \<in> activeTimers ?q \<longleftrightarrow> p \<notin> insert ?p P \<and> (\<exists>tm. deref p ?q = Some tm \<and> sequence tm = s)" for p s
      unfolding d using inv(2) [of p s] fresh by auto
    show "(t, p) \<in> set (timers ?q) \<longleftrightarrow> p \<notin> insert ?p P \<and> (\<exists>tm. deref p ?q = Some tm \<and> expiration tm = t)" for t p
      unfolding d using inv(3) [of t p] fresh by auto
    show "p \<in> insert ?p P \<Longrightarrow> deref p ?q \<noteq> None" for p unfolding d using inv(4) [of p] by auto
    show "deref p ?q = Some tm \<Longrightarrow> sequence tm \<le> numCreated ?q" for p tm
      unfolding d using inv(5) [of p tm] by (auto split: if_splits)
    show "deref p ?q = Some tm \<Longrightarrow> deref p' ?q = Some tm' \<Longrightarrow> sequence tm = sequence tm' \<Longrightarrow> p = p'" for p p' tm tm'
      unfolding d using inv(6) [of p tm p' tm'] old [of p tm] old [of p' tm'] by (auto split: if_splits)
    show "deref p ?q = Some tm \<Longrightarrow> repeat tm \<Longrightarrow> is_Positive (interval tm)" for p tm
      unfolding d using inv(7) [of p tm] by (auto split: if_splits)
  qed
  then show thesis
    using d fresh P by (intro that [of ?p ?q]) (simp_all add: allocTimer_def newTimer_def Let_def)
qed

text \<open>Inserting a timer that is in none of the lists.\<close>

lemma addTimerInLoop_effect:
  assumes "queue_inv (insert p P) q" "p \<notin> P" "deref p q = Some tm"
  obtains q' where "addTimerInLoop clock p q = Some q'" "queue_inv P q'" "timer_heap q' = timer_heap q"
    "numCreated q' = numCreated q" "fired q' = fired q" "cancelingTimers q' = cancelingTimers q"
    "callingExpiredTimers q' = callingExpiredTimers q" "posted q' = posted q" "cancel_log q' = cancel_log q"
    "timerfd q' = (if timers q = [] \<or> expiration tm < fst (hd (timers q))
       then Some (snd clock + max 100 (expiration tm - fst clock)) else timerfd q)"
    "timers q' = set_insert (expiration tm, p) (timers q)"
proof -
  obtain b q1 where q1: "timer_insert p q = Some (b, q1)" "queue_inv P q1" "timer_heap q1 = timer_heap q"
    "numCreated q1 = numCreated q" "fired q1 = fired q" "cancelingTimers q1 = cancelingTimers q"
    "callingExpiredTimers q1 = callingExpiredTimers q" "timerfd q1 = timerfd q" "posted q1 = posted q" "cancel_log q1 = cancel_log q"
    "b = (timers q = [] \<or> (\<exists>tm. deref p q = Some tm \<and> expiration tm < fst (hd (timers q))))"
    "\<forall>tm. deref p q = Some tm \<longrightarrow> timers q1 = set_insert (expiration tm, p) (timers q)"
    by (rule timer_insert_effect [OF assms(1,2)]) (rule that)
  let ?q' = "if b then resetTimerfd clock (expiration tm) q1 else q1"
  have "deref p q1 = Some tm" using q1(3) assms(3) by (simp add: deref_def)
  then have "addTimerInLoop clock p q = Some ?q'" using q1(1) by (simp add: addTimerInLoop_def)
  moreover have "queue_inv P ?q'" using q1(2) by (simp add: queue_inv_def resetTimerfd_eq)
  ultimately show thesis using q1 assms(3) by (intro that [of ?q']) (simp_all add: resetTimerfd_eq)
qed

lemma addTimer_effect:
  assumes "queue_inv P q" "allocator alloc"
  obtains p q' where "addTimer alloc clock cb when i q = Some ((p, numCreated q + 1), q')"
    "queue_inv P q'" "deref p q = None" "numCreated q' = numCreated q + 1" "fired q' = fired q"
    "cancelingTimers q' = cancelingTimers q" "callingExpiredTimers q' = callingExpiredTimers q"
    "posted q' = posted q" "cancel_log q' = cancel_log q" "p \<notin> P"
    "\<And>p'. deref p' q' = (if p' = p then Some \<lparr>tm_callback = cb, expiration = when, interval = i,
        repeat = is_Positive i, sequence = numCreated q + 1\<rparr> else deref p' q)"
    "timerfd q' = (if timers q = [] \<or> when < fst (hd (timers q)) then Some (snd clock + max 100 (when - fst clock))
       else timerfd q)"
    "timers q' = set_insert (when, p) (timers q)"
proof -
  let ?tm = "\<lparr>tm_callback = cb, expiration = when, interval = i, repeat = is_Positive i, sequence = numCreated q + 1\<rparr>"
  obtain p q1 where a: "allocTimer alloc cb when i q = (p, q1)" "queue_inv (insert p P) q1" "deref p q = None" "p \<notin> P"
    and eq: "q1 = q\<lparr>numCreated := numCreated q + 1, timer_heap := timer_heap q1\<rparr>"
    and d: "\<And>p'. deref p' q1 = (if p' = p then Some ?tm else deref p' q)"
    by (rule allocTimer_effect [OF assms, of cb "when" i]) (rule that)
  have same: "timers q1 = timers q" "numCreated q1 = numCreated q + 1" "fired q1 = fired q" "cancelingTimers q1 = cancelingTimers q"
    "callingExpiredTimers q1 = callingExpiredTimers q" "posted q1 = posted q" "cancel_log q1 = cancel_log q" "timerfd q1 = timerfd q"
    by (subst eq, simp)+
  have "deref p q1 = Some ?tm" by (simp add: d)
  from addTimerInLoop_effect [OF a(2,4) this, of clock, unfolded same]
  obtain q' where q': "addTimerInLoop clock p q1 = Some q'" "queue_inv P q'" "timer_heap q' = timer_heap q1"
    "numCreated q' = numCreated q + 1" "fired q' = fired q" "cancelingTimers q' = cancelingTimers q"
    "callingExpiredTimers q' = callingExpiredTimers q" "posted q' = posted q" "cancel_log q' = cancel_log q"
    "timerfd q' = (if timers q = [] \<or> expiration ?tm < fst (hd (timers q))
       then Some (snd clock + max 100 (expiration ?tm - fst clock)) else timerfd q)"
    "timers q' = set_insert (expiration ?tm, p) (timers q)" .
  have d': "deref p' q' = (if p' = p then Some ?tm else deref p' q)" for p' using q'(3) d [of p'] by (simp add: deref_def)
  then have "addTimer alloc clock cb when i q = Some ((p, numCreated q + 1), q')"
    using a(1) q'(1) by (simp add: addTimer_def makeTimerId_def)
  with q' a(3,4) d' show thesis by (intro that [of p q']) simp_all
qed

lemma cancelInLoop_effect:
  assumes "queue_inv P q"
  obtains q' where "cancelInLoop (p, s) q = Some q'" "queue_inv P q'"
    "fired q' = fired q" "numCreated q' = numCreated q" "callingExpiredTimers q' = callingExpiredTimers q"
    "posted q' = posted q" "cancel_log q' = cancel_log q @ [(p, s)]"
    "timerfd q' = timerfd q" "timers q' = filter (\<lambda>e. (p, s) \<notin> activeTimers q \<or> snd e \<noteq> p) (timers q)"
    "cancelingTimers q' =
       (if (p, s) \<notin> activeTimers q \<and> callingExpiredTimers q then insert (p, s) (cancelingTimers q) else cancelingTimers q)"
    "\<forall>p'. deref p' q' = (if p' = p \<and> (p, s) \<in> activeTimers q then None else deref p' q)"
proof (cases "(p, s) \<in> activeTimers q")
  case False
  let ?q = "q\<lparr>cancel_log := cancel_log q @ [(p, s)],
    cancelingTimers := if callingExpiredTimers q then insert (p, s) (cancelingTimers q) else cancelingTimers q\<rparr>"
  have c: "cancelInLoop (p, s) q = Some ?q" using False by (simp add: cancelInLoop_def)
  have "queue_inv P ?q" using assms by (simp add: queue_inv_def)
  with that [OF c] False show ?thesis by simp
next
  case True
  note inv = queue_invD [OF assms]
  from True inv(2) [of p s] obtain tm where tm: "deref p q = Some tm" "sequence tm = s" "p \<notin> P" by auto
  let ?q = "(delete_timer p (q\<lparr>cancel_log := cancel_log q @ [(p, s)],
      timers := filter (\<lambda>e. e \<noteq> (expiration tm, p)) (timers q)\<rparr>))
    \<lparr>activeTimers := activeTimers q - {(p, s)}\<rparr>"
  have c: "cancelInLoop (p, s) q = Some ?q" using True tm by (simp add: cancelInLoop_def Let_def)
  have same: "filter (\<lambda>e. e \<noteq> (expiration tm, p)) (timers q) = filter (\<lambda>e. snd e \<noteq> p) (timers q)"
    using inv(3) tm by (intro filter_cong) auto
  have "queue_inv P ?q"
  proof (rule queue_invI)
    show "sorted_wrt (<) (timers ?q)" using inv(1) by (simp add: sorted_wrt_filter)
    show "(p', s') \<in> activeTimers ?q \<longleftrightarrow> p' \<notin> P \<and> (\<exists>t. deref p' ?q = Some t \<and> sequence t = s')" for p' s'
      using inv(2) [of p' s'] tm by auto
    show "(t, p') \<in> set (timers ?q) \<longleftrightarrow> p' \<notin> P \<and> (\<exists>u. deref p' ?q = Some u \<and> expiration u = t)" for t p'
      using inv(3) [of t p'] tm by auto
    show "p' \<in> P \<Longrightarrow> deref p' ?q \<noteq> None" for p' using inv(4) [of p'] tm by auto
    show "deref p' ?q = Some t \<Longrightarrow> sequence t \<le> numCreated ?q" for p' t
      using inv(5) [of p' t] by (auto split: if_splits)
    show "deref p1 ?q = Some t1 \<Longrightarrow> deref p2 ?q = Some t2 \<Longrightarrow> sequence t1 = sequence t2 \<Longrightarrow> p1 = p2" for p1 p2 t1 t2
      using inv(6) [of p1 t1 p2 t2] by (auto split: if_splits)
    show "deref p' ?q = Some t \<Longrightarrow> repeat t \<Longrightarrow> is_Positive (interval t)" for p' t
      using inv(7) [of p' t] by (auto split: if_splits)
  qed
  with that [OF c] True same show ?thesis by simp
qed

text \<open>What the requests of a callback can do while the timers \<open>P\<close> are pending; \<open>C\<close> holds the cancelled ids.\<close>

definition op_rel :: "nat set \<Rightarrow> TimerId set \<Rightarrow> TimerQueue \<Rightarrow> TimerQueue \<Rightarrow> bool" where
  "op_rel P C q q' \<longleftrightarrow>
     queue_inv P q' \<and> fired q' = fired q \<and> numCreated q \<le> numCreated q' \<and>
     callingExpiredTimers q' = callingExpiredTimers q \<and> posted q' = posted q \<and>
     cancelingTimers q \<subseteq> cancelingTimers q' \<and> cancelingTimers q' \<subseteq> cancelingTimers q \<union> C \<and>
     (\<forall>p tm. deref p q' = Some tm \<longrightarrow> deref p q = Some tm \<or> numCreated q < sequence tm) \<and>
     (\<forall>p tm. deref p q = Some tm \<longrightarrow> p \<in> P \<or> (p, sequence tm) \<notin> C \<longrightarrow> deref p q' = Some tm)"

lemma op_relI:
  assumes "queue_inv P q'" "fired q' = fired q" "numCreated q \<le> numCreated q'"
    "callingExpiredTimers q' = callingExpiredTimers q"
    "cancelingTimers q \<subseteq> cancelingTimers q'" "cancelingTimers q' \<subseteq> cancelingTimers q \<union> C"
    "\<And>p tm. deref p q' = Some tm \<Longrightarrow> deref p q = Some tm \<or> numCreated q < sequence tm"
    "\<And>p tm. deref p q = Some tm \<Longrightarrow> p \<in> P \<or> (p, sequence tm) \<notin> C \<Longrightarrow> deref p q' = Some tm"
    "posted q' = posted q"
  shows "op_rel P C q q'"
  using assms unfolding op_rel_def by blast

lemma op_rel_refl: "queue_inv P q \<Longrightarrow> op_rel P C q q"
  by (simp add: op_rel_def)

lemma op_relD:
  assumes "op_rel P C q q'"
  shows "queue_inv P q'" "fired q' = fired q" "numCreated q \<le> numCreated q'"
    "callingExpiredTimers q' = callingExpiredTimers q" "cancelingTimers q \<subseteq> cancelingTimers q'"
    "cancelingTimers q' \<subseteq> cancelingTimers q \<union> C"
    "deref p q' = Some tm \<Longrightarrow> deref p q = Some tm \<or> numCreated q < sequence tm"
    "deref p q = Some tm \<Longrightarrow> p \<in> P \<or> (p, sequence tm) \<notin> C \<Longrightarrow> deref p q' = Some tm"
    "posted q' = posted q"
  using assms unfolding op_rel_def by blast+

lemma op_rel_trans: "op_rel P C q1 q2 \<Longrightarrow> op_rel P C q2 q3 \<Longrightarrow> op_rel P C q1 q3"
proof -
  assume a: "op_rel P C q1 q2" and b: "op_rel P C q2 q3"
  show ?thesis
  proof (rule op_relI)
    show "deref p q1 = Some tm \<or> numCreated q1 < sequence tm" if "deref p q3 = Some tm" for p tm
      using op_relD(7) [OF b that] op_relD(7) [OF a, of p tm] op_relD(3) [OF a] by auto
    show "deref p q3 = Some tm" if "deref p q1 = Some tm" "p \<in> P \<or> (p, sequence tm) \<notin> C" for p tm
      using op_relD(8) [OF b op_relD(8) [OF a that] that(2)] .
  qed (use op_relD(1-6,9) [OF a] op_relD(1-6,9) [OF b] in auto)
qed

fun cancels :: "TimerOp \<Rightarrow> TimerId set" where
  "cancels (AddOp clock cb when i) = {}"
| "cancels (CancelOp timer) = {timer}"

lemma timer_op_rel:
  assumes "queue_inv P q" "allocator alloc" "cancels x \<subseteq> C"
  shows "\<exists>q'. timer_op alloc x q = Some q' \<and> op_rel P C q q'"
proof (cases x)
  case (AddOp clock cb t i)
  obtain p q' where add: "addTimer alloc clock cb t i q = Some ((p, numCreated q + 1), q')"
    "queue_inv P q'" "deref p q = None" "numCreated q' = numCreated q + 1" "fired q' = fired q"
    "cancelingTimers q' = cancelingTimers q" "callingExpiredTimers q' = callingExpiredTimers q" "posted q' = posted q"
    and d: "\<And>p'. deref p' q' = (if p' = p then Some \<lparr>tm_callback = cb, expiration = t, interval = i,
        repeat = is_Positive i, sequence = numCreated q + 1\<rparr> else deref p' q)"
    by (rule addTimer_effect [OF assms(1,2), of clock cb t i]) (rule that)
  have "op_rel P C q q'" using add d by (auto simp: op_rel_def)
  with add(1) AddOp show ?thesis by simp
next
  case (CancelOp timer)
  obtain p s where ps: "timer = (p, s)" by (cases timer)
  note inv = queue_invD(2) [OF assms(1)]
  obtain q' where c: "cancelInLoop (p, s) q = Some q'" "queue_inv P q'" "fired q' = fired q"
    "numCreated q' = numCreated q" "callingExpiredTimers q' = callingExpiredTimers q"
    "posted q' = posted q" "cancel_log q' = cancel_log q @ [(p, s)]" "timerfd q' = timerfd q" "timers q' = filter (\<lambda>e. (p, s) \<notin> activeTimers q \<or> snd e \<noteq> p) (timers q)"
    "cancelingTimers q' =
       (if (p, s) \<notin> activeTimers q \<and> callingExpiredTimers q then insert (p, s) (cancelingTimers q) else cancelingTimers q)"
    and d: "\<forall>p'. deref p' q' = (if p' = p \<and> (p, s) \<in> activeTimers q then None else deref p' q)"
    by (rule cancelInLoop_effect [OF assms(1), of p s])
  have "op_rel P C q q'"
  proof (rule op_relI)
    show "deref p' q = Some t \<or> numCreated q < sequence t" if "deref p' q' = Some t" for p' t
      using that d [rule_format, of p'] by (simp split: if_splits)
    show "deref p' q' = Some t" if "deref p' q = Some t" "p' \<in> P \<or> (p', sequence t) \<notin> C" for p' t
      using that d [rule_format, of p'] inv [of p s] assms(3) CancelOp ps by (cases "p' = p") auto
    show "cancelingTimers q' \<subseteq> cancelingTimers q \<union> C" "cancelingTimers q \<subseteq> cancelingTimers q'"
      using c(10) assms(3) CancelOp ps by auto
  qed (use c in simp_all)
  with c(1) CancelOp ps show ?thesis by simp
qed

lemma timer_ops_rel:
  "queue_inv P q \<Longrightarrow> allocator alloc \<Longrightarrow> (\<Union>x \<in> set xs. cancels x) \<subseteq> C \<Longrightarrow>
     \<exists>q'. timer_ops alloc xs q = Some q' \<and> op_rel P C q q'"
proof (induction xs arbitrary: q)
  case (Cons x xs)
  then obtain q1 where q1: "timer_op alloc x q = Some q1" "op_rel P C q q1"
    using timer_op_rel [of P q alloc x C] by auto
  from Cons.IH [OF op_relD(1) [OF q1(2)] Cons.prems(2)] Cons.prems(3)
  obtain q2 where "timer_ops alloc xs q1 = Some q2" "op_rel P C q1 q2" by auto
  with q1 op_rel_trans [OF q1(2)] show ?case by auto
qed (simp add: op_rel_refl)

section \<open>Expiry\<close>

definition due :: "int \<Rightarrow> TimerQueue \<Rightarrow> (int \<times> nat) list" where
  "due now q = takeWhile (\<lambda>e. fst e \<le> now) (timers q)"

lemma sorted_split:
  assumes "sorted_wrt (<) (xs :: (int \<times> nat) list)"
  shows "set (takeWhile (\<lambda>e. fst e \<le> now) xs) = {e \<in> set xs. fst e \<le> now}"
    "set (dropWhile (\<lambda>e. fst e \<le> now) xs) = {e \<in> set xs. now < fst e}"
    "sorted_wrt (<) (dropWhile (\<lambda>e. fst e \<le> now) xs)" "sorted_wrt (<) (takeWhile (\<lambda>e. fst e \<le> now) xs)"
proof -
  have "set (takeWhile (\<lambda>e. fst e \<le> now) xs) = {e \<in> set xs. fst e \<le> now} \<and>
      set (dropWhile (\<lambda>e. fst e \<le> now) xs) = {e \<in> set xs. now < fst e}"
    using assms
  proof (induction xs)
    case (Cons x xs)
    have "\<forall>y \<in> set xs. fst x \<le> fst y" using Cons.prems by (auto simp: less_prod_def)
    with Cons show ?case by (cases "fst x \<le> now") auto
  qed simp
  then show "set (takeWhile (\<lambda>e. fst e \<le> now) xs) = {e \<in> set xs. fst e \<le> now}"
    "set (dropWhile (\<lambda>e. fst e \<le> now) xs) = {e \<in> set xs. now < fst e}" by simp_all
  have "sorted_wrt (<) (takeWhile (\<lambda>e. fst e \<le> now) xs @ dropWhile (\<lambda>e. fst e \<le> now) xs)" using assms by simp
  then show "sorted_wrt (<) (dropWhile (\<lambda>e. fst e \<le> now) xs)" "sorted_wrt (<) (takeWhile (\<lambda>e. fst e \<le> now) xs)"
    unfolding sorted_wrt_append by simp_all
qed

lemma forget_active_effect:
  "(\<forall>e \<in> set es. deref (snd e) q \<noteq> None) \<Longrightarrow>
   forget_active es q =
     Some (q\<lparr>activeTimers := activeTimers q - {(p, sequence tm) | p tm. p \<in> snd ` set es \<and> deref p q = Some tm}\<rparr>)"
proof (induction es arbitrary: q)
  case (Cons e es)
  then obtain tm where tm: "deref (snd e) q = Some tm" by auto
  let ?q = "q\<lparr>activeTimers := activeTimers q - {(snd e, sequence tm)}\<rparr>"
  let ?S = "\<lambda>es. {(p, sequence tm) | p tm. p \<in> snd ` set es \<and> deref p q = Some tm}"
  have "forget_active es ?q = Some (?q\<lparr>activeTimers := activeTimers ?q - ?S es\<rparr>)"
    using Cons.IH [of ?q] Cons.prems by simp
  moreover have "activeTimers ?q - ?S es = activeTimers q - ?S (e # es)" using tm by auto
  ultimately show ?case using tm by simp
qed simp

lemma getExpired_effect:
  assumes "queue_inv U q"
  obtains q' where "getExpired now q = Some (due now q, q')" "queue_inv (U \<union> snd ` set (due now q)) q'"
    "U \<inter> snd ` set (due now q) = {}" "posted q' = posted q" "cancel_log q' = cancel_log q"
    "timer_heap q' = timer_heap q" "fired q' = fired q" "numCreated q' = numCreated q" "timerfd q' = timerfd q"
    "timers q' = dropWhile (\<lambda>e. fst e \<le> now) (timers q)" "distinct (map snd (due now q))"
proof -
  note inv = queue_invD [OF assms] and split = sorted_split [OF queue_invD(1) [OF assms], of now]
  let ?P = "snd ` set (due now q)"
  let ?a = "activeTimers q - {(p, sequence tm) | p tm. p \<in> ?P \<and> deref p q = Some tm}"
  let ?q = "q\<lparr>timers := dropWhile (\<lambda>e. fst e \<le> now) (timers q), activeTimers := ?a\<rparr>"
  have due_iff: "(t, p) \<in> set (due now q) \<longleftrightarrow> p \<notin> U \<and> (\<exists>tm. deref p q = Some tm \<and> expiration tm = t \<and> t \<le> now)" for t p
    using inv(3) [of t p] split(1) by (auto simp: due_def)
  then have P_iff: "p \<in> ?P \<longleftrightarrow> p \<notin> U \<and> (\<exists>tm. deref p q = Some tm \<and> expiration tm \<le> now)" for p
    by (force simp: image_iff)
  have get: "getExpired now q = Some (due now q, ?q)"
  proof -
    have "\<forall>e \<in> set (due now q). deref (snd e) (q\<lparr>timers := dropWhile (\<lambda>e. fst e \<le> now) (timers q)\<rparr>) \<noteq> None"
      using due_iff by fastforce
    from forget_active_effect [OF this] show ?thesis by (simp add: getExpired_def Let_def flip: due_def)
  qed
  have "queue_inv (U \<union> ?P) ?q"
  proof (rule queue_invI)
    show "sorted_wrt (<) (timers ?q)" using split(3) by simp
    show "(p, s) \<in> activeTimers ?q \<longleftrightarrow> p \<notin> U \<union> ?P \<and> (\<exists>tm. deref p ?q = Some tm \<and> sequence tm = s)" for p s
      using inv(2) [of p s] by auto
    show "(t, p) \<in> set (timers ?q) \<longleftrightarrow> p \<notin> U \<union> ?P \<and> (\<exists>tm. deref p ?q = Some tm \<and> expiration tm = t)" for t p
      using inv(3) [of t p] P_iff [of p] split(2) by auto
    show "p \<in> U \<union> ?P \<Longrightarrow> deref p ?q \<noteq> None" for p using P_iff [of p] inv(4) [of p] by auto
    show "deref p ?q = Some tm \<Longrightarrow> sequence tm \<le> numCreated ?q" for p tm using inv(5) [of p tm] by simp
    show "deref p ?q = Some tm \<Longrightarrow> deref p' ?q = Some tm' \<Longrightarrow> sequence tm = sequence tm' \<Longrightarrow> p = p'" for p p' tm tm'
      using inv(6) [of p tm p' tm'] by simp
    show "deref p ?q = Some tm \<Longrightarrow> repeat tm \<Longrightarrow> is_Positive (interval tm)" for p tm using inv(7) [of p tm] by simp
  qed
  moreover have "distinct (map snd (due now q))"
  proof -
    have "distinct (due now q)" using split(4) strict_sorted_iff by (auto simp: due_def strict_sorted_iff)
    moreover have "inj_on snd (set (due now q))" using due_iff by (auto simp: inj_on_def)
    ultimately show ?thesis by (simp add: distinct_map)
  qed
  moreover have "U \<inter> ?P = {}" using P_iff by blast
  ultimately show ?thesis using that [OF get] by simp
qed

definition sequence_at :: "TimerQueue \<Rightarrow> int \<times> nat \<Rightarrow> int" where
  "sequence_at q e = (case deref (snd e) q of Some tm \<Rightarrow> sequence tm | None \<Rightarrow> 0)"

lemma run_expired_rel:
  assumes "queue_inv P q" "allocator alloc" "snd ` set es \<subseteq> P" "\<forall>q cb. (\<Union>x \<in> set (cbs q cb). cancels x) \<subseteq> C"
  shows "\<exists>q'. run_expired alloc cbs es q = Some q' \<and>
    fired q' = fired q @ map (sequence_at q) es \<and> op_rel P C q (q'\<lparr>fired := fired q\<rparr>)"
  using assms
proof (induction es arbitrary: q)
  case Nil
  then show ?case by (simp add: op_rel_refl)
next
  case (Cons e es)
  then obtain tm where tm: "deref (snd e) q = Some tm" using queue_invD(4) [OF Cons.prems(1), of "snd e"] by auto
  let ?q = "q\<lparr>fired := fired q @ [sequence tm]\<rparr>"
  have "queue_inv P ?q" using Cons.prems(1) by (simp add: queue_inv_def)
  then obtain q1 where q1: "timer_ops alloc (cbs q (tm_callback tm)) ?q = Some q1" and r1: "op_rel P C ?q q1"
    using timer_ops_rel [of P ?q alloc "cbs q (tm_callback tm)" C] Cons.prems(2,4) by metis
  from Cons.IH [OF op_relD(1) [OF r1] Cons.prems(2) _ Cons.prems(4)] Cons.prems(3)
  obtain q2 where q2: "run_expired alloc cbs es q1 = Some q2" "fired q2 = fired q1 @ map (sequence_at q1) es"
    and r2: "op_rel P C q1 (q2\<lparr>fired := fired q1\<rparr>)" by auto
  have same: "sequence_at q1 e' = sequence_at q e'" if "e' \<in> set es" for e'
    using that Cons.prems(3) queue_invD(4) [OF Cons.prems(1), of "snd e'"] op_relD(8) [OF r1, of "snd e'"]
    by (fastforce simp: sequence_at_def)
  have "fired q2 = fired q @ map (sequence_at q) (e # es)"
    using q2(2) op_relD(2) [OF r1] tm same by (simp add: sequence_at_def cong: map_cong)
  moreover have "op_rel P C q (q2\<lparr>fired := fired q\<rparr>)"
  proof -
    have "op_rel P C q (q1\<lparr>fired := fired q\<rparr>)" "op_rel P C (q1\<lparr>fired := fired q\<rparr>) (q2\<lparr>fired := fired q\<rparr>)"
      using r1 r2 by (simp_all add: op_rel_def queue_inv_def)
    then show ?thesis by (rule op_rel_trans)
  qed
  ultimately show ?case using tm q1 q2(1) by simp
qed

lemma delete_pending: "queue_inv (insert p P) q \<Longrightarrow> p \<notin> P \<Longrightarrow> queue_inv P (delete_timer p q)"
  using queue_invD [of "insert p P" q]
  by (intro queue_invI) (auto split: if_splits)

lemma update_pending:
  assumes "queue_inv P q" "p \<in> P" "\<forall>tm. sequence (f tm) = sequence tm"
    "\<forall>tm. repeat (f tm) = repeat tm \<and> interval (f tm) = interval tm"
  shows "queue_inv P (update_timer p f q)"
proof (rule queue_invI)
  let ?q = "update_timer p f q"
  note inv = queue_invD [OF assms(1)]
  show "sorted_wrt (<) (timers ?q)" using inv(1) by simp
  show "(p', s) \<in> activeTimers ?q \<longleftrightarrow> p' \<notin> P \<and> (\<exists>tm. deref p' ?q = Some tm \<and> sequence tm = s)" for p' s
    using inv(2) [of p' s] assms(2) by auto
  show "(t, p') \<in> set (timers ?q) \<longleftrightarrow> p' \<notin> P \<and> (\<exists>tm. deref p' ?q = Some tm \<and> expiration tm = t)" for t p'
    using inv(3) [of t p'] assms(2) by auto
  show "p' \<in> P \<Longrightarrow> deref p' ?q \<noteq> None" for p' using inv(4) [of p'] by auto
  show "deref p' ?q = Some tm \<Longrightarrow> sequence tm \<le> numCreated ?q" for p' tm
    using inv(5) [of p'] assms(3) by (auto split: if_splits)
  show "deref p1 ?q = Some t1 \<Longrightarrow> deref p2 ?q = Some t2 \<Longrightarrow> sequence t1 = sequence t2 \<Longrightarrow> p1 = p2" for p1 p2 t1 t2
    using inv(6) [of p1 _ p2] assms(3) by (fastforce split: if_splits)
  show "deref p' ?q = Some tm \<Longrightarrow> repeat tm \<Longrightarrow> is_Positive (interval tm)" for p' tm
    using inv(7) [of p'] assms(4) by (auto split: if_splits)
qed

definition readded :: "int \<Rightarrow> TimerQueue \<Rightarrow> nat \<Rightarrow> Timer option" where
  "readded now q p =
     (case deref p q of
        None \<Rightarrow> None
      | Some tm \<Rightarrow> if repeat tm \<and> (p, sequence tm) \<notin> cancelingTimers q then Some (restart now tm) else None)"

lemma readd_expired_effect:
  assumes "queue_inv (U \<union> snd ` set es) q" "distinct (map snd es)" "U \<inter> snd ` set es = {}"
  shows "\<exists>q'. readd_expired now es q = Some q' \<and> queue_inv U q' \<and> fired q' = fired q \<and>
    posted q' = posted q \<and> cancel_log q' = cancel_log q \<and>
    numCreated q' = numCreated q \<and> timerfd q' = timerfd q \<and> callingExpiredTimers q' = callingExpiredTimers q \<and>
    (\<forall>p. deref p q' = (if p \<in> snd ` set es then readded now q p else deref p q))"
  using assms
proof (induction es arbitrary: q)
  case (Cons e es)
  let ?p = "snd e" and ?P = "snd ` set es"
  have p: "?p \<notin> ?P" "?p \<notin> U \<union> ?P" and inv: "queue_inv (insert ?p (U \<union> ?P)) q" and dis: "U \<inter> ?P = {}" using Cons.prems by auto
  obtain tm where tm: "deref ?p q = Some tm" using queue_invD(4) [OF inv, of ?p] by auto
  show ?case
  proof (cases "repeat tm \<and> (?p, sequence tm) \<notin> cancelingTimers q")
    case False
    let ?q = "delete_timer ?p q"
    have "queue_inv (U \<union> ?P) ?q" using delete_pending [OF inv p(2)] .
    from Cons.IH [OF this _ dis] Cons.prems(2) obtain q' where q': "readd_expired now es ?q = Some q'" "queue_inv U q'"
      "posted q' = posted q" "cancel_log q' = cancel_log q"
      "fired q' = fired q" "numCreated q' = numCreated q" "timerfd q' = timerfd q"
      "callingExpiredTimers q' = callingExpiredTimers q"
      and d: "\<And>p'. deref p' q' = (if p' \<in> ?P then readded now ?q p' else deref p' ?q)" by auto
    have "readded now ?q p' = readded now q p'" if "p' \<in> ?P" for p'
    proof -
      have "p' \<noteq> ?p" using that p by blast
      then show ?thesis by (simp add: readded_def split: option.splits)
    qed
    with d p tm False have "\<forall>p'. deref p' q' = (if p' \<in> snd ` set (e # es) then readded now q p' else deref p' q)"
      by (auto simp: readded_def)
    with q' tm False show ?thesis by auto
  next
    case True
    let ?u = "update_timer ?p (restart now) q"
    have u: "queue_inv (insert ?p (U \<union> ?P)) ?u"
      using update_pending [OF inv, of ?p "restart now"] by (simp add: restart_def)
    obtain b q1 where q1: "timer_insert ?p ?u = Some (b, q1)" "queue_inv (U \<union> ?P) q1" "timer_heap q1 = timer_heap ?u"
      "numCreated q1 = numCreated q" "fired q1 = fired q" "cancelingTimers q1 = cancelingTimers q"
      "callingExpiredTimers q1 = callingExpiredTimers q" "timerfd q1 = timerfd q" "posted q1 = posted q" "cancel_log q1 = cancel_log q"
      by (rule timer_insert_effect [OF u p(2), unfolded heap_ops_keep]) (rule that)
    have d1: "deref p' q1 = (if p' = ?p then map_option (restart now) (deref p' q) else deref p' q)" for p'
      using q1(3) deref_update [of p' ?p "restart now" q] by (simp add: deref_def)
    from Cons.IH [OF q1(2) _ dis] Cons.prems(2) obtain q' where q': "readd_expired now es q1 = Some q'" "queue_inv U q'"
      "posted q' = posted q" "cancel_log q' = cancel_log q"
      "fired q' = fired q" "numCreated q' = numCreated q" "timerfd q' = timerfd q"
      "callingExpiredTimers q' = callingExpiredTimers q"
      and d: "\<And>p'. deref p' q' = (if p' \<in> ?P then readded now q1 p' else deref p' q1)" using q1 by auto
    have "readded now q1 p' = readded now q p'" if "p' \<in> ?P" for p'
    proof -
      have "p' \<noteq> ?p" using that p by blast
      then show ?thesis using d1 [of p'] q1(6) by (simp add: readded_def split: option.splits)
    qed
    with d d1 p tm True have "\<forall>p'. deref p' q' = (if p' \<in> snd ` set (e # es) then readded now q p' else deref p' q)"
      by (auto simp: readded_def)
    with q' q1(1) tm True show ?thesis by auto
  qed
qed simp

text \<open>One run of the expired timers: what the callbacks leave, and what the queue makes of it.\<close>

lemma handleRead_effect:
  assumes "queue_inv U q" "allocator alloc" "\<forall>q cb. (\<Union>x \<in> set (cbs q cb). cancels x) \<subseteq> C"
  obtains q0 q1 q2 q' where "getExpired now (q\<lparr>timerfd := None\<rparr>) = Some (due now q, q0)"
    "run_expired alloc cbs (due now q) (q0\<lparr>callingExpiredTimers := True, cancelingTimers := {}\<rparr>) = Some q1"
    "readd_expired now (due now q) (q1\<lparr>callingExpiredTimers := False\<rparr>) = Some q2"
    "op_rel (U \<union> snd ` set (due now q)) C (q0\<lparr>callingExpiredTimers := True, cancelingTimers := {}\<rparr>) (q1\<lparr>fired := fired q\<rparr>)"
    "\<forall>p. deref p q0 = deref p q" "numCreated q0 = numCreated q"
    "U \<inter> snd ` set (due now q) = {}" "posted q0 = posted q" "posted q' = posted q" "cancel_log q0 = cancel_log q" "cancel_log q' = cancel_log q1"
    "queue_inv U q2" "numCreated q2 = numCreated q1" "fired q2 = fired q @ map (sequence_at q) (due now q)"
    "\<forall>p. deref p q2 = (if p \<in> snd ` set (due now q) then readded now q1 p else deref p q1)"
    "timer_handleRead alloc cbs now clock q = Some q'" "queue_inv U q'" "fired q' = fired q2"
    "\<forall>p. deref p q' = deref p q2" "numCreated q' = numCreated q2" "timers q' = timers q2"
    "timerfd q' = (if timers q2 \<noteq> [] \<and> 0 < fst (hd (timers q2))
       then Some (snd clock + max 100 (fst (hd (timers q2)) - fst clock)) else timerfd q1)"
proof -
  let ?P = "snd ` set (due now q)" and ?r = "\<lambda>q. q\<lparr>callingExpiredTimers := True, cancelingTimers := {}\<rparr>"
  have inv0: "queue_inv U (q\<lparr>timerfd := None\<rparr>)" using assms(1) by (simp add: queue_inv_def)
  have due: "due now (q\<lparr>timerfd := None\<rparr>) = due now q" by (simp add: due_def)
  obtain q0 where q0: "getExpired now (q\<lparr>timerfd := None\<rparr>) = Some (due now q, q0)" "queue_inv (U \<union> ?P) q0"
    "U \<inter> ?P = {}" "posted q0 = posted q" "cancel_log q0 = cancel_log q" "timer_heap q0 = timer_heap q" "fired q0 = fired q" "numCreated q0 = numCreated q"
    "distinct (map snd (due now q))"
    by (rule getExpired_effect [OF inv0, of now, unfolded due]) (rule that, assumption, simp_all)
  have d0: "\<forall>p. deref p q0 = deref p q" using q0(6) by (simp add: deref_def)
  have "queue_inv (U \<union> ?P) (?r q0)" using q0(2) by (simp add: queue_inv_def)
  from run_expired_rel [OF this assms(2) Un_upper2 assms(3)]
  obtain q1 where q1: "run_expired alloc cbs (due now q) (?r q0) = Some q1"
    "fired q1 = fired q @ map (sequence_at (?r q0)) (due now q)" "op_rel (U \<union> ?P) C (?r q0) (q1\<lparr>fired := fired q\<rparr>)"
    using q0(7) by auto
  have s: "sequence_at (?r q0) = sequence_at q" using d0 by (simp add: sequence_at_def fun_eq_iff)
  have inv1: "queue_inv (U \<union> ?P) (q1\<lparr>callingExpiredTimers := False\<rparr>)" using op_relD(1) [OF q1(3)] by (simp add: queue_inv_def)
  have r: "readded now (q1\<lparr>callingExpiredTimers := False\<rparr>) = readded now q1"
    by (simp add: readded_def fun_eq_iff split: option.splits)
  from readd_expired_effect [OF inv1 q0(9,3), of now, unfolded r deref_simps]
  obtain q2 where q2: "readd_expired now (due now q) (q1\<lparr>callingExpiredTimers := False\<rparr>) = Some q2" "queue_inv U q2"
    "fired q2 = fired q1" "numCreated q2 = numCreated q1" "timerfd q2 = timerfd q1" "posted q2 = posted q1" "cancel_log q2 = cancel_log q1"
    and d2: "\<forall>p. deref p q2 = (if p \<in> ?P then readded now q1 p else deref p q1)"
    by auto
  let ?q' = "if timers q2 \<noteq> [] \<and> 0 < fst (hd (timers q2)) then resetTimerfd clock (fst (hd (timers q2))) q2 else q2"
  have "timer_handleRead alloc cbs now clock q = Some ?q'"
  proof (cases "timers q2")
    case Nil
    with q0(1) q1(1) q2(1) show ?thesis by (simp add: timer_handleRead_def reset_queue_def)
  next
    case (Cons e es)
    obtain tm where "deref (snd e) q2 = Some tm" "expiration tm = fst e"
      using queue_invD(3) [OF q2(2), of "fst e" "snd e"] Cons by auto
    with Cons q0(1) q1(1) q2(1) show ?thesis
      by (simp add: timer_handleRead_def reset_queue_def valid_def)
  qed
  moreover have "queue_inv U ?q'" using q2(2) by (simp add: queue_inv_def resetTimerfd_eq)
  ultimately show ?thesis
    using that [OF q0(1) q1(1) q2(1) q1(3) d0 q0(8,3,4) _ q0(5) _ q2(2,4) _ d2, of ?q'] q1(2) q2(3,5-7) s
      op_relD(9) [OF q1(3)] q0(4)
    by (simp add: resetTimerfd_eq)
qed

text \<open>The timers whose insertion is queued are live and in none of the lists.\<close>

definition timers_inv :: "TimerQueue \<Rightarrow> bool" where
  "timers_inv q \<longleftrightarrow> queue_inv (set (posted q)) q \<and> distinct (posted q)"

lemma addTimer_post_effect:
  assumes "timers_inv q" "allocator alloc"
  obtains p q1 where "addTimer_post alloc cb when i q = q1\<lparr>posted := posted q @ [p], reading := reading q @ [p]\<rparr>"
    "timers_inv (addTimer_post alloc cb when i q)" "numCreated q1 = numCreated q + 1" "fired q1 = fired q"
    "cancel_log q1 = cancel_log q" "timers q1 = timers q" "timerfd q1 = timerfd q"
    "\<And>p'. deref p' q1 = (if p' = p then Some \<lparr>tm_callback = cb, expiration = when, interval = i,
        repeat = is_Positive i, sequence = numCreated q + 1\<rparr> else deref p' q)"
proof -
  obtain p q1 where a: "allocTimer alloc cb when i q = (p, q1)" "queue_inv (insert p (set (posted q))) q1"
    "deref p q = None" "p \<notin> set (posted q)"
    and eq: "q1 = q\<lparr>numCreated := numCreated q + 1, timer_heap := timer_heap q1\<rparr>"
    and d: "\<And>p'. deref p' q1 = (if p' = p then Some \<lparr>tm_callback = cb, expiration = when, interval = i,
        repeat = is_Positive i, sequence = numCreated q + 1\<rparr> else deref p' q)"
    by (rule allocTimer_effect [of "set (posted q)" q alloc cb "when" i])
      (use assms in \<open>simp_all add: timers_inv_def\<close>)
  have same: "numCreated q1 = numCreated q + 1" "fired q1 = fired q" "cancel_log q1 = cancel_log q" "timers q1 = timers q"
    "timerfd q1 = timerfd q" "posted q1 = posted q" "reading q1 = reading q"
    by (subst eq, simp)+
  have post: "addTimer_post alloc cb when i q = q1\<lparr>posted := posted q @ [p], reading := reading q @ [p]\<rparr>"
    using a(1) same by (simp add: addTimer_post_def)
  moreover have "timers_inv (addTimer_post alloc cb when i q)"
    using a(2,4) assms(1) unfolding post by (simp add: timers_inv_def queue_inv_def)
  ultimately show thesis using that same d by blast
qed

lemma run_posted_effect:
  assumes "timers_inv q" "posted q = p # ps"
  obtains q' tm where "run_posted clock q = Some q'" "timers_inv q'" "posted q' = ps" "timer_heap q' = timer_heap q"
    "numCreated q' = numCreated q" "fired q' = fired q" "cancel_log q' = cancel_log q" "deref p q = Some tm"
    "timerfd q' = (if timers q = [] \<or> expiration tm < fst (hd (timers q))
       then Some (snd clock + max 100 (expiration tm - fst clock)) else timerfd q)"
    "timers q' = set_insert (expiration tm, p) (timers q)"
proof -
  let ?q = "q\<lparr>posted := ps\<rparr>"
  have inv: "queue_inv (insert p (set ps)) ?q" and p: "p \<notin> set ps" "distinct ps"
    using assms by (simp_all add: timers_inv_def queue_inv_def)
  obtain tm where tm: "deref p ?q = Some tm" using queue_invD(4) [OF inv, of p] by auto
  obtain q' where "addTimerInLoop clock p ?q = Some q'" "queue_inv (set ps) q'" "timer_heap q' = timer_heap q"
    "numCreated q' = numCreated q" "fired q' = fired q" "posted q' = ps" "cancel_log q' = cancel_log q"
    "timerfd q' = (if timers q = [] \<or> expiration tm < fst (hd (timers q))
       then Some (snd clock + max 100 (expiration tm - fst clock)) else timerfd q)"
    "timers q' = set_insert (expiration tm, p) (timers q)"
    by (rule addTimerInLoop_effect [OF inv p(1) tm, of clock]) (rule that, assumption, simp_all)
  with p(2) tm assms(2) show thesis by (intro that [of q' tm]) (simp_all add: run_posted_def timers_inv_def)
qed

lemma addTimer_return_effect:
  "addTimer_return p q = Some q' \<Longrightarrow> q' = q \<or> q' = q\<lparr>reading := remove1 p (reading q)\<rparr>"
  by (auto simp: addTimer_return_def split: if_splits)

lemma timers_inv_reading: "timers_inv (q\<lparr>reading := ps\<rparr>) = timers_inv q"
  by (simp add: timers_inv_def queue_inv_def)

text \<open>A caller of \<open>addTimer\<close> in another thread that has not yet read a timer which is no longer there.\<close>

definition late_return :: "TimerEvent \<Rightarrow> TimerQueue \<Rightarrow> bool" where
  "late_return x q \<longleftrightarrow> (\<exists>p. x = AddReturn p \<and> p \<in> set (reading q) \<and> deref p q = None)"

lemma timer_event_inv:
  assumes "timers_inv q" "allocator alloc" "\<not> late_return x q"
  shows "\<exists>q'. timer_event alloc cbs x q = Some q' \<and> timers_inv q'"
proof -
  have inv: "queue_inv (set (posted q)) q" "distinct (posted q)" using assms(1) by (simp_all add: timers_inv_def)
  show ?thesis
  proof (cases x)
    case (Request y)
    obtain q' where q': "timer_op alloc y q = Some q'" "op_rel (set (posted q)) UNIV q q'"
      using timer_op_rel [OF inv(1) assms(2), of y UNIV] by auto
    with op_relD(1,9) [OF q'(2)] inv(2) Request show ?thesis by (simp add: timers_inv_def)
  next
    case (Expire now clock)
    obtain q' where "timer_handleRead alloc cbs now clock q = Some q'" "queue_inv (set (posted q)) q'" "posted q' = posted q"
      by (rule handleRead_effect [OF inv(1) assms(2), of cbs UNIV]) auto
    with Expire inv(2) show ?thesis by (simp add: timers_inv_def)
  next
    case (RunPosted clock)
    show ?thesis
    proof (cases "posted q")
      case Nil
      with RunPosted assms(1) show ?thesis by (simp add: run_posted_def)
    next
      case (Cons p ps)
      obtain q' where "run_posted clock q = Some q'" "timers_inv q'" by (rule run_posted_effect [OF assms(1) Cons])
      with RunPosted show ?thesis by simp
    qed
  next
    case (AddPost cb t i)
    have "timers_inv (addTimer_post alloc cb t i q)" by (rule addTimer_post_effect [OF assms(1,2)])
    with AddPost show ?thesis by simp
  next
    case (AddReturn p)
    with assms(3) have "p \<in> set (reading q) \<longrightarrow> deref p q \<noteq> None" by (simp add: late_return_def)
    with AddReturn assms(1) show ?thesis by (auto simp: addTimer_return_def makeTimerId_def timers_inv_reading)
  qed
qed

lemma late_return_faults: "late_return x q \<Longrightarrow> timer_event alloc cbs x q = None"
  by (auto simp: late_return_def addTimer_return_def makeTimerId_def)

lemma newTimerQueue_inv: "timers_inv newTimerQueue"
  by (simp add: timers_inv_def queue_inv_def newTimerQueue_def deref_def)

text \<open>A run goes to its end, or to a late return.\<close>

lemma timer_run_inv:
  "timers_inv q \<Longrightarrow> allocator alloc \<Longrightarrow>
     (\<exists>q'. timer_run alloc cbs xs q = Some q' \<and> timers_inv q') \<or>
     (\<exists>ys x zs q'. xs = ys @ x # zs \<and> timer_run alloc cbs ys q = Some q' \<and> late_return x q')"
proof (induction xs arbitrary: q)
  case (Cons x xs)
  show ?case
  proof (cases "late_return x q")
    case True
    then have "x # xs = [] @ x # xs \<and> timer_run alloc cbs [] q = Some q \<and> late_return x q" by simp
    then show ?thesis by blast
  next
    case False
    from timer_event_inv [OF Cons.prems False, of cbs] obtain q1 where
      q1: "timer_event alloc cbs x q = Some q1" "timers_inv q1" by blast
    from Cons.IH [OF q1(2) Cons.prems(2)] show ?thesis
    proof (elim disjE exE conjE)
      fix q' assume "timer_run alloc cbs xs q1 = Some q'" "timers_inv q'"
      with q1(1) show ?thesis by simp
    next
      fix ys y zs q' assume "xs = ys @ y # zs" "timer_run alloc cbs ys q1 = Some q'" "late_return y q'"
      then have "x # xs = (x # ys) @ y # zs \<and> timer_run alloc cbs (x # ys) q = Some q' \<and> late_return y q'"
        using q1(1) by simp
      then show ?thesis by blast
    qed
  qed
qed simp

lemma timer_run_keeps_inv:
  assumes "timers_inv q" "allocator alloc" "timer_run alloc cbs xs q = Some q'"
  shows "timers_inv q'"
  using assms
proof (induction xs arbitrary: q)
  case (Cons x xs)
  then obtain q1 where x: "timer_event alloc cbs x q = Some q1" "timer_run alloc cbs xs q1 = Some q'"
    by (auto split: option.splits)
  then have "\<not> late_return x q" using late_return_faults by fastforce
  from timer_event_inv [OF Cons.prems(1,2) this, of cbs] x(1) have "timers_inv q1" by auto
  with Cons.IH Cons.prems(2) x(2) show ?case by blast
qed simp

lemma timers_distinct:
  assumes "queue_inv U q" shows "distinct (map snd (timers q))"
proof -
  have "distinct (timers q)" using queue_invD(1) [OF assms] by (simp add: strict_sorted_iff)
  moreover have "inj_on snd (set (timers q))" using queue_invD(3) [OF assms] by (auto simp: inj_on_def)
  ultimately show ?thesis by (simp add: distinct_map)
qed

lemma delete_all_effect:
  "distinct (map snd es) \<Longrightarrow> \<forall>e \<in> set es. deref (snd e) q \<noteq> None \<Longrightarrow>
     \<exists>q'. delete_all es q = Some q' \<and> (\<forall>p. deref p q' = (if p \<in> snd ` set es then None else deref p q))"
proof (induction es arbitrary: q)
  case (Cons e es)
  have "\<forall>e' \<in> set es. deref (snd e') (delete_timer (snd e) q) \<noteq> None" using Cons.prems by (auto simp: image_iff)
  from Cons.IH [OF _ this] Cons.prems show ?case by fastforce
qed simp

lemma destroy_effect:
  assumes "queue_inv U q"
  shows "\<exists>q'. destroyTimerQueue q = Some q' \<and> (\<forall>p. deref p q' = (if p \<in> U then deref p q else None))"
proof -
  let ?q = "q\<lparr>timerfd := None\<rparr>"
  have d: "deref p ?q = deref p q" for p by (simp add: deref_def)
  note inv = queue_invD(3) [OF assms]
  have live: "\<forall>e \<in> set (timers q). deref (snd e) ?q \<noteq> None" using inv d by fastforce
  have listed: "p \<in> snd ` set (timers q) \<longleftrightarrow> p \<notin> U \<and> deref p q \<noteq> None" for p
    using inv [of _ p] by (force simp: image_iff)
  from delete_all_effect [OF timers_distinct [OF assms] live] obtain q' where
    "delete_all (timers q) ?q = Some q'" "\<forall>p. deref p q' = (if p \<in> snd ` set (timers q) then None else deref p ?q)" by blast
  then have q': "destroyTimerQueue q = Some q'"
    and d': "\<And>p. deref p q' = (if p \<notin> U \<and> deref p q \<noteq> None then None else deref p q)"
    unfolding listed d by (simp_all add: destroyTimerQueue_def)
  have "deref p q' = (if p \<in> U then deref p q else None)" for p by (simp add: d')
  with q' show ?thesis by blast
qed


definition sample_alloc :: "(nat \<times> Timer) list \<Rightarrow> nat" where
  "sample_alloc h = foldr (\<lambda>e n. if n = fst e then Suc n else max n (Suc (fst e))) h 0"

lemma sample_alloc_ok: "allocator sample_alloc"
proof -
  have "\<forall>e \<in> set h. fst e < sample_alloc h" for h
    by (induction h) (auto simp: sample_alloc_def less_Suc_eq_le intro: le_SucI)
  then have "map_of h (sample_alloc h) = None" for h by (metis less_irrefl map_of_eq_None_iff imageE)
  then show ?thesis by (simp add: allocator_def)
qed

text \<open>A one-shot timer, and a periodic one whose callback cancels it and starts another.\<close>

definition sample_cbs :: "TimerQueue \<Rightarrow> nat \<Rightarrow> TimerOp list" where
  "sample_cbs q cb = (if cb = 1 then [CancelOp (1, 2), AddOp (30, 30) 2 40 (NonPositive 0)] else [])"

definition sample_timer_events :: "TimerEvent list" where
  "sample_timer_events = [Request (AddOp (5, 5) 0 10 (NonPositive 0)), Request (AddOp (6, 6) 1 20 (Positive 7)), Expire 30 (31, 31)]"


lemma sample_timer_run:
  "map_option (\<lambda>q. (fired q, timers q)) (timer_run sample_alloc sample_cbs sample_timer_events newTimerQueue)
   = Some ([1, 2], [(40, 2)])"
  by code_simp

text \<open>
  A thread adds a timer that is due at once; the loop inserts it, runs it and deletes it; then the
  thread reads its number. When the read comes before, all is well.
\<close>

lemma late_read:
  "timer_run sample_alloc sample_cbs [AddPost 0 10 (NonPositive 0), RunPosted (9, 9), Expire 12 (12, 12), AddReturn 0] newTimerQueue = None"
  "timer_run sample_alloc sample_cbs [AddPost 0 10 (NonPositive 0), RunPosted (9, 9), AddReturn 0, Expire 12 (12, 12)] newTimerQueue \<noteq> None"
  by code_simp+

lemma sequence_at_Some: "deref p q = Some tm \<Longrightarrow> sequence_at q (t, p) = sequence tm"
  by (simp add: sequence_at_def)

lemma due_set:
  assumes "queue_inv U q"
  shows "set (due now q) = {(expiration tm, p) | p tm. deref p q = Some tm \<and> p \<notin> U \<and> expiration tm \<le> now}"
    "sorted_wrt (<) (due now q)"
  using sorted_split(1,4) [OF queue_invD(1) [OF assms], of now] queue_invD(3) [OF assms]
  by (auto simp: due_def)

lemma due_pending:
  assumes "queue_inv U q" "deref p q = Some tm"
  shows "p \<in> snd ` set (due now q) \<longleftrightarrow> p \<notin> U \<and> expiration tm \<le> now"
  using assms(2) due_set(1) [OF assms(1), of now] by (force simp: image_iff)

text \<open>
  C26: When the descriptor fires at time \<open>now\<close>, exactly the timers whose expiration is not after
  \<open>now\<close> run, once each, in the order of their expiration times. Afterwards a one-shot timer is
  gone, a periodic one runs again one interval after \<open>now\<close>, and a timer that was not due, or whose
  insertion is still queued, is unchanged, unless a callback has cancelled it.
\<close>

theorem expired_timers_run:
  assumes "timers_inv q" "allocator alloc"
  shows "\<exists>q' es. timer_handleRead alloc cbs now clock q = Some q' \<and>
    sorted_wrt (<) es \<and>
    set es = {(expiration tm, p) | p tm. deref p q = Some tm \<and> p \<notin> set (posted q) \<and> expiration tm \<le> now} \<and>
    fired q' = fired q @ map (sequence_at q) es \<and>
    (\<forall>p tm. deref p q = Some tm \<and> (\<forall>q cb. CancelOp (p, sequence tm) \<notin> set (cbs q cb)) \<longrightarrow>
       (if now < expiration tm \<or> p \<in> set (posted q) then deref p q' = Some tm
        else if repeat tm then deref p q' = Some (tm\<lparr>expiration := addTime now (interval tm)\<rparr>)
        else \<not> (\<exists>p' tm'. deref p' q' = Some tm' \<and> sequence tm' = sequence tm)))"
proof -
  let ?C = "\<Union>q cb. (\<Union>x \<in> set (cbs q cb). cancels x)" and ?P = "snd ` set (due now q)" and ?U = "set (posted q)"
  have C: "\<forall>q cb. (\<Union>x \<in> set (cbs q cb). cancels x) \<subseteq> ?C" by blast
  have C_iff: "id \<in> ?C \<longleftrightarrow> (\<exists>q cb. CancelOp id \<in> set (cbs q cb))" for id
  proof -
    have "id \<in> cancels x \<longleftrightarrow> x = CancelOp id" for x by (cases x) auto
    then show ?thesis by auto
  qed
  have inv: "queue_inv ?U q" using assms(1) by (simp add: timers_inv_def)
  obtain q0 q1 q2 q' where rel: "op_rel (?U \<union> ?P) ?C (q0\<lparr>callingExpiredTimers := True, cancelingTimers := {}\<rparr>) (q1\<lparr>fired := fired q\<rparr>)"
    and d0: "\<forall>p. deref p q0 = deref p q" "numCreated q0 = numCreated q"
    and d2: "fired q2 = fired q @ map (sequence_at q) (due now q)"
      "\<forall>p. deref p q2 = (if p \<in> ?P then readded now q1 p else deref p q1)"
    and q': "timer_handleRead alloc cbs now clock q = Some q'" "fired q' = fired q2" "\<forall>p. deref p q' = deref p q2"
    by (rule handleRead_effect [OF inv assms(2) C, of now clock]) (rule that)
  have orig: "deref p q = Some tm \<or> numCreated q < sequence tm" if "deref p q1 = Some tm" for p tm
    using op_relD(7) [OF rel, of p tm] that d0 by simp
  have fates: "if now < expiration tm \<or> p \<in> ?U then deref p q' = Some tm
      else if repeat tm then deref p q' = Some (tm\<lparr>expiration := addTime now (interval tm)\<rparr>)
      else \<not> (\<exists>p' tm'. deref p' q' = Some tm' \<and> sequence tm' = sequence tm)"
    if tm: "deref p q = Some tm" and nc: "\<forall>q cb. CancelOp (p, sequence tm) \<notin> set (cbs q cb)" for p tm
  proof -
    note pend = due_pending [OF inv tm, of now]
    have c: "(p, sequence tm) \<notin> ?C" using nc C_iff by blast
    have kept: "deref p q1 = Some tm" using op_relD(8) [OF rel, of p tm] tm c d0 by simp
    have "(p, sequence tm) \<notin> cancelingTimers q1" using op_relD(6) [OF rel] c by auto
    with kept pend d2 q'(3) have main: "deref p q' = (if now < expiration tm \<or> p \<in> ?U then Some tm
        else if repeat tm then Some (restart now tm) else None)"
      by (auto simp: readded_def)
    have "\<not> (\<exists>p' tm'. deref p' q' = Some tm' \<and> sequence tm' = sequence tm)"
      if one: "\<not> (now < expiration tm \<or> p \<in> ?U)" "\<not> repeat tm"
    proof (intro notI, elim exE conjE)
      fix p' tm' assume l: "deref p' q' = Some tm'" "sequence tm' = sequence tm"
      then obtain tm1 where t1: "deref p' q1 = Some tm1" "sequence tm1 = sequence tm"
        using d2(2) q'(3) by (force simp: readded_def restart_def split: if_splits option.splits)
      have "numCreated q \<ge> sequence tm" using queue_invD(5) [OF inv tm] .
      with orig [OF t1(1)] t1(2) have "deref p' q = Some tm1" by auto
      with queue_invD(6) [OF inv this tm t1(2)] have "p' = p" by simp
      with l(1) main one show False by simp
    qed
    with main show ?thesis by (simp add: restart_def)
  qed
  have "fired q' = fired q @ map (sequence_at q) (due now q)" using q'(2) d2(1) by simp
  with q'(1) due_set [OF inv, of now] fates show ?thesis by blast
qed

text \<open>A queue with a periodic timer, due at ten, and a one-shot timer, due at twenty.\<close>

definition sample_queue :: TimerQueue where
  "sample_queue =
     (let t1 = \<lparr>tm_callback = 0, expiration = 10, interval = Positive 7, repeat = True, sequence = 1\<rparr>;
          t2 = \<lparr>tm_callback = 0, expiration = 20, interval = NonPositive 0, repeat = False, sequence = 2\<rparr>
      in \<lparr>timers = [(10, 4), (20, 3)], activeTimers = {(4, 1), (3, 2)}, callingExpiredTimers = False,
          cancelingTimers = {}, timer_heap = [(3, t2), (4, t1)], numCreated = 2, timerfd = Some 110,
          posted = [], reading = [], fired = [], cancel_log = []\<rparr>)"

lemma sample_queue_inv: "timers_inv sample_queue"
proof -
  have "queue_inv {} sample_queue"
    by (rule queue_invI) (auto simp: sample_queue_def deref_def split: if_splits)
  then show ?thesis by (simp add: timers_inv_def sample_queue_def)
qed

theorem expired_timers_run_witness:
  "\<exists>q' es. timer_handleRead sample_alloc (\<lambda>_ _. []) 12 (13, 13) sample_queue = Some q' \<and>
     set es = {(expiration tm, p) | p tm. deref p sample_queue = Some tm \<and> expiration tm \<le> 12} \<and>
     fired q' = map (sequence_at sample_queue) es \<and>
     map_option expiration (deref 3 q') = Some 20 \<and> map_option expiration (deref 4 q') = Some 19"
proof -
  have none: "posted sample_queue = []" "fired sample_queue = []" by (simp_all add: sample_queue_def)
  obtain q' es where r: "timer_handleRead sample_alloc (\<lambda>_ _. []) 12 (13, 13) sample_queue = Some q'"
    "set es = {(expiration tm, p) | p tm. deref p sample_queue = Some tm \<and> expiration tm \<le> 12}"
    "fired q' = map (sequence_at sample_queue) es"
    and f: "\<forall>p tm. deref p sample_queue = Some tm \<and> (\<forall>(q :: TimerQueue) (cb :: nat). CancelOp (p, sequence tm) \<notin> set []) \<longrightarrow>
       (if 12 < expiration tm then deref p q' = Some tm
        else if repeat tm then deref p q' = Some (tm\<lparr>expiration := addTime 12 (interval tm)\<rparr>)
        else \<not> (\<exists>p' tm'. deref p' q' = Some tm' \<and> sequence tm' = sequence tm))"
    using expired_timers_run [OF sample_queue_inv sample_alloc_ok, of "\<lambda>_ _. []" 12 "(13, 13)"]
    unfolding none by (auto intro: that)
  from f [rule_format, of 3] f [rule_format, of 4]
  have "map_option expiration (deref 3 q') = Some 20" "map_option expiration (deref 4 q') = Some 19"
    by (simp_all add: sample_queue_def deref_def addTime_def)
  with r show ?thesis by blast
qed

section \<open>Cancelling\<close>

text \<open>
  A timer that was created and exists no more, and one that, if it exists, is at one address and has
  been inserted.
\<close>

definition dead :: "int \<Rightarrow> TimerQueue \<Rightarrow> bool" where
  "dead s q \<longleftrightarrow> s \<le> numCreated q \<and> \<not> (\<exists>p tm. deref p q = Some tm \<and> sequence tm = s)"

definition settled :: "TimerId \<Rightarrow> TimerQueue \<Rightarrow> bool" where
  "settled tid q \<longleftrightarrow> snd tid \<le> numCreated q \<and>
     (\<forall>p tm. deref p q = Some tm \<longrightarrow> sequence tm = snd tid \<longrightarrow> p = fst tid \<and> p \<notin> set (posted q))"

text \<open>Every timer of the new state is new or was there before, at the same address, and only new ones are queued.\<close>

definition no_revival :: "TimerQueue \<Rightarrow> TimerQueue \<Rightarrow> bool" where
  "no_revival q q' \<longleftrightarrow> numCreated q \<le> numCreated q' \<and>
     (\<forall>p tm. deref p q' = Some tm \<longrightarrow>
        (\<exists>tm0. deref p q = Some tm0 \<and> sequence tm0 = sequence tm \<and> (p \<in> set (posted q') \<longrightarrow> p \<in> set (posted q))) \<or>
        numCreated q < sequence tm)"

lemma no_revival_refl: "no_revival q q"
  by (simp add: no_revival_def)

lemma no_revival_dead: "no_revival q q' \<Longrightarrow> dead s q \<Longrightarrow> dead s q'"
  by (fastforce simp: no_revival_def dead_def)

lemma no_revival_settled: "no_revival q q' \<Longrightarrow> settled tid q \<Longrightarrow> settled tid q'"
  by (fastforce simp: no_revival_def settled_def)

lemma op_rel_no_revival: "op_rel P C q q' \<Longrightarrow> no_revival q q'"
  using op_relD(3,7,9) [of P C q q'] by (fastforce simp: no_revival_def)

text \<open>
  A cancelled timer is gone at once, unless its callback is among those that are being run; then it
  is on the list of those that are not to be put back.
\<close>

definition stopped :: "nat set \<Rightarrow> TimerId \<Rightarrow> TimerQueue \<Rightarrow> bool" where
  "stopped P tid q \<longleftrightarrow> fst tid \<in> P \<and> tid \<in> cancelingTimers q \<or>
     \<not> (\<exists>tm. deref (fst tid) q = Some tm \<and> sequence tm = snd tid)"

lemma stopped_mono:
  assumes "op_rel P C q q'" "stopped P tid q" "snd tid \<le> numCreated q" shows "stopped P tid q'"
  using op_relD(5) [OF assms(1)] op_relD(7) [OF assms(1), of "fst tid"] assms(2,3) by (fastforce simp: stopped_def)

lemma timer_op_cancels:
  assumes "queue_inv P q" "allocator alloc" "timer_op alloc x q = Some q'"
  shows "\<exists>cs. cancel_log q' = cancel_log q @ cs \<and>
    (\<forall>tid \<in> set cs. if callingExpiredTimers q then stopped P tid q'
       else fst tid \<in> P \<or> \<not> (\<exists>tm. deref (fst tid) q' = Some tm \<and> sequence tm = snd tid))"
proof (cases x)
  case (AddOp clock cb t i)
  have "cancel_log q' = cancel_log q"
    by (rule addTimer_effect [OF assms(1,2), of clock cb t i]) (use assms(3) AddOp in simp)
  then show ?thesis by simp
next
  case (CancelOp timer)
  obtain p s where ps: "timer = (p, s)" by (cases timer)
  obtain q1 where c: "cancelInLoop (p, s) q = Some q1" "cancel_log q1 = cancel_log q @ [(p, s)]"
    "cancelingTimers q1 =
       (if (p, s) \<notin> activeTimers q \<and> callingExpiredTimers q then insert (p, s) (cancelingTimers q) else cancelingTimers q)"
    "\<forall>p'. deref p' q1 = (if p' = p \<and> (p, s) \<in> activeTimers q then None else deref p' q)"
    by (rule cancelInLoop_effect [OF assms(1), of p s]) (rule that)
  have q': "q' = q1" using c(1) assms(3) CancelOp ps by simp
  show ?thesis
    using c(2-4) queue_invD(2) [OF assms(1), of p s] unfolding q'
    by (intro exI [of _ "[(p, s)]"]) (auto simp: stopped_def)
qed

lemma timer_ops_cancels:
  "queue_inv P q \<Longrightarrow> allocator alloc \<Longrightarrow> callingExpiredTimers q \<Longrightarrow> timer_ops alloc xs q = Some q' \<Longrightarrow>
     \<exists>cs. cancel_log q' = cancel_log q @ cs \<and> (\<forall>tid \<in> set cs. snd tid \<le> numCreated q \<longrightarrow> stopped P tid q')"
proof (induction xs arbitrary: q)
  case (Cons x xs)
  from Cons.prems(4) obtain q1 where q1: "timer_op alloc x q = Some q1" "timer_ops alloc xs q1 = Some q'"
    by (auto split: option.splits)
  have r: "op_rel P UNIV q q1" using timer_op_rel [OF Cons.prems(1,2), of x UNIV] q1(1) by auto
  have r': "op_rel P UNIV q1 q'"
    using timer_ops_rel [OF op_relD(1) [OF r] Cons.prems(2), of xs UNIV] q1(2) by auto
  from timer_op_cancels [OF Cons.prems(1,2) q1(1)] Cons.prems(3) obtain cs where
    cs: "cancel_log q1 = cancel_log q @ cs" "\<forall>tid \<in> set cs. stopped P tid q1" by auto
  from Cons.IH [OF op_relD(1) [OF r] Cons.prems(2) _ q1(2)] op_relD(4) [OF r] Cons.prems(3) obtain cs' where
    cs': "cancel_log q' = cancel_log q1 @ cs'" "\<forall>tid \<in> set cs'. snd tid \<le> numCreated q1 \<longrightarrow> stopped P tid q'" by auto
  have "\<forall>tid \<in> set (cs @ cs'). snd tid \<le> numCreated q \<longrightarrow> stopped P tid q'"
    using cs(2) cs'(2) stopped_mono [OF r'] op_relD(3) [OF r] by fastforce
  with cs(1) cs'(1) show ?case by (intro exI [of _ "cs @ cs'"]) simp
qed (simp add: exI [of _ "[]"])

lemma run_expired_cancels:
  "queue_inv P q \<Longrightarrow> allocator alloc \<Longrightarrow> callingExpiredTimers q \<Longrightarrow> snd ` set es \<subseteq> P \<Longrightarrow>
   run_expired alloc cbs es q = Some q' \<Longrightarrow>
     \<exists>cs. cancel_log q' = cancel_log q @ cs \<and> (\<forall>tid \<in> set cs. snd tid \<le> numCreated q \<longrightarrow> stopped P tid q')"
proof (induction es arbitrary: q)
  case (Cons e es)
  from Cons.prems(5) obtain tm q1 where tm: "deref (snd e) q = Some tm"
    and q1: "timer_ops alloc (cbs q (tm_callback tm)) (q\<lparr>fired := fired q @ [sequence tm]\<rparr>) = Some q1"
      "run_expired alloc cbs es q1 = Some q'" by (auto split: option.splits)
  let ?q = "q\<lparr>fired := fired q @ [sequence tm]\<rparr>"
  have inv: "queue_inv P ?q" using Cons.prems(1) by (simp add: queue_inv_def)
  have r: "op_rel P UNIV ?q q1"
    using timer_ops_rel [OF inv Cons.prems(2), of "cbs q (tm_callback tm)" UNIV] q1(1) by auto
  have r': "op_rel P UNIV q1 (q'\<lparr>fired := fired q1\<rparr>)"
    using run_expired_rel [OF op_relD(1) [OF r] Cons.prems(2), of es cbs UNIV] q1(2) Cons.prems(4) by auto
  have same: "stopped P tid (q'\<lparr>fired := fired q1\<rparr>) = stopped P tid q'" for tid by (simp add: stopped_def)
  from timer_ops_cancels [OF inv Cons.prems(2) _ q1(1)] Cons.prems(3) obtain cs where
    cs: "cancel_log q1 = cancel_log q @ cs" "\<forall>tid \<in> set cs. snd tid \<le> numCreated q \<longrightarrow> stopped P tid q1" by auto
  from Cons.IH [OF op_relD(1) [OF r] Cons.prems(2) _ _ q1(2)] op_relD(4) [OF r] Cons.prems(3,4) obtain cs' where
    cs': "cancel_log q' = cancel_log q1 @ cs'" "\<forall>tid \<in> set cs'. snd tid \<le> numCreated q1 \<longrightarrow> stopped P tid q'" by auto
  have "\<forall>tid \<in> set (cs @ cs'). snd tid \<le> numCreated q \<longrightarrow> stopped P tid q'"
    using cs(2) cs'(2) stopped_mono [OF r', unfolded same] op_relD(3) [OF r] by fastforce
  with cs(1) cs'(1) show ?case by (intro exI [of _ "cs @ cs'"]) simp
qed (simp add: exI [of _ "[]"])

text \<open>What an event adds to the history, and what it can no longer do to a cancelled timer.\<close>

definition history :: "TimerQueue \<Rightarrow> int list \<Rightarrow> TimerId list \<Rightarrow> TimerQueue \<Rightarrow> bool" where
  "history q fs cs q' \<longleftrightarrow> no_revival q q' \<and> fired q' = fired q @ fs \<and> cancel_log q' = cancel_log q @ cs \<and>
     (\<forall>s. dead s q \<longrightarrow> s \<notin> set fs) \<and> (\<forall>tid \<in> set cs. settled tid q \<longrightarrow> dead (snd tid) q')"

lemma history_keep:
  "no_revival q q' \<Longrightarrow> fired q' = fired q \<Longrightarrow> cancel_log q' = cancel_log q \<Longrightarrow> history q [] [] q'"
  by (simp add: history_def)

lemma expire_history:
  assumes "timers_inv q" "allocator alloc" "timer_handleRead alloc cbs now clock q = Some q'"
  shows "\<exists>fs cs. history q fs cs q'"
proof -
  let ?P = "snd ` set (due now q)" and ?U = "set (posted q)" and ?r = "\<lambda>q. q\<lparr>callingExpiredTimers := True, cancelingTimers := {}\<rparr>"
  have inv: "queue_inv ?U q" using assms(1) by (simp add: timers_inv_def)
  obtain q0 q1 q2 q3 where q0: "getExpired now (q\<lparr>timerfd := None\<rparr>) = Some (due now q, q0)"
    and run: "run_expired alloc cbs (due now q) (?r q0) = Some q1"
    and rel: "op_rel (?U \<union> ?P) UNIV (?r q0) (q1\<lparr>fired := fired q\<rparr>)"
    and d0: "\<forall>p. deref p q0 = deref p q" "numCreated q0 = numCreated q" "posted q0 = posted q" "cancel_log q0 = cancel_log q"
    and p3: "posted q3 = posted q" "cancel_log q3 = cancel_log q1"
    and d2: "numCreated q2 = numCreated q1" "fired q2 = fired q @ map (sequence_at q) (due now q)"
      "\<forall>p. deref p q2 = (if p \<in> ?P then readded now q1 p else deref p q1)"
    and q3: "timer_handleRead alloc cbs now clock q = Some q3" "fired q3 = fired q2" "\<forall>p. deref p q3 = deref p q2"
      "numCreated q3 = numCreated q2"
    by (rule handleRead_effect [OF inv assms(2), of cbs UNIV now clock]) (simp, rule that)
  have q': "q' = q3" using q3(1) assms(3) by simp
  have orig: "\<exists>tm1. deref p q1 = Some tm1 \<and> sequence tm1 = sequence tm" if "deref p q' = Some tm" for p tm
    using that d2(3) q3(3) q' by (auto simp: readded_def restart_def split: if_splits option.splits)
  have rev1: "no_revival q q1"
    using op_relD(3,7,9) [OF rel] d0 by (fastforce simp: no_revival_def)
  have post1: "posted q1 = posted q" using op_relD(9) [OF rel] d0(3) by simp
  have rev: "no_revival q q'" using rev1 orig d2(1) q3(4) q' p3(1) post1 unfolding no_revival_def by metis
  have fired: "s \<notin> set (map (sequence_at q) (due now q))" if "dead s q" for s
  proof
    assume "s \<in> set (map (sequence_at q) (due now q))"
    then obtain t p where e: "(t, p) \<in> set (due now q)" "s = sequence_at q (t, p)" by auto
    then obtain tm where "deref p q = Some tm" using due_set(1) [OF inv, of now] by auto
    with e(2) that show False by (auto simp: dead_def sequence_at_def)
  qed
  have "queue_inv (?U \<union> ?P) (?r q0)"
  proof -
    have "queue_inv ?U (q\<lparr>timerfd := None\<rparr>)" using inv by (simp add: queue_inv_def)
    then have "queue_inv (?U \<union> ?P) q0" by (rule getExpired_effect [of _ _ now]) (use q0 in \<open>simp add: due_def\<close>)
    then show ?thesis by (simp add: queue_inv_def)
  qed
  from run_expired_cancels [OF this assms(2) _ _ run] obtain cs where
    cs: "cancel_log q1 = cancel_log q @ cs" "\<forall>tid \<in> set cs. snd tid \<le> numCreated q \<longrightarrow> stopped (?U \<union> ?P) tid q1"
    using d0(2,4) by auto
  have "dead (snd tid) q'" if tid: "tid \<in> set cs" "settled tid q" for tid
    unfolding dead_def
  proof (intro conjI notI, goal_cases)
    case 1
    show ?case using tid(2) rev by (simp add: settled_def no_revival_def)
  next
    case 2
    then obtain p tm where l: "deref p q' = Some tm" "sequence tm = snd tid" by blast
    then obtain tm1 where t1: "deref p q1 = Some tm1" "sequence tm1 = snd tid" using orig by fastforce
    have s: "snd tid \<le> numCreated q" using tid(2) by (simp add: settled_def)
    have p: "p = fst tid" "p \<notin> ?U" using no_revival_settled [OF rev1 tid(2)] t1 post1 by (auto simp: settled_def)
    with cs(2) tid(1) s t1 have "p \<in> ?P" "tid \<in> cancelingTimers q1" by (auto simp: stopped_def)
    with t1 p(1) have "readded now q1 p = None" by (auto simp: readded_def)
    with d2(3) q3(3) q' \<open>p \<in> ?P\<close> l(1) show False by simp
  qed
  with rev cs(1) fired d2(2) q3(2) p3(2) q' show ?thesis unfolding history_def by metis
qed

lemma timer_event_history:
  assumes "timers_inv q" "allocator alloc" "timer_event alloc cbs x q = Some q'"
  shows "\<exists>fs cs. history q fs cs q'"
proof -
  have inv: "queue_inv (set (posted q)) q" using assms(1) by (simp add: timers_inv_def)
  show ?thesis
  proof (cases x)
    case (Request y)
    have y: "timer_op alloc y q = Some q'" using assms(3) Request by simp
    have r: "op_rel (set (posted q)) UNIV q q'" using timer_op_rel [OF inv assms(2), of y UNIV] y by auto
    from timer_op_cancels [OF inv assms(2) y] obtain cs where cs: "cancel_log q' = cancel_log q @ cs"
      "\<forall>tid \<in> set cs. stopped (set (posted q)) tid q' \<or>
         fst tid \<in> set (posted q) \<or> \<not> (\<exists>tm. deref (fst tid) q' = Some tm \<and> sequence tm = snd tid)"
      by (auto split: if_splits)
    have "dead (snd tid) q'" if "tid \<in> set cs" "settled tid q" for tid
      using cs(2) that no_revival_settled [OF op_rel_no_revival [OF r] that(2)] op_relD(9) [OF r]
      by (fastforce simp: dead_def settled_def stopped_def)
    with op_rel_no_revival [OF r] op_relD(2) [OF r] cs(1) have "history q [] cs q'" by (simp add: history_def)
    then show ?thesis by blast
  next
    case (Expire now clock)
    with expire_history [OF assms(1,2), of cbs now clock q'] assms(3) show ?thesis by simp
  next
    case (RunPosted clock)
    show ?thesis
    proof (cases "posted q")
      case Nil
      with RunPosted assms(3) have "history q [] [] q'" by (simp add: run_posted_def no_revival_refl history_keep)
      then show ?thesis by blast
    next
      case (Cons p ps)
      obtain q1 where "run_posted clock q = Some q1" "posted q1 = ps" "timer_heap q1 = timer_heap q"
        "numCreated q1 = numCreated q" "fired q1 = fired q" "cancel_log q1 = cancel_log q"
        by (rule run_posted_effect [OF assms(1) Cons, of clock]) (rule that)
      with RunPosted assms(3) Cons have "history q [] [] q'"
        by (intro history_keep) (auto simp: no_revival_def deref_def)
      then show ?thesis by blast
    qed
  next
    case (AddPost cb t i)
    obtain p q1 where q1: "addTimer_post alloc cb t i q = q1\<lparr>posted := posted q @ [p], reading := reading q @ [p]\<rparr>"
      "numCreated q1 = numCreated q + 1" "fired q1 = fired q" "cancel_log q1 = cancel_log q"
      and d: "\<And>p'. deref p' q1 = (if p' = p then Some \<lparr>tm_callback = cb, expiration = t, interval = i,
        repeat = is_Positive i, sequence = numCreated q + 1\<rparr> else deref p' q)"
      by (rule addTimer_post_effect [OF assms(1,2), of cb t i]) (rule that)
    have "history q [] [] (q1\<lparr>posted := posted q @ [p], reading := reading q @ [p]\<rparr>)"
      using q1(2-4) d by (intro history_keep) (auto simp: no_revival_def)
    with q1(1) AddPost assms(3) show ?thesis by auto
  next
    case (AddReturn p)
    with assms(3) addTimer_return_effect [of p q q'] have "q' = q \<or> q' = q\<lparr>reading := remove1 p (reading q)\<rparr>" by simp
    then have "history q [] [] q'" by (intro history_keep) (auto simp: no_revival_def)
    then show ?thesis by blast
  qed
qed

lemma timer_run_history:
  assumes "timers_inv q" "allocator alloc" "timer_run alloc cbs xs q = Some q'"
  shows "\<exists>fs cs. history q fs cs q'"
  using assms
proof (induction xs arbitrary: q)
  case Nil
  then have "history q [] [] q'" by (simp add: no_revival_refl history_keep)
  then show ?case by blast
next
  case (Cons x xs)
  then obtain q1 where x: "timer_event alloc cbs x q = Some q1" "timer_run alloc cbs xs q1 = Some q'"
    by (auto split: option.splits)
  have inv: "timers_inv q1" using timer_run_keeps_inv [OF Cons.prems(1,2), of cbs "[x]"] x(1) by simp
  from timer_event_history [OF Cons.prems(1,2) x(1)] obtain fs cs where h: "history q fs cs q1" by blast
  from Cons.IH [OF inv Cons.prems(2) x(2)] obtain fs' cs' where h': "history q1 fs' cs' q'" by blast
  have "no_revival q q'" using h h' unfolding history_def no_revival_def by (smt (verit) order_trans order_le_less_trans)
  moreover have "s \<notin> set (fs @ fs')" if "dead s q" for s
    using that h h' no_revival_dead [of q q1 s] by (auto simp: history_def)
  moreover have "dead (snd tid) q'" if "tid \<in> set (cs @ cs')" "settled tid q" for tid
    using that h h' no_revival_dead [of q1 q' "snd tid"] no_revival_settled [of q q1 tid] by (auto simp: history_def)
  ultimately have "history q (fs @ fs') (cs @ cs') q'" using h h' by (simp add: history_def)
  then show ?case by blast
qed

text \<open>The id that \<open>addTimer\<close> returns in the thread of the loop names an active timer.\<close>

lemma addTimer_active:
  assumes "timers_inv q" "allocator alloc" "addTimer alloc clock cb t i q = Some (tid, q')"
  shows "tid \<in> activeTimers q'"
proof -
  obtain p q1 where add: "addTimer alloc clock cb t i q = Some ((p, numCreated q + 1), q1)"
    and inv: "queue_inv (set (posted q)) q1" and p: "p \<notin> set (posted q)"
    and d: "\<And>p'. deref p' q1 = (if p' = p then Some \<lparr>tm_callback = cb, expiration = t, interval = i,
        repeat = is_Positive i, sequence = numCreated q + 1\<rparr> else deref p' q)"
    by (rule addTimer_effect [of "set (posted q)" q alloc clock cb t i])
      (use assms(1,2) in \<open>simp_all add: timers_inv_def\<close>)
  have "(p, numCreated q + 1) \<in> activeTimers q1" using queue_invD(2) [OF inv, of p "numCreated q + 1"] p d [of p] by simp
  with add assms(3) show ?thesis by simp
qed



section \<open>The timer descriptor\<close>

text \<open>
  The timers are kept by the system clock, the descriptor counts on the monotonic one. Let \<open>off\<close> be a
  lower bound on how far the system clock is ahead of the monotonic one, and \<open>T\<close> an upper bound of the
  monotonic clock, in all the readings. Then the descriptor becomes readable no later than the monotonic
  clock shows \<open>t - off\<close>, where \<open>t\<close> is the time of the earliest timer, or a hundred microseconds
  after \<open>T\<close>. While callbacks run it may be unarmed when the earliest timer is valid, because it is
  then set afterwards.
\<close>

definition armed :: "int \<Rightarrow> int \<Rightarrow> TimerQueue \<Rightarrow> bool" where
  "armed off T q \<longleftrightarrow> timers q = [] \<or> (\<exists>D. timerfd q = Some D \<and> D \<le> max (fst (hd (timers q)) - off) (T + 100))"

definition armed_or_valid :: "bool \<Rightarrow> int \<Rightarrow> int \<Rightarrow> TimerQueue \<Rightarrow> bool" where
  "armed_or_valid v off T q \<longleftrightarrow> armed off T q \<or> v \<and> 0 < fst (hd (timers q))"

lemma fst_hd_set_insert:
  "fst (hd (set_insert (w :: int, p :: nat) xs)) = (if xs = [] then w else min w (fst (hd xs)))"
  by (cases xs) (auto simp: less_prod_def)

lemma set_insert_not_Nil: "set_insert x xs \<noteq> []"
  by (cases xs) auto

definition clock_within :: "int \<Rightarrow> int \<Rightarrow> Clock \<Rightarrow> bool" where
  "clock_within off T clock \<longleftrightarrow> snd clock \<le> T \<and> off \<le> fst clock - snd clock"

fun op_within :: "int \<Rightarrow> int \<Rightarrow> TimerOp \<Rightarrow> bool" where
  "op_within off T (AddOp clock cb when i) = clock_within off T clock"
| "op_within off T (CancelOp timer) = True"

fun event_within :: "int \<Rightarrow> int \<Rightarrow> TimerEvent \<Rightarrow> bool" where
  "event_within off T (Request x) = op_within off T x"
| "event_within off T (Expire now clock) = (0 < now \<and> clock_within off T clock)"
| "event_within off T (RunPosted clock) = clock_within off T clock"
| "event_within off T (AddPost cb when i) = True"
| "event_within off T (AddReturn p) = True"

lemma sorted_hd_le:
  "sorted_wrt (<) (xs :: (int \<times> nat) list) \<Longrightarrow> ys \<noteq> [] \<Longrightarrow> set ys \<subseteq> set xs \<Longrightarrow> fst (hd xs) \<le> fst (hd ys)"
proof (cases xs)
  case (Cons x xs')
  assume a: "sorted_wrt (<) xs" "ys \<noteq> []" "set ys \<subseteq> set xs"
  then have "hd ys \<in> set xs" by auto
  with a(1) Cons show ?thesis by (auto simp: less_prod_def)
qed simp

lemma set_insert_armed:
  assumes "armed_or_valid v off T q" "clock_within off T clock" "timers q' = set_insert (t, p) (timers q)"
    "timerfd q' = (if timers q = [] \<or> t < fst (hd (timers q)) then Some (snd clock + max 100 (t - fst clock)) else timerfd q)"
  shows "armed_or_valid v off T q'"
  using assms
  by (auto simp: armed_or_valid_def armed_def clock_within_def fst_hd_set_insert set_insert_not_Nil)

lemma timer_op_armed:
  assumes "queue_inv P q" "allocator alloc" "armed_or_valid v off T q" "op_within off T x"
    "timer_op alloc x q = Some q'"
  shows "armed_or_valid v off T q'"
proof (cases x)
  case (AddOp clock cb t i)
  obtain p where "timers q' = set_insert (t, p) (timers q)"
    "timerfd q' = (if timers q = [] \<or> t < fst (hd (timers q)) then Some (snd clock + max 100 (t - fst clock)) else timerfd q)"
    by (rule addTimer_effect [OF assms(1,2), of clock cb t i]) (use assms(5) AddOp in auto)
  with set_insert_armed [OF assms(3)] assms(4) AddOp show ?thesis by simp
next
  case (CancelOp timer)
  obtain p s where ps: "timer = (p, s)" by (cases timer)
  obtain q1 where c: "cancelInLoop (p, s) q = Some q1" "timerfd q1 = timerfd q"
    "timers q1 = filter (\<lambda>e. (p, s) \<notin> activeTimers q \<or> snd e \<noteq> p) (timers q)"
    by (rule cancelInLoop_effect [OF assms(1), of p s]) (rule that)
  have q': "q' = q1" using c(1) assms(5) CancelOp ps by simp
  show ?thesis
  proof (cases "timers q' = []")
    case False
    have "fst (hd (timers q)) \<le> fst (hd (timers q'))" "timers q \<noteq> []"
      using sorted_hd_le [OF queue_invD(1) [OF assms(1)] False] False c(3) q' by auto
    with assms(3) c(2) q' show ?thesis by (fastforce simp: armed_or_valid_def armed_def)
  qed (simp add: armed_or_valid_def armed_def)
qed

lemma timer_ops_armed:
  "queue_inv P q \<Longrightarrow> allocator alloc \<Longrightarrow> armed_or_valid v off T q \<Longrightarrow> \<forall>x \<in> set xs. op_within off T x \<Longrightarrow>
     timer_ops alloc xs q = Some q' \<Longrightarrow> armed_or_valid v off T q'"
proof (induction xs arbitrary: q)
  case (Cons x xs)
  then obtain q1 where q1: "timer_op alloc x q = Some q1" "timer_ops alloc xs q1 = Some q'" by (auto split: option.splits)
  moreover have "queue_inv P q1" using timer_op_rel [OF Cons.prems(1,2), of x UNIV] q1(1) by (auto dest: op_relD(1))
  moreover have "armed_or_valid v off T q1" using timer_op_armed [OF Cons.prems(1-3) _ q1(1)] Cons.prems(4) by simp
  ultimately show ?case using Cons.IH [OF _ Cons.prems(2)] Cons.prems(4) by simp
qed simp

lemma run_expired_armed:
  assumes "queue_inv P q" "allocator alloc" "armed_or_valid v off T q" "\<forall>q cb. \<forall>x \<in> set (cbs q cb). op_within off T x"
    "run_expired alloc cbs es q = Some q'"
  shows "armed_or_valid v off T q'"
  using assms
proof (induction es arbitrary: q)
  case (Cons e es)
  from Cons.prems(5) obtain tm q1 where tm: "deref (snd e) q = Some tm"
    and q1: "timer_ops alloc (cbs q (tm_callback tm)) (q\<lparr>fired := fired q @ [sequence tm]\<rparr>) = Some q1"
      "run_expired alloc cbs es q1 = Some q'" by (auto split: option.splits)
  let ?q = "q\<lparr>fired := fired q @ [sequence tm]\<rparr>"
  have inv: "queue_inv P ?q" "armed_or_valid v off T ?q"
    using Cons.prems(1,3) by (simp_all add: queue_inv_def armed_or_valid_def armed_def)
  have "queue_inv P q1" using timer_ops_rel [OF inv(1) Cons.prems(2), of "cbs q (tm_callback tm)" UNIV] q1(1)
    by (auto dest: op_relD(1))
  moreover have "armed_or_valid v off T q1"
    using timer_ops_armed [OF inv(1) Cons.prems(2) inv(2) _ q1(1)] Cons.prems(4) by blast
  ultimately show ?case using Cons.IH [OF _ Cons.prems(2) _ Cons.prems(4) q1(2)] by blast
qed simp

lemma readd_timers:
  assumes "queue_inv U q2" "queue_inv (U \<union> P) q1" "\<forall>p. deref p q2 = (if p \<in> P then readded now q1 p else deref p q1)"
    "(t, p) \<in> set (timers q2)"
  shows "(t, p) \<in> set (timers q1) \<or> now \<le> t"
proof -
  obtain tm where tm: "deref p q2 = Some tm" "expiration tm = t" "p \<notin> U" using queue_invD(3) [OF assms(1), of t p] assms(4) by auto
  show ?thesis
  proof (cases "p \<in> P")
    case True
    then obtain tm1 where tm1: "deref p q1 = Some tm1" "repeat tm1" "tm = restart now tm1"
      using tm assms(3) by (auto simp: readded_def split: option.splits if_splits)
    have "is_Positive (interval tm1)" by (rule queue_invD(7) [OF assms(2) tm1(1,2)])
    with tm tm1 show ?thesis by (auto simp: restart_def addTime_def split: interval.splits)
  next
    case False
    with tm assms(3) queue_invD(3) [OF assms(2), of t p] show ?thesis by auto
  qed
qed

lemma readd_keeps:
  assumes "queue_inv U q2" "queue_inv (U \<union> P) q1" "\<forall>p. deref p q2 = (if p \<in> P then readded now q1 p else deref p q1)"
  shows "set (timers q1) \<subseteq> set (timers q2)"
proof
  fix e assume "e \<in> set (timers q1)"
  then show "e \<in> set (timers q2)"
    using assms queue_invD(3) [OF assms(1), of "fst e" "snd e"] queue_invD(3) [OF assms(2), of "fst e" "snd e"] by auto
qed

lemma expire_armed:
  assumes "queue_inv U q" "allocator alloc" "0 < now" "clock_within off T clock"
    "\<forall>q cb. \<forall>y \<in> set (cbs q cb). op_within off T y" "timer_handleRead alloc cbs now clock q = Some q'"
  shows "armed off T q'"
proof -
  let ?P = "snd ` set (due now q)" and ?r = "\<lambda>q. q\<lparr>callingExpiredTimers := True, cancelingTimers := {}\<rparr>"
  obtain q0 q1 q2 q3 where q0: "getExpired now (q\<lparr>timerfd := None\<rparr>) = Some (due now q, q0)"
    and q1: "run_expired alloc cbs (due now q) (?r q0) = Some q1" "op_rel (U \<union> ?P) UNIV (?r q0) (q1\<lparr>fired := fired q\<rparr>)"
    and q2: "queue_inv U q2" "\<forall>p. deref p q2 = (if p \<in> ?P then readded now q1 p else deref p q1)"
    and q3: "timer_handleRead alloc cbs now clock q = Some q3" "timers q3 = timers q2"
      "timerfd q3 = (if timers q2 \<noteq> [] \<and> 0 < fst (hd (timers q2))
         then Some (snd clock + max 100 (fst (hd (timers q2)) - fst clock)) else timerfd q1)"
    by (rule handleRead_effect [OF assms(1,2), of cbs UNIV now clock]) (simp, rule that)
  have q': "q' = q3" using q3(1) assms(6) by simp
  have "queue_inv U (q\<lparr>timerfd := None\<rparr>)" using assms(1) by (simp add: queue_inv_def)
  then have inv0: "queue_inv (U \<union> ?P) q0" and t0: "timers q0 = dropWhile (\<lambda>e. fst e \<le> now) (timers q)"
    by (rule getExpired_effect [of _ _ now]; use q0 in \<open>simp add: due_def\<close>)+
  have later: "\<forall>e \<in> set (timers q0). now < fst e"
    using sorted_split(2) [OF queue_invD(1) [OF assms(1)], of now] t0 by auto
  have "armed_or_valid True off T (?r q0)"
  proof (cases "timers q0")
    case (Cons e es)
    with later assms(3) show ?thesis by (simp add: armed_or_valid_def)
  qed (simp add: armed_or_valid_def armed_def)
  moreover have "queue_inv (U \<union> ?P) (?r q0)" using inv0 by (simp add: queue_inv_def)
  ultimately have a1: "armed_or_valid True off T q1"
    using run_expired_armed [OF _ assms(2) _ assms(5) q1(1)] by blast
  have inv1: "queue_inv (U \<union> ?P) q1" using op_relD(1) [OF q1(2)] by (simp add: queue_inv_def)
  have "\<exists>D. timerfd q3 = Some D \<and> D \<le> max (fst (hd (timers q3)) - off) (T + 100)" if ne: "timers q2 \<noteq> []"
  proof (cases "0 < fst (hd (timers q2))")
    case True
    with ne q3(2,3) assms(4) show ?thesis by (auto simp: clock_within_def)
  next
    case False
    obtain t p where h: "hd (timers q2) = (t, p)" by (cases "hd (timers q2)")
    have "(t, p) \<in> set (timers q2)" using ne h by (metis hd_in_set)
    with readd_timers [OF q2(1) inv1 q2(2)] False h assms(3) have in1: "(t, p) \<in> set (timers q1)" by force
    have "fst (hd (timers q1)) = t"
    proof (rule antisym)
      show "fst (hd (timers q1)) \<le> t" using sorted_hd_le [OF queue_invD(1) [OF inv1], of "[(t, p)]"] in1 by simp
      have "timers q1 \<noteq> []" using in1 by auto
      then show "t \<le> fst (hd (timers q1))"
        using sorted_hd_le [OF queue_invD(1) [OF q2(1)] _ readd_keeps [OF q2(1) inv1 q2(2)]] h by simp
    qed
    with a1 False h in1 have "\<exists>D. timerfd q1 = Some D \<and> D \<le> max (t - off) (T + 100)"
      by (auto simp: armed_or_valid_def armed_def)
    with q3(2,3) False h show ?thesis by auto
  qed
  with q3(2) q' show ?thesis by (auto simp: armed_def)
qed

lemma timer_event_armed:
  assumes "timers_inv q" "allocator alloc" "armed off T q" "event_within off T x"
    "\<forall>q cb. \<forall>y \<in> set (cbs q cb). op_within off T y" "timer_event alloc cbs x q = Some q'"
  shows "armed off T q'"
proof -
  have inv: "queue_inv (set (posted q)) q" using assms(1) by (simp add: timers_inv_def)
  have plain: "armed_or_valid False off T = armed off T" by (simp add: armed_or_valid_def fun_eq_iff)
  show ?thesis
  proof (cases x)
    case (Request y)
    with timer_op_armed [OF inv assms(2), of False off T y q', unfolded plain] assms(3,4,6) show ?thesis by simp
  next
    case (Expire now clock)
    with expire_armed [OF inv assms(2) _ _ assms(5), of now clock q'] assms(4,6) show ?thesis by simp
  next
    case (RunPosted clock)
    show ?thesis
    proof (cases "posted q")
      case Nil
      with RunPosted assms(3,6) show ?thesis by (simp add: run_posted_def)
    next
      case (Cons p ps)
      obtain q1 tm where q1: "run_posted clock q = Some q1" "deref p q = Some tm"
        "timerfd q1 = (if timers q = [] \<or> expiration tm < fst (hd (timers q))
           then Some (snd clock + max 100 (expiration tm - fst clock)) else timerfd q)"
        "timers q1 = set_insert (expiration tm, p) (timers q)"
        by (rule run_posted_effect [OF assms(1) Cons, of clock]) (rule that)
      with set_insert_armed [of False off T q, unfolded plain, OF assms(3) _ q1(4,3)] RunPosted assms(4,6)
      show ?thesis by simp
    qed
  next
    case (AddPost cb t i)
    have "timers q' = timers q" "timerfd q' = timerfd q"
      using addTimer_post_effect [OF assms(1,2), of cb t i] AddPost assms(6) by force+
    with assms(3) show ?thesis by (simp add: armed_def)
  next
    case (AddReturn p)
    with assms(6) addTimer_return_effect [of p q q'] have "timers q' = timers q \<and> timerfd q' = timerfd q" by auto
    with assms(3) show ?thesis by (simp add: armed_def)
  qed
qed

lemma timer_run_armed:
  "timers_inv q \<Longrightarrow> allocator alloc \<Longrightarrow> armed off T q \<Longrightarrow> \<forall>x \<in> set xs. event_within off T x \<Longrightarrow>
   \<forall>q cb. \<forall>y \<in> set (cbs q cb). op_within off T y \<Longrightarrow> timer_run alloc cbs xs q = Some q' \<Longrightarrow> armed off T q'"
proof (induction xs arbitrary: q)
  case (Cons x xs)
  then obtain q1 where x: "timer_event alloc cbs x q = Some q1" "timer_run alloc cbs xs q1 = Some q'"
    by (auto split: option.splits)
  have inv: "timers_inv q1" using timer_run_keeps_inv [OF Cons.prems(1,2), of cbs "[x]"] x(1) by simp
  have "armed off T q1" using timer_event_armed [OF Cons.prems(1-3) _ Cons.prems(5) x(1)] Cons.prems(4) by simp
  with Cons.IH [OF inv Cons.prems(2) _ _ Cons.prems(5) x(2)] Cons.prems(4) show ?case by simp
qed simp


text \<open>The system clock is two ahead of the monotonic one; a timer is added by another thread.\<close>

definition sample_clock_events :: "TimerEvent list" where
  "sample_clock_events =
     [AddPost 0 300 (Positive 7), RunPosted (7, 5), AddReturn 0, Request (AddOp (8, 6) 0 20 (NonPositive 0)), Expire 30 (32, 30)]"

lemma sample_rearmed:
  "map_option (\<lambda>q. (timers q, timerfd q)) (timer_run sample_alloc (\<lambda>_ _. []) sample_clock_events newTimerQueue)
   = Some ([(300, 0)], Some 298)"
  by code_simp


end
