(* ===== verification/EventLoop.thy ===== *)
theory EventLoop
  imports Interfaces "HOL-Library.Sublist"
begin

text \<open>
  The event loop and its queue of functors (\<open>src/net/EventLoop.h\<close>, \<open>EventLoop.cc\<close>).

  The loop thread and any number of other threads share the queue, the wake-up descriptor and the
  flags. Each rule of \<open>loop_step\<close> is one action of one thread that the others can see as a whole: a
  push holds the mutex, a read or write of the descriptor is one system call. The loop thread is
  at one of the places of \<open>LoopPc\<close>. \<open>queuedLog\<close> and \<open>ranLog\<close> are history variables; what a functor
  queues when it runs is the parameter \<open>body\<close>.
\<close>

section \<open>State and operations\<close>

datatype 'f Activity = WakeupEvent | UserCallback "'f list" | QuitCallback

datatype 'f LoopPc = AtPoll | Handling "'f Activity list" | AtPending | Calling "'f list" | Stopped

record 'f EventLoop =
  looping :: bool
  quit_flag :: bool
  eventHandling :: bool
  callingPendingFunctors :: bool
  pendingFunctors :: "'f list"
  wakeupFd :: nat
  loop_pc :: "'f LoopPc"
  waking :: nat
  queuedLog :: "'f list"
  ranLog :: "'f list"

definition loop_start :: "'f EventLoop" where
  "loop_start = \<lparr>looping = True, quit_flag = False, eventHandling = False, callingPendingFunctors = False,
     pendingFunctors = [], wakeupFd = 0, loop_pc = AtPoll, waking = 0, queuedLog = [], ranLog = []\<rparr>"

definition wakeup :: "'f EventLoop \<Rightarrow> 'f EventLoop" where
  "wakeup l = l\<lparr>wakeupFd := wakeupFd l + 1\<rparr>"

definition loop_handleRead :: "'f EventLoop \<Rightarrow> 'f EventLoop" where
  "loop_handleRead l = l\<lparr>wakeupFd := 0\<rparr>"

definition push_functor :: "'f \<Rightarrow> 'f EventLoop \<Rightarrow> 'f EventLoop" where
  "push_functor cb l = l\<lparr>pendingFunctors := pendingFunctors l @ [cb], queuedLog := queuedLog l @ [cb]\<rparr>"

definition queueInLoop :: "bool \<Rightarrow> 'f \<Rightarrow> 'f EventLoop \<Rightarrow> 'f EventLoop" where
  "queueInLoop in_loop cb l =
     (let l = push_functor cb l in if \<not> in_loop \<or> callingPendingFunctors l then wakeup l else l)"

definition quit :: "bool \<Rightarrow> 'f EventLoop \<Rightarrow> 'f EventLoop" where
  "quit in_loop l = (let l = l\<lparr>quit_flag := False\<rparr> in if \<not> in_loop then wakeup l else l)"

text \<open>\<open>runInLoop\<close>: at once in the loop thread, queued from another one; \<open>run\<close> is the call of the functor.\<close>

definition runInLoop :: "('f \<Rightarrow> 'f EventLoop \<Rightarrow> 'f EventLoop) \<Rightarrow> bool \<Rightarrow> 'f \<Rightarrow> 'f EventLoop \<Rightarrow> 'f EventLoop" where
  "runInLoop run in_loop cb l = (if in_loop then run cb l else queueInLoop False cb l)"

fun handle_activity :: "'f Activity \<Rightarrow> 'f EventLoop \<Rightarrow> 'f EventLoop" where
  "handle_activity WakeupEvent l = loop_handleRead l"
| "handle_activity (UserCallback fs) l = fold (queueInLoop True) fs l"
| "handle_activity QuitCallback l = quit True l"

text \<open>The two halves of \<open>doPendingFunctors\<close>: taking the queue, and one call.\<close>

definition takePending :: "'f EventLoop \<Rightarrow> 'f EventLoop" where
  "takePending l = l\<lparr>callingPendingFunctors := True, loop_pc := Calling (pendingFunctors l), pendingFunctors := []\<rparr>"

definition callFunctor :: "('f \<Rightarrow> 'f list) \<Rightarrow> 'f \<Rightarrow> 'f list \<Rightarrow> 'f EventLoop \<Rightarrow> 'f EventLoop" where
  "callFunctor body f fs l =
     fold (queueInLoop True) (body f) (l\<lparr>ranLog := ranLog l @ [f], loop_pc := Calling fs\<rparr>)"

inductive loop_step :: "('f \<Rightarrow> 'f list) \<Rightarrow> 'f EventLoop \<Rightarrow> 'f EventLoop \<Rightarrow> bool" for body where
  poll: "loop_pc l = AtPoll \<Longrightarrow> \<not> quit_flag l \<Longrightarrow> (WakeupEvent \<in> set acts \<Longrightarrow> 0 < wakeupFd l) \<Longrightarrow>
    loop_step body l (l\<lparr>loop_pc := Handling acts, eventHandling := True\<rparr>)"
| stop: "loop_pc l = AtPoll \<Longrightarrow> quit_flag l \<Longrightarrow> loop_step body l (l\<lparr>loop_pc := Stopped\<rparr>)"
| handle: "loop_pc l = Handling (a # acts) \<Longrightarrow>
    loop_step body l (handle_activity a (l\<lparr>loop_pc := Handling acts\<rparr>))"
| handled: "loop_pc l = Handling [] \<Longrightarrow> loop_step body l (l\<lparr>loop_pc := AtPending, eventHandling := False\<rparr>)"
| take_pending: "loop_pc l = AtPending \<Longrightarrow> loop_step body l (takePending l)"
| call: "loop_pc l = Calling (f # fs) \<Longrightarrow> loop_step body l (callFunctor body f fs l)"
| called: "loop_pc l = Calling [] \<Longrightarrow>
    loop_step body l (l\<lparr>callingPendingFunctors := False, loop_pc := AtPoll\<rparr>)"
| other_push: "loop_step body l ((push_functor cb l)\<lparr>waking := waking l + 1\<rparr>)"
| other_wake: "0 < waking l \<Longrightarrow> loop_step body l ((wakeup l)\<lparr>waking := waking l - 1\<rparr>)"
| other_quit: "loop_step body l (quit False l)"

inductive loop_reach :: "('f \<Rightarrow> 'f list) \<Rightarrow> 'f EventLoop \<Rightarrow> bool" for body where
  start: "loop_reach body loop_start"
| step: "loop_reach body l \<Longrightarrow> loop_step body l l' \<Longrightarrow> loop_reach body l'"

section \<open>No functor is lost\<close>

text \<open>The functors taken from the queue and not yet run, and whether the queue will be looked at without a wake-up.\<close>

fun taken :: "'f LoopPc \<Rightarrow> 'f list" where
  "taken (Calling fs) = fs"
| "taken pc = []"

fun will_look :: "'f LoopPc \<Rightarrow> bool" where
  "will_look (Handling acts) = True"
| "will_look AtPending = True"
| "will_look pc = False"

definition loop_inv :: "'f EventLoop \<Rightarrow> bool" where
  "loop_inv l \<longleftrightarrow>
     queuedLog l = ranLog l @ taken (loop_pc l) @ pendingFunctors l \<and>
     (pendingFunctors l \<noteq> [] \<longrightarrow> will_look (loop_pc l) \<or> 0 < wakeupFd l \<or> 0 < waking l) \<and>
     (callingPendingFunctors l \<longleftrightarrow> (\<exists>fs. loop_pc l = Calling fs)) \<and>
     \<not> quit_flag l \<and> loop_pc l \<noteq> Stopped"

lemma queueInLoop_fields [simp]:
  "loop_pc (queueInLoop b f l) = loop_pc l" "ranLog (queueInLoop b f l) = ranLog l"
  "waking (queueInLoop b f l) = waking l" "quit_flag (queueInLoop b f l) = quit_flag l"
  "callingPendingFunctors (queueInLoop b f l) = callingPendingFunctors l"
  "queuedLog (queueInLoop b f l) = queuedLog l @ [f]" "pendingFunctors (queueInLoop b f l) = pendingFunctors l @ [f]"
  "wakeupFd (queueInLoop b f l) = (if \<not> b \<or> callingPendingFunctors l then wakeupFd l + 1 else wakeupFd l)"
  by (simp_all add: queueInLoop_def push_functor_def wakeup_def Let_def)

lemma queueInLoop_inv:
  assumes "loop_inv l" "will_look (loop_pc l) \<or> callingPendingFunctors l"
  shows "loop_inv (fold (queueInLoop True) fs l)" "loop_pc (fold (queueInLoop True) fs l) = loop_pc l"
proof -
  have "loop_inv (fold (queueInLoop True) fs l) \<and> loop_pc (fold (queueInLoop True) fs l) = loop_pc l"
    using assms
  proof (induction fs arbitrary: l)
    case (Cons f fs)
    have "loop_inv (queueInLoop True f l)" using Cons.prems by (auto simp: loop_inv_def)
    with Cons.IH [of "queueInLoop True f l"] Cons.prems(2) show ?case by simp
  qed simp
  then show "loop_inv (fold (queueInLoop True) fs l)" "loop_pc (fold (queueInLoop True) fs l) = loop_pc l"
    by simp_all
qed

lemma loop_step_inv: "loop_step body l l' \<Longrightarrow> loop_inv l \<Longrightarrow> loop_inv l'"
proof (induction rule: loop_step.induct)
  case (handle l a acts)
  let ?l = "l\<lparr>loop_pc := Handling acts\<rparr>"
  have inv: "loop_inv ?l" using handle by (auto simp: loop_inv_def)
  show ?case
  proof (cases a)
    case (UserCallback fs)
    with queueInLoop_inv(1) [OF inv, of fs] show ?thesis by simp
  qed (use inv in \<open>auto simp: loop_inv_def loop_handleRead_def quit_def\<close>)
next
  case (call l f fs)
  let ?l = "l\<lparr>ranLog := ranLog l @ [f], loop_pc := Calling fs\<rparr>"
  have "loop_inv ?l" using call by (auto simp: loop_inv_def)
  moreover have "callingPendingFunctors ?l" using call by (auto simp: loop_inv_def)
  ultimately show ?case unfolding callFunctor_def by (intro queueInLoop_inv(1)) simp_all
qed (auto simp: loop_inv_def takePending_def push_functor_def wakeup_def quit_def Let_def)

section \<open>The loop refines a sequential executor\<close>

text \<open>
  The specification of the loop as its users see it: a list of functors already run and a queue.
  Anybody may put a functor at the end of the queue; the first one runs, and what it queues goes to
  the end. There are no threads, no wake-ups and no second list.
\<close>

inductive exec_step :: "('f \<Rightarrow> 'f list) \<Rightarrow> 'f list \<times> 'f list \<Rightarrow> 'f list \<times> 'f list \<Rightarrow> bool" for body where
  submit: "exec_step body (d, q) (d, q @ [f])"
| run: "exec_step body (d, f # q) (d @ [f], q @ body f)"

definition exec_abs :: "'f EventLoop \<Rightarrow> 'f list \<times> 'f list" where
  "exec_abs l = (ranLog l, taken (loop_pc l) @ pendingFunctors l)"

lemma exec_submits: "(exec_step body)\<^sup>*\<^sup>* (d, q) (d, q @ fs)"
proof (induction fs arbitrary: q)
  case (Cons f fs)
  from Cons [of "q @ [f]"] exec_step.submit [of body d q f] show ?case by (simp add: converse_rtranclp_into_rtranclp)
qed simp

lemma exec_abs_queue: "exec_abs (fold (queueInLoop b) fs l) = (fst (exec_abs l), snd (exec_abs l) @ fs)"
  by (induction fs arbitrary: l) (simp_all add: exec_abs_def)

lemma loop_step_exec: "loop_step body l l' \<Longrightarrow> loop_inv l \<Longrightarrow> (exec_step body)\<^sup>*\<^sup>* (exec_abs l) (exec_abs l')"
proof (induction rule: loop_step.induct)
  case (handle l a acts)
  show ?case
  proof (cases a)
    case (UserCallback fs)
    then show ?thesis
      using exec_submits [of body "ranLog l" "taken (loop_pc l) @ pendingFunctors l" fs] handle(1)
      by (simp add: exec_abs_queue) (simp add: exec_abs_def)
  qed (use handle(1) in \<open>simp_all add: exec_abs_def loop_handleRead_def quit_def\<close>)
next
  case (call l f fs)
  then have "exec_abs l = (ranLog l, f # fs @ pendingFunctors l)" by (simp add: exec_abs_def)
  moreover have "exec_abs (callFunctor body f fs l) = (ranLog l @ [f], (fs @ pendingFunctors l) @ body f)"
    unfolding callFunctor_def exec_abs_queue by (simp add: exec_abs_def)
  ultimately show ?case using exec_step.run [of body "ranLog l" f "fs @ pendingFunctors l"] by (simp add: r_into_rtranclp)
next
  case (other_push l cb)
  then show ?case
    using exec_step.submit [of body "ranLog l" "taken (loop_pc l) @ pendingFunctors l" cb]
    by (simp add: exec_abs_def push_functor_def r_into_rtranclp)
qed (simp_all add: exec_abs_def takePending_def wakeup_def quit_def Let_def)

interpretation loop_exec: forward_simulation "\<lambda>l. l = loop_start" "loop_step body" loop_inv exec_abs "exec_step body" for body
proof unfold_locales
  show "loop_inv l" if "l = loop_start" for l :: "'a EventLoop" using that by (simp add: loop_inv_def loop_start_def)
qed (auto intro: loop_step_inv loop_step_exec)

lemma loop_reach_run: "loop_reach body l \<Longrightarrow> (loop_step body)\<^sup>*\<^sup>* loop_start l"
  by (induction rule: loop_reach.induct) auto

lemma loop_reach_inv: "loop_reach body l \<Longrightarrow> loop_inv l"
  using loop_exec.reachable_inv [OF refl loop_reach_run] .

lemma exec_steps_order:
  "(exec_step body)\<^sup>*\<^sup>* s s' \<Longrightarrow> prefix (fst s) (fst s') \<and> prefix (fst s @ snd s) (fst s' @ snd s')"
proof (induction rule: rtranclp_induct)
  case (step y z)
  from step(2) have "prefix (fst y) (fst z) \<and> prefix (fst y @ snd y) (fst z @ snd z)" by cases auto
  with step(3) show ?case by (meson prefix_order.trans)
qed simp

text \<open>A functor with \<open>xs\<close> before it in the queue runs exactly after them.\<close>

lemma exec_turn:
  assumes "(exec_step body)\<^sup>*\<^sup>* (d, xs @ f # ys) (d', q')" "length d + length xs < length d'"
  shows "prefix (d @ xs @ [f]) d'"
proof -
  have "prefix (d @ xs @ f # ys) (d' @ q')" using exec_steps_order [OF assms(1)] by simp
  moreover have "prefix d' (d' @ q')" by simp
  ultimately have "prefix (d @ xs @ f # ys) d' \<or> prefix d' (d @ xs @ f # ys)" by (rule prefix_same_cases)
  moreover have "prefix (d @ xs @ [f]) (d @ xs @ f # ys)" by simp
  ultimately have "prefix (d @ xs @ [f]) d' \<or> prefix d' (d @ xs @ [f])"
    by (meson prefix_order.trans prefix_same_cases)
  then show ?thesis
  proof
    assume "prefix d' (d @ xs @ [f])"
    then obtain zs where zs: "d @ xs @ [f] = d' @ zs" by (auto simp: prefix_def)
    then have "length d + length xs + 1 = length d' + length zs" by (metis add.assoc length_append length_Cons list.size(3) One_nat_def)
    then have "length zs = 0" using assms(2) by linarith
    with zs show ?thesis by simp
  qed
qed

text \<open>
  C19: No functor is lost, duplicated or reordered, and none waits for a timeout. However the loop
  thread and the other threads interleave, the functors queued so far are exactly those already
  run, followed by those taken and not yet run, followed by those in the queue; and when the loop
  is about to wait while functors are queued, the wake-up descriptor is readable, or a thread that
  has just queued one is about to make it so.
\<close>

theorem functors_run_in_order:
  assumes "loop_reach body l"
  shows "queuedLog l = ranLog l @ taken (loop_pc l) @ pendingFunctors l \<and>
    \<not> (loop_pc l = AtPoll \<and> pendingFunctors l \<noteq> [] \<and> wakeupFd l = 0 \<and> waking l = 0)"
  using loop_reach_inv [OF assms] by (auto simp: loop_inv_def)

text \<open>Another thread queues a functor; the loop wakes, runs it, and it queues a second one.\<close>

definition sample_body :: "nat \<Rightarrow> nat list" where
  "sample_body f = (if f = 1 then [2] else [])"

lemma sample_loop_reach:
  "\<exists>l. loop_reach sample_body l \<and> loop_pc l = AtPoll \<and> pendingFunctors l = [2] \<and> ranLog l = [1] \<and> wakeupFd l = 1"
proof -
  define l1 where "l1 = (push_functor (1 :: nat) loop_start)\<lparr>waking := 1\<rparr>"
  define l2 where "l2 = (wakeup l1)\<lparr>waking := 0\<rparr>"
  define l3 where "l3 = l2\<lparr>loop_pc := Handling [WakeupEvent], eventHandling := True\<rparr>"
  define l4 where "l4 = loop_handleRead (l3\<lparr>loop_pc := Handling []\<rparr>)"
  define l5 where "l5 = l4\<lparr>loop_pc := AtPending, eventHandling := False\<rparr>"
  define l6 where "l6 = takePending l5"
  define l7 where "l7 = callFunctor sample_body 1 [] l6"
  define l8 where "l8 = l7\<lparr>callingPendingFunctors := False, loop_pc := AtPoll\<rparr>"
  note defs = l1_def l2_def l3_def l4_def l5_def l6_def l7_def l8_def loop_start_def push_functor_def
    wakeup_def loop_handleRead_def takePending_def callFunctor_def sample_body_def queueInLoop_def
  have "loop_reach sample_body l1"
    using loop_reach.step [OF loop_reach.start loop_step.other_push, of sample_body 1]
    by (simp add: l1_def loop_start_def)
  then have "loop_reach sample_body l2"
    using loop_reach.step [OF _ loop_step.other_wake, of sample_body l1] by (simp add: l2_def l1_def)
  then have "loop_reach sample_body l3"
    using loop_reach.step [OF _ loop_step.poll, of sample_body l2 "[WakeupEvent]"] by (simp add: defs)
  then have "loop_reach sample_body l4"
    using loop_reach.step [OF _ loop_step.handle, of sample_body l3 WakeupEvent "[]"] by (simp add: l4_def l3_def)
  then have "loop_reach sample_body l5"
    using loop_reach.step [OF _ loop_step.handled, of sample_body l4] by (simp add: l5_def l4_def loop_handleRead_def)
  then have "loop_reach sample_body l6"
    using loop_reach.step [OF _ loop_step.take_pending, of sample_body l5] by (simp add: l6_def l5_def)
  then have "loop_reach sample_body l7"
    using loop_reach.step [OF _ loop_step.call, of sample_body l6 1 "[]"] by (simp add: defs)
  then have "loop_reach sample_body l8"
    using loop_reach.step [OF _ loop_step.called, of sample_body l7] by (simp add: defs)
  then show ?thesis by (intro exI [of _ l8]) (simp add: defs)
qed

theorem functors_run_in_order_witness:
  "\<exists>l. loop_reach sample_body l \<and> ranLog l = [1] \<and>
     queuedLog l = ranLog l @ taken (loop_pc l) @ pendingFunctors l \<and> queuedLog l = [1, 2]"
proof -
  obtain l where l: "loop_reach sample_body l" "loop_pc l = AtPoll" "pendingFunctors l = [2]" "ranLog l = [1]"
    using sample_loop_reach by blast
  with functors_run_in_order [OF l(1)] show ?thesis by (intro exI [of _ l]) simp
qed

text \<open>
  C12: The loop refines a sequential executor. Whatever the threads do, what has been run and what
  waits in a reachable state of the loop is what a machine with one queue and no threads can reach;
  and from then on a functor that waits behind others runs right after exactly those, whatever is
  queued later and by whom: once more functors have run than were ahead of it, it is the next one
  in the order of the calls.
\<close>

theorem loop_refines_executor:
  assumes "loop_reach body l"
  shows "(exec_step body)\<^sup>*\<^sup>* ([], []) (ranLog l, taken (loop_pc l) @ pendingFunctors l) \<and>
    (\<forall>l' xs f ys. (loop_step body)\<^sup>*\<^sup>* l l' \<and> taken (loop_pc l) @ pendingFunctors l = xs @ f # ys \<and>
       length (ranLog l) + length xs < length (ranLog l') \<longrightarrow> prefix (ranLog l @ xs @ [f]) (ranLog l'))"
proof -
  have inv: "loop_inv l" by (rule loop_reach_inv [OF assms])
  have "(exec_step body)\<^sup>*\<^sup>* ([], []) (exec_abs l)"
    using loop_exec.reachable_abs [OF refl loop_reach_run [OF assms]] by (simp add: exec_abs_def loop_start_def)
  moreover have "prefix (ranLog l @ xs @ [f]) (ranLog l')"
    if "(loop_step body)\<^sup>*\<^sup>* l l'" "taken (loop_pc l) @ pendingFunctors l = xs @ f # ys"
      "length (ranLog l) + length xs < length (ranLog l')" for l' xs f ys
    using exec_turn loop_exec.steps_abs [OF that(1) inv] that(2,3) unfolding exec_abs_def by metis
  ultimately show ?thesis unfolding exec_abs_def by blast
qed

theorem loop_refines_executor_witness:
  "\<exists>l. loop_reach sample_body l \<and> (exec_step sample_body)\<^sup>*\<^sup>* ([], []) ([1], [2]) \<and>
     \<not> (\<exists>l'. (loop_step sample_body)\<^sup>*\<^sup>* l l' \<and> 1 < length (ranLog l') \<and> \<not> prefix [1, 2] (ranLog l'))"
proof -
  obtain l where l: "loop_reach sample_body l" "loop_pc l = AtPoll" "pendingFunctors l = [2]" "ranLog l = [1]"
    using sample_loop_reach by blast
  note r = loop_refines_executor [OF l(1)]
  have "(exec_step sample_body)\<^sup>*\<^sup>* ([], []) ([1], [2])" using r [THEN conjunct1] l by simp
  moreover have "prefix [1, 2] (ranLog l')" if "(loop_step sample_body)\<^sup>*\<^sup>* l l'" "1 < length (ranLog l')" for l'
    using r [THEN conjunct2, rule_format, of l' "[]" 2 "[]"] that l by simp
  ultimately show ?thesis using l(1) by blast
qed

text \<open>
  The loop can not be stopped: \<open>quit\<close> sets the flag to false, so that in no reachable state,
  whoever calls \<open>quit\<close> and however often, the loop has left its body or is about to.
\<close>

theorem loop_never_quits:
  assumes "loop_reach body l"
  shows "loop_pc l \<noteq> Stopped \<and> \<not> loop_step body l (l\<lparr>loop_pc := Stopped\<rparr>)"
proof -
  have inv: "loop_inv l" using loop_reach_inv [OF assms] .
  then have "\<not> loop_inv (l\<lparr>loop_pc := Stopped\<rparr>)" by (simp add: loop_inv_def)
  with loop_step_inv [of body l "l\<lparr>loop_pc := Stopped\<rparr>"] inv show ?thesis by (auto simp: loop_inv_def)
qed

theorem loop_never_quits_witness:
  "loop_pc (quit False (loop_start :: nat EventLoop)) \<noteq> Stopped \<and>
   \<not> loop_step sample_body (quit False loop_start) ((quit False loop_start)\<lparr>loop_pc := Stopped\<rparr>)"
  by (rule loop_never_quits) (rule loop_reach.step [OF loop_reach.start loop_step.other_quit])

end
