(* ===== verification/EventLoopThread.thy ===== *)
theory EventLoopThread
  imports EventLoop
begin

text \<open>
  Starting and stopping the thread of a loop (\<open>src/net/CountDownLatch.cc\<close>, \<open>Thread.cc\<close>,
  \<open>EventLoopThread.cc\<close>).

  Two threads are involved: the one that calls \<open>startLoop\<close> and later the destructor, and the one
  that \<open>std::thread\<close> creates. Each is at one of the places of its own datatype. A critical section
  is one step; a thread that waits on a condition variable is at a blocked place, which it leaves
  when it is notified, or for no reason (a spurious wake-up), and then looks at the condition again.
  The address of the loop on the new thread's stack and the id of the thread are parameters, and
  \<open>initialised\<close> is a history variable: the loops the init callback has been called with.
\<close>

section \<open>The latch\<close>

text \<open>\<open>waiting\<close> holds the threads blocked in the condition variable.\<close>

record CountDownLatch =
  count :: int
  waiting :: "nat list"

definition newCountDownLatch :: "int \<Rightarrow> CountDownLatch" where
  "newCountDownLatch n = \<lparr>count = n, waiting = []\<rparr>"

text \<open>One round of the loop in \<open>wait\<close>: whether it ends, and the latch.\<close>

definition latch_wait :: "nat \<Rightarrow> CountDownLatch \<Rightarrow> bool \<times> CountDownLatch" where
  "latch_wait t l = (if count l > 0 then (False, l\<lparr>waiting := t # waiting l\<rparr>) else (True, l))"

definition countDown :: "CountDownLatch \<Rightarrow> CountDownLatch" where
  "countDown l =
     (let l = l\<lparr>count := count l - 1\<rparr> in if count l = 0 then l\<lparr>waiting := []\<rparr> else l)"

definition getCount :: "CountDownLatch \<Rightarrow> int" where
  "getCount l = count l"

section \<open>The thread\<close>

record Thread =
  thr_start :: bool
  thr_joined :: bool
  thr_detached :: bool
  thr_tid :: nat
  thr_name :: string
  latch :: CountDownLatch

definition setDefaultName :: "nat \<Rightarrow> Thread \<Rightarrow> Thread" where
  "setDefaultName num t = (if thr_name t = [] then t\<lparr>thr_name := ''Thread'' @ to_string num\<rparr> else t)"

text \<open>\<open>num\<close> is the number of threads created, this one included.\<close>

definition newThread :: "string \<Rightarrow> nat \<Rightarrow> Thread" where
  "newThread nm num =
     setDefaultName num \<lparr>thr_start = False, thr_joined = False, thr_detached = False, thr_tid = 0, thr_name = nm, latch = newCountDownLatch 1\<rparr>"

definition thread_join :: "Thread \<Rightarrow> Thread" where
  "thread_join t = t\<lparr>thr_joined := True\<rparr>"

definition destroyThread :: "Thread \<Rightarrow> Thread" where
  "destroyThread t = (if thr_start t \<and> \<not> thr_joined t then t\<lparr>thr_detached := True\<rparr> else t)"

text \<open>\<open>CurrentThread::tid\<close>: the id that \<open>gettid\<close> gives, cached in a variable of the thread.\<close>

definition cacheTid :: "nat \<Rightarrow> nat \<Rightarrow> nat" where
  "cacheTid gettid t_cachedTid = (if t_cachedTid = 0 then gettid else t_cachedTid)"

definition currentTid :: "nat \<Rightarrow> nat \<Rightarrow> nat \<times> nat" where
  "currentTid gettid t_cachedTid =
     (let t_cachedTid = (if t_cachedTid = 0 then cacheTid gettid t_cachedTid else t_cachedTid) in (t_cachedTid, t_cachedTid))"

section \<open>The loop thread\<close>

datatype CallerPc =
    CallStart | AtLatch | LatchBlocked | AtLoop | LoopBlocked | Returned "nat option"
  | Destroying | Joining | Destroyed

datatype ChildPc =
    NotCreated | SetTid | CountDown | Construct | InitCallback | Publish | Looping | Clear | Finished

record 'f EventLoopThread =
  loop_ptr :: "nat option"
  exiting :: bool
  thread :: Thread
  cond_waiting :: bool
  caller :: CallerPc
  child :: ChildPc
  child_loop :: "'f EventLoop"
  initialised :: "nat list"

definition newEventLoopThread :: "string \<Rightarrow> nat \<Rightarrow> 'f EventLoopThread" where
  "newEventLoopThread nm num =
     \<lparr>loop_ptr = None, exiting = False, thread = newThread nm num, cond_waiting = False, caller = CallStart,
      child = NotCreated, child_loop = loop_start, initialised = []\<rparr>"

abbreviation callerId :: nat where "callerId \<equiv> 0"

text \<open>\<open>Thread::start\<close> up to the creation of the thread.\<close>

definition thread_start :: "'f EventLoopThread \<Rightarrow> 'f EventLoopThread" where
  "thread_start s = s\<lparr>thread := (thread s)\<lparr>thr_start := True\<rparr>, child := SetTid, caller := AtLatch\<rparr>"

text \<open>A round of \<open>latch_.wait()\<close> in the caller.\<close>

definition caller_latch :: "'f EventLoopThread \<Rightarrow> 'f EventLoopThread" where
  "caller_latch s =
     (let (done, l) = latch_wait callerId (latch (thread s)); s = s\<lparr>thread := (thread s)\<lparr>latch := l\<rparr>\<rparr>
      in if done then s\<lparr>caller := AtLoop\<rparr> else s\<lparr>caller := LatchBlocked\<rparr>)"

text \<open>A round of \<open>cond_.wait\<close> with its predicate in \<open>startLoop\<close>, and the read of \<open>loop_\<close> under the lock.\<close>

definition caller_cond :: "'f EventLoopThread \<Rightarrow> 'f EventLoopThread" where
  "caller_cond s =
     (if loop_ptr s \<noteq> None then s\<lparr>caller := Returned (loop_ptr s)\<rparr>
      else s\<lparr>caller := LoopBlocked, cond_waiting := True\<rparr>)"

text \<open>The lambda of \<open>Thread::start\<close>; notifying the latch makes its waiter look again.\<close>

definition child_tid :: "nat \<Rightarrow> 'f EventLoopThread \<Rightarrow> 'f EventLoopThread" where
  "child_tid tid s = s\<lparr>thread := (thread s)\<lparr>thr_tid := fst (currentTid tid 0)\<rparr>, child := CountDown\<rparr>"

definition child_countDown :: "'f EventLoopThread \<Rightarrow> 'f EventLoopThread" where
  "child_countDown s =
     (let l = latch (thread s); l' = countDown l;
          s = s\<lparr>thread := (thread s)\<lparr>latch := l'\<rparr>, child := Construct\<rparr>
      in if callerId \<in> set (waiting l) \<and> callerId \<notin> set (waiting l') then s\<lparr>caller := AtLatch\<rparr> else s)"

text \<open>\<open>EventLoopThread::threadFunc\<close>.\<close>

definition child_construct :: "'f EventLoopThread \<Rightarrow> 'f EventLoopThread" where
  "child_construct s = s\<lparr>child_loop := loop_start, child := InitCallback\<rparr>"

definition child_init :: "bool \<Rightarrow> nat \<Rightarrow> 'f EventLoopThread \<Rightarrow> 'f EventLoopThread" where
  "child_init has_callback addr s =
     (let s = s\<lparr>child := Publish\<rparr> in if has_callback then s\<lparr>initialised := initialised s @ [addr]\<rparr> else s)"

definition child_publish :: "nat \<Rightarrow> 'f EventLoopThread \<Rightarrow> 'f EventLoopThread" where
  "child_publish addr s =
     (let s = s\<lparr>loop_ptr := Some addr, child := Looping\<rparr>
      in if cond_waiting s then s\<lparr>cond_waiting := False, caller := AtLoop\<rparr> else s)"

definition child_clear :: "'f EventLoopThread \<Rightarrow> 'f EventLoopThread" where
  "child_clear s = s\<lparr>loop_ptr := None, child := Finished\<rparr>"

text \<open>
  The destructor up to \<open>thread_.join()\<close>, which returns when the thread has finished; then the members
  are destroyed.
\<close>

definition destroy_start :: "'f EventLoopThread \<Rightarrow> 'f EventLoopThread" where
  "destroy_start s =
     (let s = s\<lparr>exiting := True\<rparr>
      in if loop_ptr s \<noteq> None
         then s\<lparr>child_loop := quit False (child_loop s), thread := thread_join (thread s), caller := Joining\<rparr>
         else s\<lparr>thread := destroyThread (thread s), caller := Destroyed\<rparr>)"

inductive start_step :: "bool \<Rightarrow> nat \<Rightarrow> nat \<Rightarrow> 'f EventLoopThread \<Rightarrow> 'f EventLoopThread \<Rightarrow> bool" for has_callback addr tid where
  create: "caller s = CallStart \<Longrightarrow> start_step has_callback addr tid s (thread_start s)"
| look_latch: "caller s = AtLatch \<Longrightarrow> start_step has_callback addr tid s (caller_latch s)"
| look_loop: "caller s = AtLoop \<Longrightarrow> start_step has_callback addr tid s (caller_cond s)"
| set_tid: "child s = SetTid \<Longrightarrow> start_step has_callback addr tid s (child_tid tid s)"
| count_down: "child s = CountDown \<Longrightarrow> start_step has_callback addr tid s (child_countDown s)"
| construct: "child s = Construct \<Longrightarrow> start_step has_callback addr tid s (child_construct s)"
| init: "child s = InitCallback \<Longrightarrow> start_step has_callback addr tid s (child_init has_callback addr s)"
| publish: "child s = Publish \<Longrightarrow> start_step has_callback addr tid s (child_publish addr s)"

inductive thread_step ::
  "('f \<Rightarrow> 'f list) \<Rightarrow> bool \<Rightarrow> nat \<Rightarrow> nat \<Rightarrow> 'f EventLoopThread \<Rightarrow> 'f EventLoopThread \<Rightarrow> bool" for body has_callback addr tid where
  start: "start_step has_callback addr tid s s' \<Longrightarrow> thread_step body has_callback addr tid s s'"
| spurious_latch: "caller s = LatchBlocked \<Longrightarrow> thread_step body has_callback addr tid s
    (s\<lparr>thread := (thread s)\<lparr>latch := (latch (thread s))\<lparr>waiting := []\<rparr>\<rparr>, caller := AtLatch\<rparr>)"
| spurious_loop: "caller s = LoopBlocked \<Longrightarrow>
    thread_step body has_callback addr tid s (s\<lparr>cond_waiting := False, caller := AtLoop\<rparr>)"
| loop: "child s = Looping \<Longrightarrow> loop_step body (child_loop s) l \<Longrightarrow> thread_step body has_callback addr tid s (s\<lparr>child_loop := l\<rparr>)"
| loop_ends: "child s = Looping \<Longrightarrow> loop_pc (child_loop s) = Stopped \<Longrightarrow>
    thread_step body has_callback addr tid s (s\<lparr>child := Clear\<rparr>)"
| clear: "child s = Clear \<Longrightarrow> thread_step body has_callback addr tid s (child_clear s)"
| destroy: "caller s = Returned r \<Longrightarrow> thread_step body has_callback addr tid s (s\<lparr>caller := Destroying\<rparr>)"
| destroying: "caller s = Destroying \<Longrightarrow> thread_step body has_callback addr tid s (destroy_start s)"
| join: "caller s = Joining \<Longrightarrow> child s = Finished \<Longrightarrow>
    thread_step body has_callback addr tid s (s\<lparr>thread := destroyThread (thread s), caller := Destroyed\<rparr>)"

inductive thread_reach ::
  "('f \<Rightarrow> 'f list) \<Rightarrow> bool \<Rightarrow> nat \<Rightarrow> nat \<Rightarrow> 'f EventLoopThread \<Rightarrow> bool" for body has_callback addr tid where
  new: "thread_reach body has_callback addr tid (newEventLoopThread nm num)"
| step: "thread_reach body has_callback addr tid s \<Longrightarrow> thread_step body has_callback addr tid s s' \<Longrightarrow>
    thread_reach body has_callback addr tid s'"

section \<open>The handshake\<close>

definition before_return :: "CallerPc \<Rightarrow> bool" where
  "before_return pc \<longleftrightarrow> pc \<in> {CallStart, AtLatch, LatchBlocked, AtLoop, LoopBlocked}"

definition thread_inv :: "bool \<Rightarrow> nat \<Rightarrow> nat \<Rightarrow> 'f EventLoopThread \<Rightarrow> bool" where
  "thread_inv has_callback addr tid s \<longleftrightarrow>
     loop_inv (child_loop s) \<and>
     child s \<notin> {Clear, Finished} \<and>
     loop_ptr s = (if child s = Looping then Some addr else None) \<and>
     count (latch (thread s)) = (if child s \<in> {NotCreated, SetTid, CountDown} then 1 else 0) \<and>
     waiting (latch (thread s)) = (if caller s = LatchBlocked then [callerId] else []) \<and>
     (child s \<notin> {NotCreated, SetTid} \<longrightarrow> thr_tid (thread s) = tid) \<and>
     initialised s = (if child s \<in> {Publish, Looping} \<and> has_callback then [addr] else []) \<and>
     (caller s = CallStart \<longleftrightarrow> child s = NotCreated) \<and>
     (cond_waiting s \<longleftrightarrow> caller s = LoopBlocked) \<and>
     (caller s = LatchBlocked \<longrightarrow> child s \<in> {SetTid, CountDown}) \<and>
     (caller s = LoopBlocked \<longrightarrow> child s \<noteq> Looping) \<and>
     (\<not> before_return (caller s) \<longrightarrow> child s = Looping) \<and>
     (\<forall>r. caller s = Returned r \<longrightarrow> r = Some addr) \<and>
     caller s \<noteq> Destroyed"

lemma newEventLoopThread_inv: "thread_inv has_callback addr tid (newEventLoopThread nm num)"
  by (simp add: thread_inv_def newEventLoopThread_def newThread_def setDefaultName_def newCountDownLatch_def
      before_return_def loop_inv_def loop_start_def)

lemma quit_inv: "loop_inv l \<Longrightarrow> loop_inv (quit b l)"
  by (auto simp: loop_inv_def quit_def wakeup_def Let_def)

lemma start_step_inv:
  assumes "thread_inv has_callback addr tid s" "start_step has_callback addr tid s s'"
  shows "thread_inv has_callback addr tid s'"
  using assms(2,1)
proof cases
  case create
  with assms(1) show ?thesis by (simp add: thread_inv_def thread_start_def before_return_def)
next
  case look_latch
  with assms(1) show ?thesis
    by (auto simp: thread_inv_def caller_latch_def latch_wait_def before_return_def)
next
  case look_loop
  with assms(1) show ?thesis by (auto simp: thread_inv_def caller_cond_def before_return_def)
next
  case set_tid
  with assms(1) show ?thesis by (auto simp: thread_inv_def child_tid_def currentTid_def cacheTid_def before_return_def)
next
  case count_down
  with assms(1) show ?thesis
    by (auto simp: thread_inv_def child_countDown_def countDown_def before_return_def Let_def)
next
  case construct
  with assms(1) show ?thesis
    by (auto simp: thread_inv_def child_construct_def before_return_def loop_inv_def loop_start_def)
next
  case init
  with assms(1) show ?thesis by (auto simp: thread_inv_def child_init_def before_return_def Let_def)
next
  case publish
  with assms(1) show ?thesis by (auto simp: thread_inv_def child_publish_def before_return_def Let_def)
qed

lemma thread_step_inv:
  assumes "thread_inv has_callback addr tid s" "thread_step body has_callback addr tid s s'"
  shows "thread_inv has_callback addr tid s'"
  using assms(2,1)
proof cases
  case start
  with assms(1) show ?thesis by (simp add: start_step_inv)
next
  case spurious_latch
  with assms(1) show ?thesis by (auto simp: thread_inv_def before_return_def)
next
  case spurious_loop
  with assms(1) show ?thesis by (auto simp: thread_inv_def before_return_def)
next
  case (loop l)
  then have "loop_inv l" using assms(1) loop_step_inv [of body "child_loop s" l] by (simp add: thread_inv_def)
  with assms(1) loop show ?thesis by (simp add: thread_inv_def)
next
  case loop_ends
  with assms(1) show ?thesis by (simp add: thread_inv_def loop_inv_def)
next
  case clear
  with assms(1) show ?thesis by (simp add: thread_inv_def)
next
  case (destroy r)
  with assms(1) show ?thesis by (auto simp: thread_inv_def before_return_def)
next
  case destroying
  with assms(1) quit_inv show ?thesis by (auto simp: thread_inv_def destroy_start_def thread_join_def before_return_def)
next
  case join
  with assms(1) show ?thesis by (simp add: thread_inv_def)
qed

lemma thread_reach_inv: "thread_reach body has_callback addr tid s \<Longrightarrow> thread_inv has_callback addr tid s"
  by (induction rule: thread_reach.induct) (auto intro: newEventLoopThread_inv thread_step_inv)

text \<open>How far the two threads are from the return of \<open>startLoop\<close>.\<close>

fun child_rank :: "ChildPc \<Rightarrow> nat" where
  "child_rank NotCreated = 6"
| "child_rank SetTid = 5"
| "child_rank CountDown = 4"
| "child_rank Construct = 3"
| "child_rank InitCallback = 2"
| "child_rank Publish = 1"
| "child_rank pc = 0"

fun caller_rank :: "CallerPc \<Rightarrow> nat" where
  "caller_rank CallStart = 6"
| "caller_rank AtLatch = 5"
| "caller_rank LatchBlocked = 4"
| "caller_rank AtLoop = 3"
| "caller_rank LoopBlocked = 2"
| "caller_rank pc = 0"

definition distance :: "'f EventLoopThread \<Rightarrow> nat" where
  "distance s = 3 * child_rank (child s) + caller_rank (caller s)"

lemma start_step_distance:
  assumes "thread_inv has_callback addr tid s" "start_step has_callback addr tid s s'"
  shows "distance s' < distance s"
  using assms(2)
proof cases
  case create
  with assms(1) show ?thesis by (simp add: thread_inv_def distance_def thread_start_def)
next
  case count_down
  with assms(1) show ?thesis
    by (auto simp: thread_inv_def distance_def child_countDown_def countDown_def Let_def split: if_splits)
next
  case publish
  with assms(1) show ?thesis by (auto simp: thread_inv_def distance_def child_publish_def Let_def)
qed (auto simp: distance_def caller_latch_def latch_wait_def caller_cond_def child_tid_def child_construct_def
    child_init_def Let_def)

interpretation starting: decreasing_steps "start_step has_callback addr tid" "thread_inv has_callback addr tid" distance
  for has_callback addr tid
  by unfold_locales (blast intro: start_step_inv, blast intro: start_step_distance)

lemma start_step_enabled:
  assumes "thread_inv has_callback addr tid s" "before_return (caller s)"
  shows "\<exists>s'. start_step has_callback addr tid s s'"
proof (cases "child s")
  case NotCreated
  with assms have "caller s = CallStart" by (simp add: thread_inv_def)
  then show ?thesis by (blast intro: start_step.create)
next
  case Looping
  with assms have "caller s = AtLatch \<or> caller s = AtLoop" by (auto simp: thread_inv_def before_return_def)
  then show ?thesis by (blast intro: start_step.look_latch start_step.look_loop)
qed (use assms in \<open>auto simp: thread_inv_def intro: start_step.intros\<close>)

text \<open>A run in which the caller blocks on the latch and then on the condition, and later calls the destructor.\<close>

abbreviation sample_thread_reach :: "nat EventLoopThread \<Rightarrow> bool" where
  "sample_thread_reach \<equiv> thread_reach sample_body True 7 5"

lemmas sample_steps = thread_reach.step [OF _ thread_step.start, of sample_body True 7 5]

lemmas thread_ops = newEventLoopThread_def newThread_def setDefaultName_def newCountDownLatch_def thread_start_def
  caller_latch_def latch_wait_def child_tid_def child_countDown_def countDown_def caller_cond_def child_construct_def
  child_init_def child_publish_def destroy_start_def

lemma sample_thread_returns: "\<exists>s. sample_thread_reach s \<and> caller s = Returned (Some 7)"
proof -
  define s0 :: "nat EventLoopThread" where "s0 = newEventLoopThread ''io'' 1"
  define s1 where "s1 = thread_start s0"
  define s2 where "s2 = caller_latch s1"
  define s3 where "s3 = child_tid 5 s2"
  define s4 where "s4 = child_countDown s3"
  define s5 where "s5 = caller_latch s4"
  define s6 where "s6 = caller_cond s5"
  define s7 where "s7 = child_construct s6"
  define s8 where "s8 = child_init True 7 s7"
  define s9 where "s9 = child_publish 7 s8"
  define s10 where "s10 = caller_cond s9"
  note defs = s0_def s1_def s2_def s3_def s4_def s5_def s6_def s7_def s8_def s9_def s10_def thread_ops
  have "sample_thread_reach s0" unfolding s0_def by (rule thread_reach.new)
  then have "sample_thread_reach s1" unfolding s1_def
    by (rule sample_steps) (rule start_step.create, simp add: defs)
  then have "sample_thread_reach s2" unfolding s2_def
    by (rule sample_steps) (rule start_step.look_latch, simp add: defs)
  then have "sample_thread_reach s3" unfolding s3_def
    by (rule sample_steps) (rule start_step.set_tid, simp add: defs)
  then have "sample_thread_reach s4" unfolding s4_def
    by (rule sample_steps) (rule start_step.count_down, simp add: defs)
  then have "sample_thread_reach s5" unfolding s5_def
    by (rule sample_steps) (rule start_step.look_latch, simp add: defs)
  then have "sample_thread_reach s6" unfolding s6_def
    by (rule sample_steps) (rule start_step.look_loop, simp add: defs)
  then have "sample_thread_reach s7" unfolding s7_def
    by (rule sample_steps) (rule start_step.construct, simp add: defs)
  then have "sample_thread_reach s8" unfolding s8_def
    by (rule sample_steps) (rule start_step.init, simp add: defs)
  then have "sample_thread_reach s9" unfolding s9_def
    by (rule sample_steps) (rule start_step.publish, simp add: defs)
  then have "sample_thread_reach s10" unfolding s10_def
    by (rule sample_steps) (rule start_step.look_loop, simp add: defs)
  moreover have "caller s10 = Returned (Some 7)" by (simp add: defs)
  ultimately show ?thesis by blast
qed

lemma sample_thread_joins: "\<exists>s. sample_thread_reach s \<and> caller s = Joining"
proof -
  obtain s where s: "sample_thread_reach s" "caller s = Returned (Some 7)" using sample_thread_returns by blast
  define s1 where "s1 = s\<lparr>caller := Destroying\<rparr>"
  have r: "sample_thread_reach s1" unfolding s1_def by (rule thread_reach.step [OF s(1) thread_step.destroy [OF s(2)]])
  have "sample_thread_reach (destroy_start s1)"
    by (rule thread_reach.step [OF r thread_step.destroying]) (simp add: s1_def)
  moreover have "loop_ptr s1 \<noteq> None"
    using thread_reach_inv [OF r] by (auto simp: thread_inv_def s1_def before_return_def)
  then have "caller (destroy_start s1) = Joining" by (auto simp: destroy_start_def Let_def)
  ultimately show ?thesis by blast
qed

text \<open>
  C27: \<open>startLoop\<close> returns the new loop. However the caller and the new thread interleave, and with
  spurious wake-ups at any time, \<open>startLoop\<close> returns only the address of the loop of the new
  thread, when the thread's id is known and the init callback has been called with that loop, and
  that loop is running; and it does return: until then one of the two threads can go on, and apart
  from spurious wake-ups they can do so only a bounded number of times.
\<close>

theorem startLoop_returns:
  assumes "thread_reach body has_callback addr tid s"
  shows "(\<forall>r. caller s = Returned r \<longrightarrow> r = Some addr \<and> thr_tid (thread s) = tid \<and>
      (has_callback \<longrightarrow> initialised s = [addr]) \<and> child s = Looping) \<and>
    (before_return (caller s) \<longrightarrow> (\<exists>s'. start_step has_callback addr tid s s')) \<and>
    (\<exists>N. \<forall>n s'. (start_step has_callback addr tid ^^ n) s s' \<longrightarrow> n \<le> N)"
proof -
  have inv: "thread_inv has_callback addr tid s" by (rule thread_reach_inv [OF assms])
  have "r = Some addr \<and> thr_tid (thread s) = tid \<and> (has_callback \<longrightarrow> initialised s = [addr]) \<and> child s = Looping"
    if "caller s = Returned r" for r
    using inv that by (auto simp: thread_inv_def before_return_def)
  moreover have "\<forall>n s'. (start_step has_callback addr tid ^^ n) s s' \<longrightarrow> n \<le> distance s"
    using starting.run_bounded [OF inv] by blast
  ultimately show ?thesis using start_step_enabled [OF inv] by blast
qed

theorem startLoop_returns_witness:
  "\<exists>s. sample_thread_reach s \<and> caller s = Returned (Some 7) \<and> thr_tid (thread s) = 5 \<and> initialised s = [7] \<and>
     child s = Looping"
proof -
  obtain s where s: "sample_thread_reach s" "caller s = Returned (Some 7)" using sample_thread_returns by blast
  from startLoop_returns [OF s(1)] s show ?thesis by (intro exI [of _ s]) simp
qed

text \<open>
  C38: The thread of a loop can not be joined. Once \<open>startLoop\<close> has returned, the destructor of
  \<open>EventLoopThread\<close> calls \<open>quit\<close> and \<open>join\<close> and never returns: the loop does not end, so the thread
  never finishes.
\<close>

theorem loop_thread_never_joined:
  assumes "thread_reach body has_callback addr tid s"
  shows "caller s \<noteq> Destroyed \<and> child s \<noteq> Finished \<and>
    (caller s = Joining \<longrightarrow> (\<forall>s'. thread_step body has_callback addr tid s s' \<longrightarrow> caller s' = Joining))"
proof -
  have inv: "thread_inv has_callback addr tid s" by (rule thread_reach_inv [OF assms])
  have "caller s' = Joining" if "caller s = Joining" and st: "thread_step body has_callback addr tid s s'" for s'
    using st that(1) inv
    by cases (auto simp: thread_inv_def before_return_def elim!: start_step.cases)
  with inv show ?thesis by (auto simp: thread_inv_def)
qed

theorem loop_thread_never_joined_witness:
  "\<exists>s. sample_thread_reach s \<and> caller s = Joining \<and> child s \<noteq> Finished \<and>
     \<not> (\<exists>s'. thread_step sample_body True 7 5 s s' \<and> caller s' \<noteq> Joining)"
proof -
  obtain s where s: "sample_thread_reach s" "caller s = Joining" using sample_thread_joins by blast
  from loop_thread_never_joined [OF s(1)] s show ?thesis by (intro exI [of _ s]) blast
qed

end
