(* ===== verification/Socket.thy ===== *)
theory Socket
  imports Prelude
begin

text \<open>
  Addresses and sockets (\<open>src/net/InetAddress.h\<close>, \<open>InetAddress.cc\<close>, \<open>Socket.h\<close>, \<open>Socket.cc\<close>,
  \<open>util.h\<close>).

  The operating system is a parameter: \<open>sys\<close> is the record of the system calls, which act on a
  state \<open>'k\<close> and return what the C functions return, with the error number as the left summand
  where the code looks at it. The two conversions between an address and its dotted form,
  \<open>inet_pton\<close> and \<open>inet_ntop\<close>, are parameters too. A \<open>World\<close> is the state of the system together
  with what has been written with \<open>LOG_ERROR\<close>. \<open>descriptor_calls\<close> is what the code relies on.
\<close>

section \<open>Addresses\<close>

text \<open>The address and the port are kept as octets in network order.\<close>

record sockaddr_in =
  sin_family :: nat
  sin_addr :: string
  sin_port :: string

definition AF_INET :: nat where "AF_INET = 2"
definition INADDR_ANY :: u32 where "INADDR_ANY = 0"
definition INADDR_LOOPBACK :: u32 where "INADDR_LOOPBACK = 0x7F000001"

definition htons :: "u16 \<Rightarrow> string" where
  "htons p = [byte_at 8 p, byte_at 0 p]"

definition htonl :: "u32 \<Rightarrow> string" where
  "htonl a = [byte_at 24 a, byte_at 16 a, byte_at 8 a, byte_at 0 a]"

definition ntohs :: "string \<Rightarrow> u16" where
  "ntohs s = put_byte (s ! 0) 8 OR put_byte (s ! 1) 0"

definition zero_address :: sockaddr_in where
  "zero_address = \<lparr>sin_family = 0, sin_addr = replicate 4 (CHR 0x00), sin_port = replicate 2 (CHR 0x00)\<rparr>"

definition newInetAddress :: "u16 \<Rightarrow> bool \<Rightarrow> sockaddr_in" where
  "newInetAddress port loopbackOnly =
     (let addr = zero_address\<lparr>sin_family := AF_INET\<rparr>;
          ip = (if loopbackOnly then INADDR_LOOPBACK else INADDR_ANY)
      in addr\<lparr>sin_addr := htonl ip, sin_port := htons port\<rparr>)"

text \<open>The address of a dotted string; one that does not parse is logged and leaves the zeros.\<close>

definition inetAddressOf :: "(string \<Rightarrow> string option) \<Rightarrow> string \<Rightarrow> u16 \<Rightarrow> sockaddr_in \<times> string list" where
  "inetAddressOf pton ip port =
     (let addr = zero_address\<lparr>sin_family := AF_INET\<rparr>;
          (addr, log) =
            (case pton ip of
               Some a \<Rightarrow> (addr\<lparr>sin_addr := a\<rparr>, [])
             | None \<Rightarrow> (addr, [''InetAddress::inet_pton() error!'']))
      in (addr\<lparr>sin_port := htons port\<rparr>, log))"

definition toIp :: "(string \<Rightarrow> string) \<Rightarrow> sockaddr_in \<Rightarrow> string" where
  "toIp ntop addr = ntop (sin_addr addr)"

definition toPort :: "sockaddr_in \<Rightarrow> u16" where
  "toPort addr = ntohs (sin_port addr)"

definition toIpPort :: "(string \<Rightarrow> string) \<Rightarrow> sockaddr_in \<Rightarrow> string" where
  "toIpPort ntop addr = toIp ntop addr @ '':'' @ to_string (unat (toPort addr))"

lemma ntohs_htons [simp]: "ntohs (htons p) = p"
  by (simp add: ntohs_def htons_def octets_16)

lemma toPort_new [simp]: "toPort (newInetAddress p b) = p" "toPort (fst (inetAddressOf pton ip p)) = p"
  by (simp_all add: toPort_def newInetAddress_def inetAddressOf_def Let_def split: option.splits)

lemma toIpPort_of:
  assumes "pton ip = Some a" "ntop a = ip"
  shows "toIpPort ntop (fst (inetAddressOf pton ip p)) = ip @ '':'' @ to_string (unat p)"
  using assms by (simp add: toIpPort_def toIp_def toPort_def inetAddressOf_def Let_def)

section \<open>System calls\<close>

definition EBADF :: int where "EBADF = 9"
definition EAGAIN :: int where "EAGAIN = 11"
definition EMFILE :: int where "EMFILE = 24"

datatype SockOpt = SO_REUSEADDR | SO_REUSEPORT | SO_KEEPALIVE | TCP_NODELAY

record 'k sys =
  sys_socket :: "'k \<Rightarrow> int \<times> 'k"
  sys_setsockopt :: "int \<Rightarrow> SockOpt \<Rightarrow> int \<Rightarrow> 'k \<Rightarrow> 'k"
  sys_bind :: "int \<Rightarrow> sockaddr_in \<Rightarrow> 'k \<Rightarrow> bool \<times> 'k"
  sys_listen :: "int \<Rightarrow> nat \<Rightarrow> 'k \<Rightarrow> bool \<times> 'k"
  sys_accept :: "int \<Rightarrow> 'k \<Rightarrow> (int + int \<times> sockaddr_in) \<times> 'k"
  sys_shutdown :: "int \<Rightarrow> 'k \<Rightarrow> bool \<times> 'k"
  sys_open :: "string \<Rightarrow> 'k \<Rightarrow> int \<times> 'k"
  sys_close :: "int \<Rightarrow> 'k \<Rightarrow> 'k"
  sys_eventfd :: "'k \<Rightarrow> int \<times> 'k"
  sys_timerfd :: "'k \<Rightarrow> int \<times> 'k"
  sys_getsockname :: "int \<Rightarrow> 'k \<Rightarrow> sockaddr_in option"
  sys_getpeername :: "int \<Rightarrow> 'k \<Rightarrow> sockaddr_in option"

record 'k World =
  kernel :: 'k
  errorLog :: "string list"

definition LOG_ERROR :: "string \<Rightarrow> 'k World \<Rightarrow> 'k World" where
  "LOG_ERROR msg w = w\<lparr>errorLog := errorLog w @ [msg]\<rparr>"

section \<open>Sockets\<close>

text \<open>A socket is its descriptor.\<close>

definition bindAddress :: "'k sys \<Rightarrow> int \<Rightarrow> sockaddr_in \<Rightarrow> 'k World \<Rightarrow> 'k World" where
  "bindAddress sys sockfd addr w =
     (let (ok, k) = sys_bind sys sockfd addr (kernel w); w = w\<lparr>kernel := k\<rparr>
      in if \<not> ok then LOG_ERROR ''Socket bind sockfd error!'' w else w)"

definition socket_listen :: "'k sys \<Rightarrow> int \<Rightarrow> 'k World \<Rightarrow> 'k World" where
  "socket_listen sys sockfd w =
     (let (ok, k) = sys_listen sys sockfd 1024 (kernel w); w = w\<lparr>kernel := k\<rparr>
      in if \<not> ok then LOG_ERROR ''Socket listen sockfd error!'' w else w)"

text \<open>The descriptor with the address of the peer, or the error number.\<close>

definition socket_accept :: "'k sys \<Rightarrow> int \<Rightarrow> 'k World \<Rightarrow> (int + int \<times> sockaddr_in) \<times> 'k World" where
  "socket_accept sys sockfd w =
     (let (r, k) = sys_accept sys sockfd (kernel w); w = w\<lparr>kernel := k\<rparr>
      in case r of
           Inr (connfd, peer) \<Rightarrow> (Inr (connfd, peer), w)
         | Inl errno \<Rightarrow> (Inl errno, LOG_ERROR ''Socket listen sockfd error!'' w))"

definition shutdownWrite :: "'k sys \<Rightarrow> int \<Rightarrow> 'k World \<Rightarrow> 'k World" where
  "shutdownWrite sys sockfd w =
     (let (ok, k) = sys_shutdown sys sockfd (kernel w); w = w\<lparr>kernel := k\<rparr>
      in if \<not> ok then LOG_ERROR ''Socket listen sockfd error!'' w else w)"

definition setTcpNoDelay :: "'k sys \<Rightarrow> int \<Rightarrow> bool \<Rightarrow> 'k World \<Rightarrow> 'k World" where
  "setTcpNoDelay sys sockfd on w =
     w\<lparr>kernel := sys_setsockopt sys sockfd TCP_NODELAY (if on then 1 else 0) (kernel w)\<rparr>"

definition setReuseAddr :: "'k sys \<Rightarrow> int \<Rightarrow> bool \<Rightarrow> 'k World \<Rightarrow> 'k World" where
  "setReuseAddr sys sockfd on w =
     w\<lparr>kernel := sys_setsockopt sys sockfd SO_REUSEADDR (if on then 1 else 0) (kernel w)\<rparr>"

definition setReusePort :: "'k sys \<Rightarrow> int \<Rightarrow> bool \<Rightarrow> 'k World \<Rightarrow> 'k World" where
  "setReusePort sys sockfd on w =
     w\<lparr>kernel := sys_setsockopt sys sockfd SO_REUSEPORT (if on then 1 else 0) (kernel w)\<rparr>"

definition setKeepAlive :: "'k sys \<Rightarrow> int \<Rightarrow> bool \<Rightarrow> 'k World \<Rightarrow> 'k World" where
  "setKeepAlive sys sockfd on w =
     w\<lparr>kernel := sys_setsockopt sys sockfd SO_KEEPALIVE (if on then 1 else 0) (kernel w)\<rparr>"

definition destroySocket :: "'k sys \<Rightarrow> int \<Rightarrow> 'k World \<Rightarrow> 'k World" where
  "destroySocket sys sockfd w = w\<lparr>kernel := sys_close sys sockfd (kernel w)\<rparr>"

definition getLocalAddr :: "'k sys \<Rightarrow> int \<Rightarrow> 'k World \<Rightarrow> sockaddr_in \<times> 'k World" where
  "getLocalAddr sys sockfd w =
     (case sys_getsockname sys sockfd (kernel w) of
        Some a \<Rightarrow> (a, w)
      | None \<Rightarrow> (zero_address, LOG_ERROR ''sockets::getLocalAddr'' w))"

definition getPeerAddr :: "'k sys \<Rightarrow> int \<Rightarrow> 'k World \<Rightarrow> sockaddr_in \<times> 'k World" where
  "getPeerAddr sys sockfd w =
     (case sys_getpeername sys sockfd (kernel w) of
        Some a \<Rightarrow> (a, w)
      | None \<Rightarrow> (zero_address, LOG_ERROR ''sockets::getPeerAddr'' w))"

section \<open>What the system calls promise\<close>

text \<open>
  \<open>fds\<close> reads the open descriptors of the process and \<open>backlog\<close> the peers that wait at a listening
  socket. \<open>close(2)\<close>, \<open>open(2)\<close> and \<open>accept(2)\<close>: closing releases that descriptor; opening and
  accepting give a descriptor that was not open, and touch no other; a failing call gives out
  none. A successful accept takes the first waiting peer. Accepting on a descriptor that is not
  open is \<open>EBADF\<close>. With \<open>EBADF\<close>, \<open>EAGAIN\<close> and \<open>EMFILE\<close> the waiting peers stay; other errors
  may have dropped the first of them (\<open>ECONNABORTED\<close>). Descriptors are not negative.
\<close>

definition close_ok :: "'k sys \<Rightarrow> ('k \<Rightarrow> int set) \<Rightarrow> ('k \<Rightarrow> int \<Rightarrow> sockaddr_in list) \<Rightarrow> bool" where
  "close_ok sys fds backlog \<longleftrightarrow>
     (\<forall>d k. fds (sys_close sys d k) = fds k - {d} \<and>
        (\<forall>e \<in> fds k - {d}. backlog (sys_close sys d k) e = backlog k e))"

definition open_ok :: "'k sys \<Rightarrow> ('k \<Rightarrow> int set) \<Rightarrow> ('k \<Rightarrow> int \<Rightarrow> sockaddr_in list) \<Rightarrow> bool" where
  "open_ok sys fds backlog \<longleftrightarrow>
     (\<forall>p k d k'. sys_open sys p k = (d, k') \<longrightarrow>
        (if d < 0 then fds k' = fds k else d \<notin> fds k \<and> fds k' = insert d (fds k)) \<and>
        (\<forall>e \<in> fds k. backlog k' e = backlog k e))"

definition accept_ok :: "'k sys \<Rightarrow> ('k \<Rightarrow> int set) \<Rightarrow> ('k \<Rightarrow> int \<Rightarrow> sockaddr_in list) \<Rightarrow> bool" where
  "accept_ok sys fds backlog \<longleftrightarrow>
     (\<forall>s k. s \<notin> fds k \<longrightarrow> fst (sys_accept sys s k) = Inl EBADF) \<and>
     (\<forall>s k errno k'. sys_accept sys s k = (Inl errno, k') \<longrightarrow>
        fds k' = fds k \<and> (\<forall>e \<in> fds k. e \<noteq> s \<or> errno \<in> {EBADF, EAGAIN, EMFILE} \<longrightarrow> backlog k' e = backlog k e) \<and>
        (backlog k' s = backlog k s \<or> backlog k' s = tl (backlog k s))) \<and>
     (\<forall>s k d a k'. sys_accept sys s k = (Inr (d, a), k') \<longrightarrow>
        0 \<le> d \<and> d \<notin> fds k \<and> fds k' = insert d (fds k) \<and> backlog k s = a # backlog k' s \<and>
        (\<forall>e \<in> fds k. e \<noteq> s \<longrightarrow> backlog k' e = backlog k e))"

definition descriptor_calls :: "'k sys \<Rightarrow> ('k \<Rightarrow> int set) \<Rightarrow> ('k \<Rightarrow> int \<Rightarrow> sockaddr_in list) \<Rightarrow> bool" where
  "descriptor_calls sys fds backlog \<longleftrightarrow>
     close_ok sys fds backlog \<and> open_ok sys fds backlog \<and> accept_ok sys fds backlog \<and> (\<forall>k. \<forall>d \<in> fds k. 0 \<le> d)"


lemma close_effect:
  assumes "descriptor_calls sys fds backlog"
  shows "fds (sys_close sys d k) = fds k - {d}"
    "e \<in> fds k \<Longrightarrow> e \<noteq> d \<Longrightarrow> backlog (sys_close sys d k) e = backlog k e"
  using assms unfolding descriptor_calls_def close_ok_def by simp_all

lemma open_effect:
  assumes "descriptor_calls sys fds backlog" "sys_open sys p k = (d, k')"
  shows "if d < 0 then fds k' = fds k else d \<notin> fds k \<and> fds k' = insert d (fds k)"
    "e \<in> fds k \<Longrightarrow> backlog k' e = backlog k e"
  using assms(1) [unfolded descriptor_calls_def open_ok_def, THEN conjunct2, THEN conjunct1, rule_format, OF assms(2)]
  by simp_all

lemma accept_closed:
  assumes "descriptor_calls sys fds backlog" "s \<notin> fds k"
  obtains k' where "sys_accept sys s k = (Inl EBADF, k')"
proof -
  have "fst (sys_accept sys s k) = Inl EBADF"
    using assms unfolding descriptor_calls_def accept_ok_def by simp
  then show thesis by (intro that [of "snd (sys_accept sys s k)"]) (simp add: prod_eq_iff)
qed

lemma accept_error:
  assumes "descriptor_calls sys fds backlog" "sys_accept sys s k = (Inl errno, k')"
  shows "fds k' = fds k" "e \<in> fds k \<Longrightarrow> e \<noteq> s \<or> errno \<in> {EBADF, EAGAIN, EMFILE} \<Longrightarrow> backlog k' e = backlog k e"
    "backlog k' s = backlog k s \<or> backlog k' s = tl (backlog k s)"
proof -
  have "accept_ok sys fds backlog" using assms(1) by (simp add: descriptor_calls_def)
  from this [unfolded accept_ok_def, THEN conjunct2, THEN conjunct1, rule_format, OF assms(2)]
  show "fds k' = fds k" "e \<in> fds k \<Longrightarrow> e \<noteq> s \<or> errno \<in> {EBADF, EAGAIN, EMFILE} \<Longrightarrow> backlog k' e = backlog k e"
    "backlog k' s = backlog k s \<or> backlog k' s = tl (backlog k s)"
    by blast+
qed

lemma accept_success:
  assumes "descriptor_calls sys fds backlog" "sys_accept sys s k = (Inr (d, a), k')"
  shows "0 \<le> d" "d \<notin> fds k" "fds k' = insert d (fds k)" "backlog k s = a # backlog k' s"
proof -
  have "accept_ok sys fds backlog" using assms(1) by (simp add: descriptor_calls_def)
  from this [unfolded accept_ok_def, THEN conjunct2, THEN conjunct2, rule_format, OF assms(2)]
  show "0 \<le> d" "d \<notin> fds k" "fds k' = insert d (fds k)" "backlog k s = a # backlog k' s" by blast+
qed

lemma descriptor_nonneg: "descriptor_calls sys fds backlog \<Longrightarrow> d \<in> fds k \<Longrightarrow> 0 \<le> d"
  unfolding descriptor_calls_def by blast

end
