(* ===== verification/Poller.thy ===== *)
theory Poller
  imports Socket
begin

text \<open>
  Channels and the epoll poller (\<open>src/net/Channel.h\<close>, \<open>Channel.cc\<close>, \<open>Poller.h\<close>, \<open>Poller.cc\<close>,
  \<open>EPollPoller.h\<close>, \<open>EPollPoller.cc\<close>), with the calls of \<open>EventLoop\<close> that only pass on to the poller.

  Channel objects are referred to by address. The kernel is a parameter: \<open>ctl\<close> is \<open>epoll_ctl\<close> on
  the state \<open>'s\<close> of an epoll instance and returns the error number, zero when the call succeeded,
  \<open>interest\<close> reads the interest list of that state, and what \<open>epoll_wait\<close> delivers is an argument of
  \<open>epoll_poll\<close>. \<open>ctlErrors\<close> holds the failed calls that \<open>update\<close> logs, with their error numbers. Event
  masks are 32-bit words.
\<close>

unbundle bit_operations_syntax

section \<open>Channels\<close>

definition EPOLLIN :: u32 where "EPOLLIN = 1"
definition EPOLLPRI :: u32 where "EPOLLPRI = 2"
definition EPOLLOUT :: u32 where "EPOLLOUT = 4"
definition EPOLLERR :: u32 where "EPOLLERR = 8"
definition EPOLLHUP :: u32 where "EPOLLHUP = 16"

definition kNoneEvent :: u32 where "kNoneEvent = 0"
definition kReadEvent :: u32 where "kReadEvent = EPOLLIN OR EPOLLPRI"
definition kWriteEvent :: u32 where "kWriteEvent = EPOLLOUT"

definition kNew :: int where "kNew = -1"
definition kAdded :: int where "kAdded = 1"
definition kDeleted :: int where "kDeleted = 2"

datatype EventCallback = ReadCallback | WriteCallback | CloseCallback | ErrorCallback

record Channel =
  fd :: int
  events :: u32
  revents :: u32
  index :: int
  added2Loop :: bool
  tied :: bool
  callbacks :: "EventCallback set"

definition newChannel :: "int \<Rightarrow> Channel" where
  "newChannel f = \<lparr>fd = f, events = 0, revents = 0, index = kNew, added2Loop = False, tied = False, callbacks = {}\<rparr>"

definition isNonEvent :: "Channel \<Rightarrow> bool" where
  "isNonEvent ch \<longleftrightarrow> events ch = kNoneEvent"

definition isReading :: "Channel \<Rightarrow> bool" where
  "isReading ch \<longleftrightarrow> events ch AND kReadEvent \<noteq> 0"

definition isWriting :: "Channel \<Rightarrow> bool" where
  "isWriting ch \<longleftrightarrow> events ch AND kWriteEvent \<noteq> 0"

text \<open>The callbacks that are called, in order; \<open>alive\<close> is whether the tied object still exists.\<close>

definition handleEventWithGuard :: "Channel \<Rightarrow> EventCallback list" where
  "handleEventWithGuard ch =
     filter (\<lambda>cb. cb \<in> callbacks ch)
       ((if revents ch AND EPOLLHUP \<noteq> 0 \<and> revents ch AND EPOLLIN = 0 then [CloseCallback] else []) @
        (if revents ch AND EPOLLERR \<noteq> 0 then [ErrorCallback] else []) @
        (if revents ch AND (EPOLLIN OR EPOLLPRI) \<noteq> 0 then [ReadCallback] else []) @
        (if revents ch AND EPOLLOUT \<noteq> 0 then [WriteCallback] else []))"

definition handleEvent :: "bool \<Rightarrow> Channel \<Rightarrow> EventCallback list" where
  "handleEvent alive ch =
     (if tied ch then (if alive then handleEventWithGuard ch else []) else handleEventWithGuard ch)"

section \<open>The poller\<close>

datatype EpollOp = EPOLL_CTL_ADD | EPOLL_CTL_DEL | EPOLL_CTL_MOD

type_synonym 's epoll_ctl = "EpollOp \<Rightarrow> int \<Rightarrow> u32 \<times> nat \<Rightarrow> 's \<Rightarrow> int \<times> 's"

record 's Poller =
  objects :: "nat \<rightharpoonup> Channel"
  channels :: "int \<rightharpoonup> nat"
  epoll :: 's
  eventListSize :: nat
  ctlErrors :: "(EpollOp \<times> int) list"

definition kInitEventListSize :: nat where "kInitEventListSize = 16"

definition newPoller :: "'s \<Rightarrow> 's Poller" where
  "newPoller s = \<lparr>objects = Map.empty, channels = Map.empty, epoll = s,
     eventListSize = kInitEventListSize, ctlErrors = []\<rparr>"

definition hasChannel :: "nat \<Rightarrow> Channel \<Rightarrow> 's Poller \<Rightarrow> bool" where
  "hasChannel p ch pl \<longleftrightarrow> channels pl (fd ch) = Some p"

definition update :: "'s epoll_ctl \<Rightarrow> EpollOp \<Rightarrow> nat \<Rightarrow> Channel \<Rightarrow> 's Poller \<Rightarrow> 's Poller" where
  "update ctl operation p ch pl =
     (let (errno, s) = ctl operation (fd ch) (events ch, p) (epoll pl);
          pl = pl\<lparr>epoll := s\<rparr>
      in if errno \<noteq> 0 then pl\<lparr>ctlErrors := ctlErrors pl @ [(operation, errno)]\<rparr> else pl)"

definition set_index :: "nat \<Rightarrow> int \<Rightarrow> 's Poller \<Rightarrow> 's Poller" where
  "set_index p i pl = pl\<lparr>objects := (objects pl)(p := map_option (\<lambda>ch. ch\<lparr>index := i\<rparr>) (objects pl p))\<rparr>"

definition updateChannel :: "'s epoll_ctl \<Rightarrow> nat \<Rightarrow> Channel \<Rightarrow> 's Poller \<Rightarrow> 's Poller" where
  "updateChannel ctl p ch pl =
     (if index ch = kNew \<or> index ch = kDeleted then
        (let pl = (if index ch = kNew then pl\<lparr>channels := (channels pl)(fd ch \<mapsto> p)\<rparr> else pl);
             pl = set_index p kAdded pl
         in update ctl EPOLL_CTL_ADD p ch pl)
      else if isNonEvent ch then set_index p kDeleted (update ctl EPOLL_CTL_DEL p ch pl)
      else update ctl EPOLL_CTL_MOD p ch pl)"

definition removeChannel :: "'s epoll_ctl \<Rightarrow> nat \<Rightarrow> Channel \<Rightarrow> 's Poller \<Rightarrow> 's Poller" where
  "removeChannel ctl p ch pl =
     (let pl = pl\<lparr>channels := (channels pl)(fd ch := None)\<rparr>;
          pl = (if index ch = kAdded then update ctl EPOLL_CTL_DEL p ch pl else pl)
      in set_index p kNew pl)"

definition fillActivateChannels :: "(u32 \<times> nat) list \<Rightarrow> 's Poller \<Rightarrow> nat list \<times> 's Poller" where
  "fillActivateChannels evs pl =
     (map snd evs,
      fold (\<lambda>e pl. pl\<lparr>objects := (objects pl)(snd e := map_option (\<lambda>ch. ch\<lparr>revents := fst e\<rparr>) (objects pl (snd e)))\<rparr>) evs pl)"

definition epoll_poll :: "int + (u32 \<times> nat) list \<Rightarrow> 's Poller \<Rightarrow> nat list \<times> 's Poller" where
  "epoll_poll waited pl =
     (case waited of
        Inl err \<Rightarrow> ([], pl)
      | Inr evs \<Rightarrow>
          (if evs = [] then ([], pl)
           else let (active, pl) = fillActivateChannels evs pl in
             (active, if length evs = eventListSize pl then pl\<lparr>eventListSize := eventListSize pl * 2\<rparr> else pl)))"

section \<open>The operations of a channel\<close>

datatype Interest = enableReading | disableReading | enableWriting | disableWriting | disableAll

fun new_events :: "Interest \<Rightarrow> u32 \<Rightarrow> u32" where
  "new_events enableReading e = e OR kReadEvent"
| "new_events disableReading e = e AND NOT kReadEvent"
| "new_events enableWriting e = e OR kWriteEvent"
| "new_events disableWriting e = e AND NOT kWriteEvent"
| "new_events disableAll e = kNoneEvent"

text \<open>A call on the channel object at address \<open>p\<close>; \<open>None\<close> when there is none.\<close>

definition channel_update :: "'s epoll_ctl \<Rightarrow> Interest \<Rightarrow> nat \<Rightarrow> 's Poller \<Rightarrow> 's Poller option" where
  "channel_update ctl i p pl =
     (case objects pl p of
        None \<Rightarrow> None
      | Some ch \<Rightarrow>
          (let ch = ch\<lparr>events := new_events i (events ch), added2Loop := True\<rparr>
           in Some (updateChannel ctl p ch (pl\<lparr>objects := (objects pl)(p \<mapsto> ch)\<rparr>))))"

definition channel_remove :: "'s epoll_ctl \<Rightarrow> nat \<Rightarrow> 's Poller \<Rightarrow> 's Poller option" where
  "channel_remove ctl p pl =
     (case objects pl p of
        None \<Rightarrow> None
      | Some ch \<Rightarrow>
          (let ch = ch\<lparr>added2Loop := False\<rparr>
           in Some (removeChannel ctl p ch (pl\<lparr>objects := (objects pl)(p \<mapsto> ch)\<rparr>))))"

text \<open>
  The life of the channels of a loop. A new channel has a fresh address and a descriptor that no
  other channel has (the kernel gives out open descriptors once); a channel is destroyed only after
  it was removed, which is what the destructors of its owners do.
\<close>

inductive poller_step :: "'s epoll_ctl \<Rightarrow> 's Poller \<Rightarrow> 's Poller \<Rightarrow> bool" for ctl where
  create: "objects pl p = None \<Longrightarrow> (\<forall>p' ch. objects pl p' = Some ch \<longrightarrow> fd ch \<noteq> f) \<Longrightarrow>
    poller_step ctl pl (pl\<lparr>objects := (objects pl)(p \<mapsto> (newChannel f)\<lparr>callbacks := cbs, tied := t\<rparr>)\<rparr>)"
| change: "channel_update ctl i p pl = Some pl' \<Longrightarrow> poller_step ctl pl pl'"
| remove: "channel_remove ctl p pl = Some pl' \<Longrightarrow> poller_step ctl pl pl'"
| destroy: "objects pl p = Some ch \<Longrightarrow> \<not> added2Loop ch \<Longrightarrow>
    poller_step ctl pl (pl\<lparr>objects := (objects pl)(p := None)\<rparr>)"
| poll: "poller_step ctl pl (snd (epoll_poll waited pl))"

inductive poller_reach :: "'s epoll_ctl \<Rightarrow> 's \<Rightarrow> 's Poller \<Rightarrow> bool" for ctl s0 where
  start: "poller_reach ctl s0 (newPoller s0)"
| step: "poller_reach ctl s0 pl \<Longrightarrow> poller_step ctl pl pl' \<Longrightarrow> poller_reach ctl s0 pl'"

section \<open>The kernel watches exactly what the channels ask for\<close>

text \<open>
  What \<open>epoll_ctl(2)\<close> documents. A failed call leaves the interest list as it is. A call that succeeds
  added a descriptor that was not watched, or changed or deleted one that was. \<open>EEXIST\<close> means adding
  a watched descriptor, \<open>ENOENT\<close> changing or deleting one that is not watched, and a negative
  descriptor gives \<open>EBADF\<close>. Any call may fail for other reasons (\<open>EPERM\<close>, \<open>ENOSPC\<close>, \<open>ENOMEM\<close>).
\<close>

definition ENOENT :: int where "ENOENT = 2"
definition EEXIST :: int where "EEXIST = 17"

definition epoll_kernel :: "'s epoll_ctl \<Rightarrow> ('s \<Rightarrow> int \<Rightarrow> (u32 \<times> nat) option) \<Rightarrow> bool" where
  "epoll_kernel ctl interest \<longleftrightarrow>
     (\<forall>operation f ev s errno s'. ctl operation f ev s = (errno, s') \<longrightarrow>
        (errno \<noteq> 0 \<longrightarrow> interest s' = interest s) \<and>
        (errno = 0 \<longrightarrow> ((operation = EPOLL_CTL_ADD) \<longleftrightarrow> interest s f = None) \<and>
           interest s' = (interest s)(f := if operation = EPOLL_CTL_DEL then None else Some ev)) \<and>
        (errno = EEXIST \<longrightarrow> operation = EPOLL_CTL_ADD \<and> interest s f \<noteq> None) \<and>
        (errno = ENOENT \<longrightarrow> operation \<noteq> EPOLL_CTL_ADD \<and> interest s f = None) \<and>
        (f < 0 \<longrightarrow> errno = EBADF))"

definition channel_ok :: "('s \<Rightarrow> int \<Rightarrow> (u32 \<times> nat) option) \<Rightarrow> 's Poller \<Rightarrow> nat \<Rightarrow> Channel \<Rightarrow> bool" where
  "channel_ok interest pl p ch \<longleftrightarrow>
     index ch \<in> {kNew, kAdded, kDeleted} \<and>
     interest (epoll pl) (fd ch) = (if index ch = kAdded then Some (events ch, p) else None) \<and>
     channels pl (fd ch) = (if index ch = kNew then None else Some p) \<and>
     (index ch = kDeleted \<longrightarrow> events ch = 0) \<and> (added2Loop ch \<longleftrightarrow> index ch \<noteq> kNew)"

definition poller_inv :: "('s \<Rightarrow> int \<Rightarrow> (u32 \<times> nat) option) \<Rightarrow> 's Poller \<Rightarrow> bool" where
  "poller_inv interest pl \<longleftrightarrow>
     (\<forall>p ch. objects pl p = Some ch \<longrightarrow> channel_ok interest pl p ch) \<and>
     (\<forall>p p' ch ch'. objects pl p = Some ch \<longrightarrow> objects pl p' = Some ch' \<longrightarrow> fd ch = fd ch' \<longrightarrow> p = p') \<and>
     (\<forall>f. interest (epoll pl) f \<noteq> None \<or> channels pl f \<noteq> None \<longrightarrow> (\<exists>p ch. objects pl p = Some ch \<and> fd ch = f))"

lemma poller_invI:
  assumes "\<And>p ch. objects pl p = Some ch \<Longrightarrow> channel_ok interest pl p ch"
    and "\<And>p p' ch ch'. objects pl p = Some ch \<Longrightarrow> objects pl p' = Some ch' \<Longrightarrow> fd ch = fd ch' \<Longrightarrow> p = p'"
    and "\<And>f. interest (epoll pl) f \<noteq> None \<or> channels pl f \<noteq> None \<Longrightarrow> \<exists>p ch. objects pl p = Some ch \<and> fd ch = f"
  shows "poller_inv interest pl"
  unfolding poller_inv_def using assms by blast

lemma kinds_distinct [simp]: "kNew \<noteq> kAdded" "kAdded \<noteq> kDeleted" "kNew \<noteq> kDeleted"
  by (simp_all add: kNew_def kAdded_def kDeleted_def)

lemmas kinds_distinct' [simp] = kinds_distinct [symmetric]

lemma epoll_kernelD:
  assumes "epoll_kernel ctl interest" "ctl operation f ev s = (errno, s')"
  shows "errno \<noteq> 0 \<Longrightarrow> interest s' = interest s"
    "errno = 0 \<Longrightarrow> (operation = EPOLL_CTL_ADD) \<longleftrightarrow> interest s f = None"
    "errno = 0 \<Longrightarrow> interest s' = (interest s)(f := if operation = EPOLL_CTL_DEL then None else Some ev)"
    "errno = EEXIST \<Longrightarrow> operation = EPOLL_CTL_ADD \<and> interest s f \<noteq> None"
    "errno = ENOENT \<Longrightarrow> operation \<noteq> EPOLL_CTL_ADD \<and> interest s f = None"
    "f < 0 \<Longrightarrow> errno = EBADF"
  using assms unfolding epoll_kernel_def by blast+

text \<open>What one call of \<open>update\<close> does when its precondition holds.\<close>

lemma update_cases:
  assumes "epoll_kernel ctl interest" "(operation = EPOLL_CTL_ADD) \<longleftrightarrow> interest (epoll pl) (fd ch) = None"
  obtains (success) s where "update ctl operation p ch pl = pl\<lparr>epoll := s\<rparr>"
      "interest s = (interest (epoll pl))(fd ch := (if operation = EPOLL_CTL_DEL then None else Some (events ch, p)))"
    | (failure) s e where "update ctl operation p ch pl = pl\<lparr>epoll := s, ctlErrors := ctlErrors pl @ [(operation, e)]\<rparr>"
      "e \<noteq> EEXIST" "e \<noteq> ENOENT"
proof -
  obtain e s where c: "ctl operation (fd ch) (events ch, p) (epoll pl) = (e, s)" by force
  note k = epoll_kernelD [OF assms(1) c]
  show thesis
  proof (cases "e = 0")
    case True
    with c k(3) success [of s] show thesis by (simp add: update_def)
  next
    case False
    have "e \<noteq> EEXIST" "e \<noteq> ENOENT" using k(4,5) assms(2) by blast+
    with c False failure [where s = s and e = e] show thesis by (simp add: update_def)
  qed
qed

text \<open>Without it, \<open>update\<close> sets the entry of that descriptor or fails and leaves it.\<close>

lemma update_entry:
  assumes "epoll_kernel ctl interest"
  obtains x where "interest (epoll (update ctl operation p ch pl)) = (interest (epoll pl))(fd ch := x)"
    "x = interest (epoll pl) (fd ch) \<or> operation \<noteq> EPOLL_CTL_DEL \<and> x = Some (events ch, p) \<or> x = None"
    "operation = EPOLL_CTL_DEL \<Longrightarrow>
       (\<forall>e. (operation, e) \<in> set (ctlErrors (update ctl operation p ch pl)) \<longrightarrow> e = ENOENT) \<Longrightarrow> x = None"
proof -
  obtain e s where c: "ctl operation (fd ch) (events ch, p) (epoll pl) = (e, s)" by force
  note k = epoll_kernelD [OF assms c]
  show thesis
  proof (cases "e = 0")
    case True
    let ?x = "if operation = EPOLL_CTL_DEL then None else Some (events ch, p)"
    show thesis by (rule that [of ?x]) (use c True k(3) in \<open>simp_all add: update_def\<close>)
  next
    case False
    show thesis
      by (rule that [of "interest (epoll pl) (fd ch)"]) (use c False k(1,5) in \<open>auto simp: update_def\<close>)
  qed
qed

lemma update_objects [simp]: "objects (update ctl operation p ch pl) = objects pl"
  by (simp add: update_def Let_def split: prod.splits)

lemma set_index_simps [simp]:
  "objects (set_index p i pl) = (objects pl)(p := map_option (\<lambda>ch. ch\<lparr>index := i\<rparr>) (objects pl p))"
  "channels (set_index p i pl) = channels pl" "epoll (set_index p i pl) = epoll pl"
  "ctlErrors (set_index p i pl) = ctlErrors pl"
  by (simp_all add: set_index_def)

text \<open>
  Replacing the channel at one address, and what the kernel and the table hold for its descriptor,
  keeps the invariant when it holds for that channel.
\<close>

lemma poller_inv_replace:
  assumes "poller_inv interest pl" "objects pl p = Some ch" "fd ch' = fd ch"
    "objects pl' = (objects pl)(p \<mapsto> ch')"
    "interest (epoll pl') = (interest (epoll pl))(fd ch := x)" "channels pl' = (channels pl)(fd ch := y)"
    "channel_ok interest pl' p ch'"
  shows "poller_inv interest pl'"
proof -
  have other: "fd ch2 \<noteq> fd ch" if "objects pl p2 = Some ch2" "p2 \<noteq> p" for p2 ch2
    using assms(1,2) that unfolding poller_inv_def by blast
  have "channel_ok interest pl' p2 ch2" if "objects pl' p2 = Some ch2" for p2 ch2
  proof (cases "p2 = p")
    case True
    with that assms(4,7) show ?thesis by simp
  next
    case False
    with that assms(4) have "objects pl p2 = Some ch2" by simp
    with assms(1) other [OF this False] show ?thesis
      by (simp add: poller_inv_def channel_ok_def assms(5,6))
  qed
  moreover have "p1 = p2" if "objects pl' p1 = Some c1" "objects pl' p2 = Some c2" "fd c1 = fd c2" for p1 p2 c1 c2
    using that assms(3,4) other [of p1 c1] other [of p2 c2] assms(1) unfolding poller_inv_def
    by (auto split: if_splits)
  moreover have "\<exists>p ch. objects pl' p = Some ch \<and> fd ch = f"
    if "interest (epoll pl') f \<noteq> None \<or> channels pl' f \<noteq> None" for f
  proof (cases "f = fd ch")
    case True
    with assms(3,4) show ?thesis by (intro exI [of _ p]) simp
  next
    case False
    with that assms(5,6) have "interest (epoll pl) f \<noteq> None \<or> channels pl f \<noteq> None" by simp
    then obtain p2 ch2 where "objects pl p2 = Some ch2" "fd ch2 = f" using assms(1) unfolding poller_inv_def by blast
    with False assms(2,4) show ?thesis by (intro exI [of _ p2]) auto
  qed
  ultimately show ?thesis by (simp add: poller_inv_def)
qed

text \<open>A step keeps the invariant, or a call failed that was not a misuse.\<close>

definition kept_or_failed :: "('s \<Rightarrow> int \<Rightarrow> (u32 \<times> nat) option) \<Rightarrow> 's Poller \<Rightarrow> 's Poller \<Rightarrow> bool" where
  "kept_or_failed interest pl pl' \<longleftrightarrow>
     ctlErrors pl' = ctlErrors pl \<and> poller_inv interest pl' \<or>
     (\<exists>x. ctlErrors pl' = ctlErrors pl @ [x] \<and> snd x \<noteq> EEXIST \<and> snd x \<noteq> ENOENT)"

lemma channel_update_inv:
  assumes "epoll_kernel ctl interest" "poller_inv interest pl" "channel_update ctl i p pl = Some pl'"
  shows "kept_or_failed interest pl pl'"
proof -
  obtain ch where ch: "objects pl p = Some ch" using assms(3) by (auto simp: channel_update_def split: option.splits)
  have ok: "channel_ok interest pl p ch" using assms(2) ch by (auto simp: poller_inv_def)
  let ?ch = "ch\<lparr>events := new_events i (events ch), added2Loop := True\<rparr>"
  let ?pl = "pl\<lparr>objects := (objects pl)(p \<mapsto> ?ch)\<rparr>"
  have pl': "pl' = updateChannel ctl p ?ch ?pl" using assms(3) ch by (simp add: channel_update_def Let_def)
  show ?thesis
  proof (cases "index ch = kAdded")
    case False
    let ?pl1 = "set_index p kAdded
      (if index ?ch = kNew then ?pl\<lparr>channels := (channels ?pl)(fd ?ch \<mapsto> p)\<rparr> else ?pl)"
    have kind: "index ch = kNew \<or> index ch = kDeleted" using ok False by (auto simp: channel_ok_def)
    have pl1: "pl' = update ctl EPOLL_CTL_ADD p ?ch ?pl1" using pl' kind by (simp add: updateChannel_def Let_def)
    have free: "(EPOLL_CTL_ADD = EPOLL_CTL_ADD) = (interest (epoll ?pl1) (fd ?ch) = None)"
      using ok False by (auto simp: channel_ok_def)
    show ?thesis
    proof (cases rule: update_cases [OF assms(1) free, where p = p, case_names success failure])
      case (success s)
      have "poller_inv interest pl'"
        by (rule poller_inv_replace [OF assms(2) ch, of "?ch\<lparr>index := kAdded\<rparr>" _ "Some (events ?ch, p)" "Some p"])
          (use pl1 success kind ok in \<open>auto simp: channel_ok_def fun_eq_iff\<close>)
      with pl1 success(1) show ?thesis by (simp add: kept_or_failed_def)
    next
      case (failure s e)
      with pl1 show ?thesis by (simp add: kept_or_failed_def)
    qed
  next
    case added: True
    have reg: "interest (epoll ?pl) (fd ?ch) \<noteq> None" "channels pl (fd ch) = Some p"
      using ok added by (simp_all add: channel_ok_def)
    show ?thesis
    proof (cases "isNonEvent ?ch")
      case True
      have pl1: "pl' = set_index p kDeleted (update ctl EPOLL_CTL_DEL p ?ch ?pl)"
        using pl' added True by (simp add: updateChannel_def)
      have pre: "(EPOLL_CTL_DEL = EPOLL_CTL_ADD) = (interest (epoll ?pl) (fd ?ch) = None)" using reg by simp
      show ?thesis
      proof (cases rule: update_cases [OF assms(1) pre, where p = p, case_names success failure])
        case (success s)
        have "poller_inv interest pl'"
          by (rule poller_inv_replace [OF assms(2) ch, of "?ch\<lparr>index := kDeleted\<rparr>" _ None "Some p"])
            (use pl1 success reg True in \<open>auto simp: channel_ok_def fun_eq_iff isNonEvent_def kNoneEvent_def\<close>)
        with pl1 success(1) show ?thesis by (simp add: kept_or_failed_def)
      next
        case (failure s e)
        with pl1 show ?thesis by (simp add: kept_or_failed_def)
      qed
    next
      case False
      have pl1: "pl' = update ctl EPOLL_CTL_MOD p ?ch ?pl" using pl' added False by (simp add: updateChannel_def)
      have pre: "(EPOLL_CTL_MOD = EPOLL_CTL_ADD) = (interest (epoll ?pl) (fd ?ch) = None)" using reg by simp
      show ?thesis
      proof (cases rule: update_cases [OF assms(1) pre, where p = p, case_names success failure])
        case (success s)
        have "poller_inv interest pl'"
          by (rule poller_inv_replace [OF assms(2) ch, of ?ch _ "Some (events ?ch, p)" "Some p"])
            (use pl1 success reg added in \<open>auto simp: channel_ok_def fun_eq_iff\<close>)
        with pl1 success(1) show ?thesis by (simp add: kept_or_failed_def)
      next
        case (failure s e)
        with pl1 show ?thesis by (simp add: kept_or_failed_def)
      qed
    qed
  qed
qed

lemma channel_remove_inv:
  assumes "epoll_kernel ctl interest" "poller_inv interest pl" "channel_remove ctl p pl = Some pl'"
  shows "kept_or_failed interest pl pl'"
proof -
  obtain ch where ch: "objects pl p = Some ch" using assms(3) by (auto simp: channel_remove_def split: option.splits)
  have ok: "channel_ok interest pl p ch" using assms(2) ch by (auto simp: poller_inv_def)
  let ?ch = "ch\<lparr>added2Loop := False\<rparr>"
  let ?pl = "pl\<lparr>objects := (objects pl)(p \<mapsto> ?ch), channels := (channels pl)(fd ch := None)\<rparr>"
  have pl': "pl' = set_index p kNew (if index ch = kAdded then update ctl EPOLL_CTL_DEL p ?ch ?pl else ?pl)"
    using assms(3) ch by (auto simp: channel_remove_def removeChannel_def Let_def)
  have kept: "kept_or_failed interest pl pl'"
    if "pl' = set_index p kNew (?pl\<lparr>epoll := s\<rparr>)" "interest s = (interest (epoll pl))(fd ch := None)" for s
  proof -
    have "poller_inv interest pl'"
      by (rule poller_inv_replace [OF assms(2) ch, of "?ch\<lparr>index := kNew\<rparr>" _ None None])
        (use that in \<open>auto simp: channel_ok_def fun_eq_iff\<close>)
    with that(1) show ?thesis by (simp add: kept_or_failed_def)
  qed
  show ?thesis
  proof (cases "index ch = kAdded")
    case True
    then have pre: "(EPOLL_CTL_DEL = EPOLL_CTL_ADD) = (interest (epoll ?pl) (fd ?ch) = None)"
      using ok by (simp add: channel_ok_def)
    show ?thesis
    proof (cases rule: update_cases [OF assms(1) pre, where p = p, case_names success failure])
      case (success s)
      with pl' True kept [of s] show ?thesis by simp
    next
      case (failure s e)
      with pl' True show ?thesis by (simp add: kept_or_failed_def)
    qed
  next
    case False
    then have "interest (epoll pl) (fd ch) = None" using ok by (simp add: channel_ok_def)
    then have "interest (epoll pl) = (interest (epoll pl))(fd ch := None)" by (simp add: fun_eq_iff)
    with kept [of "epoll pl"] pl' False show ?thesis by simp
  qed
qed

lemma poll_inv: "poller_inv interest pl \<Longrightarrow> poller_inv interest (snd (epoll_poll waited pl))"
proof -
  let ?f = "\<lambda>e pl. pl\<lparr>objects := (objects pl)(snd e := map_option (\<lambda>ch. ch\<lparr>revents := fst e\<rparr>) (objects pl (snd e)))\<rparr>"
  have one: "poller_inv interest (?f e pl)" if inv: "poller_inv interest pl" for e and pl :: "'a Poller"
  proof (cases "objects pl (snd e)")
    case None
    then have "?f e pl = pl" by (simp add: fun_upd_idem)
    with inv show ?thesis by simp
  next
    case (Some ch)
    have "channel_ok interest pl (snd e) ch" using inv Some by (auto simp: poller_inv_def)
    then show ?thesis
      by (intro poller_inv_replace [OF inv Some, of "ch\<lparr>revents := fst e\<rparr>" _
            "interest (epoll pl) (fd ch)" "channels pl (fd ch)"])
        (auto simp: Some channel_ok_def fun_eq_iff)
  qed
  have "poller_inv interest (fold ?f evs pl)" if "poller_inv interest pl" for evs and pl :: "'a Poller"
    using that by (induction evs arbitrary: pl) (simp_all add: one)
  moreover have "poller_inv interest (pl\<lparr>eventListSize := n\<rparr>) = poller_inv interest pl" for pl :: "'a Poller" and n
    by (simp add: poller_inv_def channel_ok_def)
  moreover assume "poller_inv interest pl"
  ultimately show ?thesis
    by (simp add: epoll_poll_def fillActivateChannels_def split: sum.splits)
qed

lemma poll_keeps: "ctlErrors (snd (epoll_poll waited pl)) = ctlErrors pl" "epoll (snd (epoll_poll waited pl)) = epoll pl"
proof -
  let ?f = "\<lambda>e pl. pl\<lparr>objects := (objects pl)(snd e := map_option (\<lambda>ch. ch\<lparr>revents := fst e\<rparr>) (objects pl (snd e)))\<rparr>"
  have "ctlErrors (fold ?f evs pl) = ctlErrors pl \<and> epoll (fold ?f evs pl) = epoll pl" for evs and pl :: "'a Poller"
    by (induction evs arbitrary: pl) simp_all
  then show "ctlErrors (snd (epoll_poll waited pl)) = ctlErrors pl" "epoll (snd (epoll_poll waited pl)) = epoll pl"
    by (simp_all add: epoll_poll_def fillActivateChannels_def split: sum.splits)
qed

lemma poller_step_inv:
  assumes "epoll_kernel ctl interest" "poller_step ctl pl pl'" "poller_inv interest pl"
  shows "kept_or_failed interest pl pl'"
  using assms(2,3)
proof (induction rule: poller_step.induct)
  case (create pl p f t cbs)
  let ?ch = "(newChannel f)\<lparr>callbacks := cbs, tied := t\<rparr>"
  let ?pl = "pl\<lparr>objects := (objects pl)(p \<mapsto> ?ch)\<rparr>"
  have free: "interest (epoll pl) f = None" "channels pl f = None"
    using create unfolding poller_inv_def by blast+
  have "channel_ok interest ?pl p' ch" if "objects ?pl p' = Some ch" for p' ch
  proof (cases "p' = p")
    case True
    with that free show ?thesis by (auto simp: channel_ok_def newChannel_def)
  next
    case False
    with that create.prems show ?thesis by (simp add: poller_inv_def channel_ok_def)
  qed
  moreover have "p1 = p2" if "objects ?pl p1 = Some c1" "objects ?pl p2 = Some c2" "fd c1 = fd c2" for p1 p2 c1 c2
  proof -
    have new: "fd ?ch = f" by (simp add: newChannel_def)
    have old: "objects pl p1 = Some c1 \<Longrightarrow> fd c1 \<noteq> f" "objects pl p2 = Some c2 \<Longrightarrow> fd c2 \<noteq> f"
      using create.hyps(2) by blast+
    have "objects pl p1 = Some c1 \<Longrightarrow> objects pl p2 = Some c2 \<Longrightarrow> p1 = p2"
      using create.prems that(3) unfolding poller_inv_def by blast
    with that old new show ?thesis by (cases "p1 = p"; cases "p2 = p") auto
  qed
  moreover have "\<exists>p' ch. objects ?pl p' = Some ch \<and> fd ch = g"
    if "interest (epoll ?pl) g \<noteq> None \<or> channels ?pl g \<noteq> None" for g
  proof -
    have "interest (epoll pl) g \<noteq> None \<or> channels pl g \<noteq> None" using that by simp
    then obtain p' ch where o: "objects pl p' = Some ch" "fd ch = g" using create.prems unfolding poller_inv_def by blast
    then have "p' \<noteq> p" using create.hyps(1) by auto
    with o show ?thesis by (intro exI [of _ p'] exI [of _ ch]) simp
  qed
  ultimately have "poller_inv interest ?pl" by (rule poller_invI)
  then show ?case by (simp add: kept_or_failed_def)
next
  case (change i p pl pl')
  then show ?case using channel_update_inv [OF assms(1)] by blast
next
  case (remove p pl pl')
  then show ?case using channel_remove_inv [OF assms(1)] by blast
next
  case (destroy pl p ch)
  have ok: "channel_ok interest pl p ch" using destroy by (simp add: poller_inv_def)
  with destroy(2) have gone: "interest (epoll pl) (fd ch) = None" "channels pl (fd ch) = None"
    by (simp_all add: channel_ok_def)
  have "\<exists>p' ch'. ((objects pl)(p := None)) p' = Some ch' \<and> fd ch' = f"
    if reg: "interest (epoll pl) f \<noteq> None \<or> channels pl f \<noteq> None" for f
  proof -
    obtain p' ch' where o: "objects pl p' = Some ch'" "fd ch' = f" using destroy.prems reg unfolding poller_inv_def by blast
    with gone reg destroy(1) have "p' \<noteq> p" by auto
    with o show ?thesis by (intro exI [of _ p'] exI [of _ ch']) simp
  qed
  with destroy.prems have "poller_inv interest (pl\<lparr>objects := (objects pl)(p := None)\<rparr>)"
    unfolding poller_inv_def by (auto simp: channel_ok_def split: if_splits)
  then show ?case by (simp add: kept_or_failed_def)
next
  case (poll pl waited)
  then show ?case using poll_inv [OF poll.prems, of waited] poll_keeps(1) [of waited pl] by (simp add: kept_or_failed_def)
qed

text \<open>Failed calls stay in the log.\<close>

lemma update_errors: "\<exists>xs. ctlErrors (update ctl operation p ch pl) = ctlErrors pl @ xs"
  by (auto simp: update_def Let_def split: prod.splits)

lemma updateChannel_errors: "\<exists>xs. ctlErrors (updateChannel ctl p ch pl) = ctlErrors pl @ xs"
proof -
  let ?pl = "set_index p kAdded (if index ch = kNew then pl\<lparr>channels := (channels pl)(fd ch \<mapsto> p)\<rparr> else pl)"
  have "ctlErrors ?pl = ctlErrors pl" by simp
  with update_errors [of ctl EPOLL_CTL_ADD p ch ?pl]
  have "\<exists>xs. ctlErrors (update ctl EPOLL_CTL_ADD p ch ?pl) = ctlErrors pl @ xs" by (simp only:)
  with update_errors [of ctl EPOLL_CTL_DEL p ch pl] update_errors [of ctl EPOLL_CTL_MOD p ch pl]
  show ?thesis unfolding updateChannel_def Let_def by (cases "index ch = kNew \<or> index ch = kDeleted"; cases "isNonEvent ch") simp_all
qed

lemma removeChannel_errors: "\<exists>xs. ctlErrors (removeChannel ctl p ch pl) = ctlErrors pl @ xs"
  using update_errors [of ctl EPOLL_CTL_DEL p ch "pl\<lparr>channels := (channels pl)(fd ch := None)\<rparr>"]
  by (auto simp: removeChannel_def Let_def)

lemma poller_step_errors: "poller_step ctl pl pl' \<Longrightarrow> \<exists>xs. ctlErrors pl' = ctlErrors pl @ xs"
proof (induction rule: poller_step.induct)
  case (change i p pl pl')
  then obtain ch ch' where "pl' = updateChannel ctl p ch (pl\<lparr>objects := ch'\<rparr>)"
    by (auto simp: channel_update_def Let_def split: option.splits)
  with updateChannel_errors [of ctl p ch "pl\<lparr>objects := ch'\<rparr>"] show ?case by simp
next
  case (remove p pl pl')
  then obtain ch ch' where "pl' = removeChannel ctl p ch (pl\<lparr>objects := ch'\<rparr>)"
    by (auto simp: channel_remove_def Let_def split: option.splits)
  with removeChannel_errors [of ctl p ch "pl\<lparr>objects := ch'\<rparr>"] show ?case by simp
next
  case (poll pl waited)
  then show ?case by (simp add: poll_keeps)
qed simp_all

lemma poller_reach_inv:
  assumes "epoll_kernel ctl interest" "interest s0 = Map.empty" "poller_reach ctl s0 pl"
  shows "(ctlErrors pl = [] \<longrightarrow> poller_inv interest pl) \<and>
    (\<forall>x xs. ctlErrors pl = x # xs \<longrightarrow> snd x \<noteq> EEXIST \<and> snd x \<noteq> ENOENT)"
  using assms(3)
proof (induction rule: poller_reach.induct)
  case start
  then show ?case using assms(2) by (simp add: poller_inv_def newPoller_def)
next
  case (step pl pl')
  show ?case
  proof (cases "ctlErrors pl")
    case Nil
    with step poller_step_inv [OF assms(1) step.hyps(2)] show ?thesis by (auto simp: kept_or_failed_def)
  next
    case (Cons x xs)
    with step.IH poller_step_errors [OF step.hyps(2)] show ?thesis by auto
  qed
qed

lemma channel_update_object:
  assumes "objects pl p = Some ch"
  obtains pl' ch' where "channel_update ctl i p pl = Some pl'" "objects pl' p = Some ch'"
    "fd ch' = fd ch" "events ch' = new_events i (events ch)" "added2Loop ch'"
proof -
  let ?ch = "ch\<lparr>events := new_events i (events ch), added2Loop := True\<rparr>"
  let ?pl = "updateChannel ctl p ?ch (pl\<lparr>objects := (objects pl)(p \<mapsto> ?ch)\<rparr>)"
  show thesis
    by (rule that [of ?pl "the (objects ?pl p)"])
      (use assms in \<open>simp_all add: channel_update_def updateChannel_def set_index_def Let_def\<close>)
qed

lemma channel_remove_object:
  assumes "objects pl p = Some ch"
  obtains pl' ch' where "channel_remove ctl p pl = Some pl'" "objects pl' p = Some ch'"
    "fd ch' = fd ch" "\<not> added2Loop ch'"
proof -
  let ?ch = "ch\<lparr>added2Loop := False\<rparr>"
  let ?pl = "removeChannel ctl p ?ch (pl\<lparr>objects := (objects pl)(p \<mapsto> ?ch)\<rparr>)"
  show thesis
    by (rule that [of ?pl "the (objects ?pl p)"])
      (use assms in \<open>simp_all add: channel_remove_def removeChannel_def set_index_def Let_def\<close>)
qed

lemma channel_interest:
  assumes "epoll_kernel ctl interest" "interest s0 = Map.empty" "poller_reach ctl s0 pl" "ctlErrors pl = []" "objects pl p = Some ch"
  shows "added2Loop ch \<Longrightarrow> events ch \<noteq> 0 \<Longrightarrow> interest (epoll pl) (fd ch) = Some (events ch, p)"
    "\<not> added2Loop ch \<Longrightarrow> interest (epoll pl) (fd ch) = None"
proof -
  have "channel_ok interest pl p ch" using poller_reach_inv [OF assms(1-3)] assms(4,5) by (simp add: poller_inv_def)
  then show "added2Loop ch \<Longrightarrow> events ch \<noteq> 0 \<Longrightarrow> interest (epoll pl) (fd ch) = Some (events ch, p)"
    "\<not> added2Loop ch \<Longrightarrow> interest (epoll pl) (fd ch) = None" by (auto simp: channel_ok_def)
qed

lemma kReadEvent_value: "kReadEvent = 3"
  by code_simp

text \<open>A channel that is created and asks for reading, and one that is taken out and destroyed.\<close>

lemma watch_channel:
  assumes k: "epoll_kernel ctl interest" "interest s0 = Map.empty" and r: "poller_reach ctl s0 pl"
    and p: "objects pl p = None" and fresh: "\<forall>p' ch. objects pl p' = Some ch \<longrightarrow> fd ch \<noteq> f"
  obtains pl' ch where
    "channel_update ctl enableReading p
       (pl\<lparr>objects := (objects pl)(p \<mapsto> (newChannel f)\<lparr>callbacks := cbs, tied := False\<rparr>)\<rparr>) = Some pl'"
    "poller_reach ctl s0 pl'" "objects pl' p = Some ch" "fd ch = f" "events ch = kReadEvent" "added2Loop ch"
    "\<exists>xs. ctlErrors pl' = ctlErrors pl @ xs"
    "ctlErrors pl' = [] \<Longrightarrow> 0 \<le> f \<and> interest (epoll pl') f = Some (kReadEvent, p)"
proof -
  let ?ch = "(newChannel f)\<lparr>callbacks := cbs, tied := False\<rparr>"
  let ?pl = "pl\<lparr>objects := (objects pl)(p \<mapsto> ?ch)\<rparr>"
  have r1: "poller_reach ctl s0 ?pl" by (rule poller_reach.step [OF r poller_step.create [OF p fresh]])
  have "objects ?pl p = Some ?ch" by simp
  then obtain pl' ch where c: "channel_update ctl enableReading p ?pl = Some pl'" "objects pl' p = Some ch"
    "fd ch = f" "events ch = kReadEvent" "added2Loop ch"
    by (rule channel_update_object [where ctl = ctl and i = enableReading]) (auto simp: newChannel_def)
  have st: "poller_step ctl ?pl pl'" by (rule poller_step.change [OF c(1)])
  have r': "poller_reach ctl s0 pl'" by (rule poller_reach.step [OF r1 st])
  have "0 \<le> f \<and> interest (epoll pl') f = Some (kReadEvent, p)" if none: "ctlErrors pl' = []"
  proof
    show "interest (epoll pl') f = Some (kReadEvent, p)"
      using channel_interest(1) [OF k r' none c(2)] c by (simp add: kReadEvent_value)
    show "0 \<le> f"
    proof (rule ccontr)
      assume neg: "\<not> 0 \<le> f"
      obtain e s where e: "ctl EPOLL_CTL_ADD f (kReadEvent, p) (epoll pl) = (e, s)" by force
      have "e = EBADF" using epoll_kernelD(6) [OF k(1) e] neg by simp
      with e c(1) none show False
        by (auto simp: channel_update_def updateChannel_def update_def set_index_def newChannel_def EBADF_def Let_def)
    qed
  qed
  with c r' poller_step_errors [OF st] show thesis by (intro that [of pl' ch]) simp_all
qed

lemma unwatch_channel:
  assumes k: "epoll_kernel ctl interest" "interest s0 = Map.empty" and r: "poller_reach ctl s0 pl" and p: "objects pl p = Some ch"
  obtains pl1 pl2 where "channel_update ctl disableAll p pl = Some pl1" "channel_remove ctl p pl1 = Some pl2"
    "poller_reach ctl s0 (pl2\<lparr>objects := (objects pl2)(p := None)\<rparr>)" "\<exists>xs. ctlErrors pl2 = ctlErrors pl @ xs"
    "ctlErrors pl2 = [] \<Longrightarrow> interest (epoll pl2) (fd ch) = None"
proof -
  from p obtain pl1 ch1 where c1: "channel_update ctl disableAll p pl = Some pl1" "objects pl1 p = Some ch1" "fd ch1 = fd ch"
    by (rule channel_update_object)
  have st1: "poller_step ctl pl pl1" by (rule poller_step.change [OF c1(1)])
  have r1: "poller_reach ctl s0 pl1" by (rule poller_reach.step [OF r st1])
  from c1(2) obtain pl2 ch2 where c2: "channel_remove ctl p pl1 = Some pl2" "objects pl2 p = Some ch2" "fd ch2 = fd ch1"
    "\<not> added2Loop ch2" by (rule channel_remove_object)
  have st2: "poller_step ctl pl1 pl2" by (rule poller_step.remove [OF c2(1)])
  have r2: "poller_reach ctl s0 pl2" by (rule poller_reach.step [OF r1 st2])
  have "interest (epoll pl2) (fd ch) = None" if "ctlErrors pl2 = []"
    using channel_interest(2) [OF k r2 that c2(2)] c1(3) c2(3,4) by simp
  moreover have "\<exists>xs. ctlErrors pl2 = ctlErrors pl @ xs"
    using poller_step_errors [OF st1] poller_step_errors [OF st2] by auto
  ultimately show thesis using c1(1) c2(1) poller_reach.step [OF r2 poller_step.destroy [OF c2(2,4)]] by (intro that)
qed

section \<open>When calls fail\<close>

text \<open>What holds whatever calls fail, as long as no watched descriptor fails to be deleted.\<close>

definition pointers_live :: "('s \<Rightarrow> int \<Rightarrow> (u32 \<times> nat) option) \<Rightarrow> 's Poller \<Rightarrow> bool" where
  "pointers_live interest pl \<longleftrightarrow>
     (\<forall>p ch. objects pl p = Some ch \<longrightarrow>
        index ch \<in> {kNew, kAdded, kDeleted} \<and> (\<not> added2Loop ch \<longrightarrow> index ch = kNew)) \<and>
     (\<forall>p p' ch ch'. objects pl p = Some ch \<longrightarrow> objects pl p' = Some ch' \<longrightarrow> fd ch = fd ch' \<longrightarrow> p = p') \<and>
     (\<forall>f ev p. interest (epoll pl) f = Some (ev, p) \<longrightarrow> (\<exists>ch. objects pl p = Some ch \<and> fd ch = f \<and> index ch = kAdded))"

definition deletions_work :: "'s Poller \<Rightarrow> bool" where
  "deletions_work pl \<longleftrightarrow> (\<forall>e. (EPOLL_CTL_DEL, e) \<in> set (ctlErrors pl) \<longrightarrow> e = ENOENT)"

lemma pointers_live_replace:
  assumes "pointers_live interest pl" "objects pl p = Some ch" "fd ch' = fd ch" "objects pl' = (objects pl)(p \<mapsto> ch')"
    "interest (epoll pl') = (interest (epoll pl))(fd ch := x)" "x = None \<or> (\<exists>ev. x = Some (ev, p)) \<and> index ch' = kAdded"
    "index ch' \<in> {kNew, kAdded, kDeleted}" "\<not> added2Loop ch' \<longrightarrow> index ch' = kNew"
  shows "pointers_live interest pl'"
proof -
  note live = assms(1) [unfolded pointers_live_def]
  have "p1 = p2" if "objects pl' p1 = Some c1" "objects pl' p2 = Some c2" "fd c1 = fd c2" for p1 p2 c1 c2
    using that assms(2-4) live by (auto split: if_splits)
  moreover have "\<exists>c. objects pl' q = Some c \<and> fd c = f \<and> index c = kAdded" if i: "interest (epoll pl') f = Some (ev, q)" for f ev q
  proof (cases "f = fd ch")
    case True
    with i assms(3-6) show ?thesis by auto
  next
    case False
    with i assms(5) have "interest (epoll pl) f = Some (ev, q)" by simp
    then obtain c where c: "objects pl q = Some c" "fd c = f" "index c = kAdded" using live by blast
    with False assms(2) have "q \<noteq> p" by auto
    with c assms(4) show ?thesis by simp
  qed
  moreover have "index c \<in> {kNew, kAdded, kDeleted} \<and> (\<not> added2Loop c \<longrightarrow> index c = kNew)" if "objects pl' q = Some c" for q c
  proof (cases "q = p")
    case True
    with that assms(4,7,8) show ?thesis by simp
  next
    case False
    with that assms(4) have "objects pl q = Some c" by simp
    with live show ?thesis by blast
  qed
  ultimately show ?thesis unfolding pointers_live_def by blast
qed

lemma pointers_live_entry:
  assumes "pointers_live interest pl" "objects pl p = Some ch"
  shows "interest (epoll pl) (fd ch) = None \<or> (\<exists>ev. interest (epoll pl) (fd ch) = Some (ev, p)) \<and> index ch = kAdded"
proof (cases "interest (epoll pl) (fd ch)")
  case (Some e)
  obtain ev q where e: "e = (ev, q)" by (cases e)
  with Some obtain c where "objects pl q = Some c" "fd c = fd ch" "index c = kAdded"
    using assms(1) unfolding pointers_live_def by blast
  moreover then have "q = p" using assms unfolding pointers_live_def by blast
  ultimately show ?thesis using Some e assms(2) by simp
qed simp

lemma channel_update_live:
  assumes "epoll_kernel ctl interest" "pointers_live interest pl" "channel_update ctl i p pl = Some pl'" "deletions_work pl'"
  shows "pointers_live interest pl'"
proof -
  obtain ch where ch: "objects pl p = Some ch" using assms(3) by (auto simp: channel_update_def split: option.splits)
  have kinds: "index ch \<in> {kNew, kAdded, kDeleted}" using assms(2) ch unfolding pointers_live_def by blast
  note entry = pointers_live_entry [OF assms(2) ch]
  let ?ch = "ch\<lparr>events := new_events i (events ch), added2Loop := True\<rparr>"
  let ?pl = "pl\<lparr>objects := (objects pl)(p \<mapsto> ?ch)\<rparr>"
  have pl': "pl' = updateChannel ctl p ?ch ?pl" using assms(3) ch by (simp add: channel_update_def Let_def)
  show ?thesis
  proof (cases "index ch = kAdded")
    case False
    let ?pl1 = "set_index p kAdded
      (if index ?ch = kNew then ?pl\<lparr>channels := (channels ?pl)(fd ?ch \<mapsto> p)\<rparr> else ?pl)"
    have pl1: "pl' = update ctl EPOLL_CTL_ADD p ?ch ?pl1" using pl' kinds False by (auto simp: updateChannel_def Let_def)
    obtain x where x: "interest (epoll pl') = (interest (epoll ?pl1))(fd ?ch := x)"
      "x = interest (epoll ?pl1) (fd ?ch) \<or> EPOLL_CTL_ADD \<noteq> EPOLL_CTL_DEL \<and> x = Some (events ?ch, p) \<or> x = None"
      unfolding pl1 by (rule update_entry [OF assms(1)])
    show ?thesis
      by (rule pointers_live_replace [OF assms(2) ch, of "?ch\<lparr>index := kAdded\<rparr>" _ x])
        (use x entry False pl1 in \<open>auto simp: fun_eq_iff\<close>)
  next
    case added: True
    show ?thesis
    proof (cases "isNonEvent ?ch")
      case True
      let ?u = "update ctl EPOLL_CTL_DEL p ?ch ?pl"
      have pl1: "pl' = set_index p kDeleted ?u" using pl' added True by (simp add: updateChannel_def)
      have ok: "\<forall>e. (EPOLL_CTL_DEL, e) \<in> set (ctlErrors ?u) \<longrightarrow> e = ENOENT"
        using assms(4) pl1 by (simp add: deletions_work_def)
      have "interest (epoll ?u) = (interest (epoll ?pl))(fd ?ch := None)"
        by (rule update_entry [OF assms(1), of EPOLL_CTL_DEL p ?ch ?pl]) (use ok in auto)
      then show ?thesis
        by (intro pointers_live_replace [OF assms(2) ch, of "?ch\<lparr>index := kDeleted\<rparr>" _ None])
          (use pl1 in \<open>auto simp: fun_eq_iff\<close>)
    next
      case False
      have pl1: "pl' = update ctl EPOLL_CTL_MOD p ?ch ?pl" using pl' added False by (simp add: updateChannel_def)
      obtain x where x: "interest (epoll pl') = (interest (epoll ?pl))(fd ?ch := x)"
        "x = interest (epoll ?pl) (fd ?ch) \<or> EPOLL_CTL_MOD \<noteq> EPOLL_CTL_DEL \<and> x = Some (events ?ch, p) \<or> x = None"
        unfolding pl1 by (rule update_entry [OF assms(1)])
      show ?thesis
        by (rule pointers_live_replace [OF assms(2) ch, of ?ch _ x])
          (use x entry added pl1 in \<open>auto simp: fun_eq_iff\<close>)
    qed
  qed
qed

lemma channel_remove_live:
  assumes "epoll_kernel ctl interest" "pointers_live interest pl" "channel_remove ctl p pl = Some pl'" "deletions_work pl'"
  shows "pointers_live interest pl'"
proof -
  obtain ch where ch: "objects pl p = Some ch" using assms(3) by (auto simp: channel_remove_def split: option.splits)
  note entry = pointers_live_entry [OF assms(2) ch]
  let ?ch = "ch\<lparr>added2Loop := False\<rparr>"
  let ?pl = "pl\<lparr>objects := (objects pl)(p \<mapsto> ?ch), channels := (channels pl)(fd ch := None)\<rparr>"
  have pl': "pl' = set_index p kNew (if index ch = kAdded then update ctl EPOLL_CTL_DEL p ?ch ?pl else ?pl)"
    using assms(3) ch by (auto simp: channel_remove_def removeChannel_def Let_def)
  have "interest (epoll pl') = (interest (epoll pl))(fd ch := None)"
  proof (cases "index ch = kAdded")
    case True
    let ?u = "update ctl EPOLL_CTL_DEL p ?ch ?pl"
    have ok: "\<forall>e. (EPOLL_CTL_DEL, e) \<in> set (ctlErrors ?u) \<longrightarrow> e = ENOENT"
      using assms(4) pl' True by (simp add: deletions_work_def)
    have "interest (epoll ?u) = (interest (epoll ?pl))(fd ?ch := None)"
      by (rule update_entry [OF assms(1), of EPOLL_CTL_DEL p ?ch ?pl]) (use ok in auto)
    with pl' True show ?thesis by simp
  next
    case False
    with entry pl' show ?thesis by (auto simp: fun_eq_iff)
  qed
  then show ?thesis
    by (intro pointers_live_replace [OF assms(2) ch, of "?ch\<lparr>index := kNew\<rparr>" _ None])
      (use pl' in \<open>auto simp: fun_eq_iff\<close>)
qed

lemma poll_live: "pointers_live interest pl \<Longrightarrow> pointers_live interest (snd (epoll_poll waited pl))"
proof -
  let ?f = "\<lambda>e pl. pl\<lparr>objects := (objects pl)(snd e := map_option (\<lambda>ch. ch\<lparr>revents := fst e\<rparr>) (objects pl (snd e)))\<rparr>"
  have one: "pointers_live interest (?f e pl)" if inv: "pointers_live interest pl" for e and pl :: "'a Poller"
  proof (cases "objects pl (snd e)")
    case None
    then have "?f e pl = pl" by (simp add: fun_upd_idem)
    with inv show ?thesis by simp
  next
    case (Some ch)
    have "index ch \<in> {kNew, kAdded, kDeleted} \<and> (\<not> added2Loop ch \<longrightarrow> index ch = kNew)"
      using inv Some unfolding pointers_live_def by blast
    with pointers_live_entry [OF inv Some] show ?thesis
      by (intro pointers_live_replace [OF inv Some, of "ch\<lparr>revents := fst e\<rparr>" _ "interest (epoll pl) (fd ch)"])
        (auto simp: Some fun_eq_iff)
  qed
  have "pointers_live interest (fold ?f evs pl)" if "pointers_live interest pl" for evs and pl :: "'a Poller"
    using that by (induction evs arbitrary: pl) (simp_all add: one)
  moreover have "pointers_live interest (pl\<lparr>eventListSize := n\<rparr>) = pointers_live interest pl" for pl :: "'a Poller" and n
    by (simp add: pointers_live_def)
  moreover assume "pointers_live interest pl"
  ultimately show ?thesis
    by (simp add: epoll_poll_def fillActivateChannels_def split: sum.splits)
qed

lemma poller_step_live:
  assumes "epoll_kernel ctl interest" "poller_step ctl pl pl'" "pointers_live interest pl" "deletions_work pl'"
  shows "pointers_live interest pl'"
  using assms(2-4)
proof (induction rule: poller_step.induct)
  case (create pl p f t cbs)
  let ?ch = "(newChannel f)\<lparr>callbacks := cbs, tied := t\<rparr>"
  let ?pl = "pl\<lparr>objects := (objects pl)(p \<mapsto> ?ch)\<rparr>"
  note live = create.prems(1) [unfolded pointers_live_def]
  have "p1 = p2" if "objects ?pl p1 = Some c1" "objects ?pl p2 = Some c2" "fd c1 = fd c2" for p1 p2 c1 c2
  proof -
    have old: "objects pl p1 = Some c1 \<Longrightarrow> fd c1 \<noteq> f" "objects pl p2 = Some c2 \<Longrightarrow> fd c2 \<noteq> f"
      using create.hyps(2) by blast+
    have "objects pl p1 = Some c1 \<Longrightarrow> objects pl p2 = Some c2 \<Longrightarrow> p1 = p2" using live that(3) by blast
    with that old show ?thesis by (cases "p1 = p"; cases "p2 = p") (auto simp: newChannel_def)
  qed
  moreover have "\<exists>c. objects ?pl q = Some c \<and> fd c = g \<and> index c = kAdded" if "interest (epoll ?pl) g = Some (ev, q)" for g ev q
    using that live create.hyps(1) by force
  moreover have "index c \<in> {kNew, kAdded, kDeleted} \<and> (\<not> added2Loop c \<longrightarrow> index c = kNew)" if "objects ?pl q = Some c" for q c
    using that live by (auto simp: newChannel_def split: if_splits)
  ultimately show ?case unfolding pointers_live_def by blast
next
  case (change i p pl pl')
  then show ?case using channel_update_live [OF assms(1)] by blast
next
  case (remove p pl pl')
  then show ?case using channel_remove_live [OF assms(1)] by blast
next
  case (destroy pl p ch)
  note live = destroy.prems(1) [unfolded pointers_live_def]
  have "index ch = kNew" using live destroy.hyps by blast
  with live destroy.hyps(1) show ?case unfolding pointers_live_def by (force split: if_splits)
next
  case (poll pl waited)
  then show ?case by (simp add: poll_live)
qed

lemma poller_reach_live:
  assumes "epoll_kernel ctl interest" "interest s0 = Map.empty" "poller_reach ctl s0 pl" "deletions_work pl"
  shows "pointers_live interest pl"
  using assms(3,4)
proof (induction rule: poller_reach.induct)
  case start
  then show ?case using assms(2) by (simp add: pointers_live_def newPoller_def)
next
  case (step pl pl')
  have "deletions_work pl" using poller_step_errors [OF step.hyps(2)] step.prems by (auto simp: deletions_work_def)
  with step poller_step_live [OF assms(1) step.hyps(2)] show ?case by blast
qed

text \<open>
  C20: The kernel watches exactly what the channels ask for. Whatever channels are created, changed,
  removed and destroyed and whatever is polled: as long as no call of \<open>epoll_ctl\<close> has failed, a channel in
  the loop that is interested in anything is watched with exactly its interest mask, a channel that was
  removed, or never added, is not watched, and every pointer in the interest list is a channel that
  still exists. The poller itself is never the reason of the first failure: it does not add a watched
  descriptor, nor change or delete one that is not watched. After failures of other kinds, even though the code
  only logs them and goes on, the pointers in the interest list still are existing channels, so that a poll
  never delivers a destroyed one, unless it was a deletion of a watched descriptor that failed.
\<close>

theorem interest_is_registered:
  assumes "epoll_kernel ctl interest" "interest s0 = Map.empty" "poller_reach ctl s0 pl"
  shows "(ctlErrors pl = [] \<longrightarrow>
    (\<forall>p ch. objects pl p = Some ch \<longrightarrow>
       (added2Loop ch \<longrightarrow> hasChannel p ch pl \<and>
          (events ch \<noteq> 0 \<longrightarrow> interest (epoll pl) (fd ch) = Some (events ch, p))) \<and>
       (\<not> added2Loop ch \<longrightarrow> interest (epoll pl) (fd ch) = None \<and> \<not> hasChannel p ch pl)) \<and>
    (\<forall>f ev p. interest (epoll pl) f = Some (ev, p) \<longrightarrow>
       (\<exists>ch. objects pl p = Some ch \<and> fd ch = f \<and> events ch = ev))) \<and>
    (\<forall>x xs. ctlErrors pl = x # xs \<longrightarrow> snd x \<noteq> EEXIST \<and> snd x \<noteq> ENOENT) \<and>
    ((\<forall>e. (EPOLL_CTL_DEL, e) \<in> set (ctlErrors pl) \<longrightarrow> e = ENOENT) \<longrightarrow>
       (\<forall>f ev p. interest (epoll pl) f = Some (ev, p) \<longrightarrow> (\<exists>ch. objects pl p = Some ch \<and> fd ch = f)))"
proof (intro conjI)
  show "ctlErrors pl = [] \<longrightarrow>
    (\<forall>p ch. objects pl p = Some ch \<longrightarrow>
       (added2Loop ch \<longrightarrow> hasChannel p ch pl \<and>
          (events ch \<noteq> 0 \<longrightarrow> interest (epoll pl) (fd ch) = Some (events ch, p))) \<and>
       (\<not> added2Loop ch \<longrightarrow> interest (epoll pl) (fd ch) = None \<and> \<not> hasChannel p ch pl)) \<and>
    (\<forall>f ev p. interest (epoll pl) f = Some (ev, p) \<longrightarrow>
       (\<exists>ch. objects pl p = Some ch \<and> fd ch = f \<and> events ch = ev))"
  proof (intro impI conjI)
    assume none: "ctlErrors pl = []"
    with poller_reach_inv [OF assms] have inv: "poller_inv interest pl" by blast
    show "\<forall>f ev p. interest (epoll pl) f = Some (ev, p) \<longrightarrow> (\<exists>ch. objects pl p = Some ch \<and> fd ch = f \<and> events ch = ev)"
    proof (intro allI impI)
      fix f ev p assume i: "interest (epoll pl) f = Some (ev, p)"
      then obtain p' ch where o: "objects pl p' = Some ch" "fd ch = f" using inv unfolding poller_inv_def by blast
      with inv have "channel_ok interest pl p' ch" by (simp add: poller_inv_def)
      with o i show "\<exists>ch. objects pl p = Some ch \<and> fd ch = f \<and> events ch = ev" by (auto simp: channel_ok_def split: if_splits)
    qed
    show "\<forall>p ch. objects pl p = Some ch \<longrightarrow>
       (added2Loop ch \<longrightarrow> hasChannel p ch pl \<and>
          (events ch \<noteq> 0 \<longrightarrow> interest (epoll pl) (fd ch) = Some (events ch, p))) \<and>
       (\<not> added2Loop ch \<longrightarrow> interest (epoll pl) (fd ch) = None \<and> \<not> hasChannel p ch pl)"
      using inv by (auto simp: poller_inv_def channel_ok_def hasChannel_def)
  qed
  show "\<forall>x xs. ctlErrors pl = x # xs \<longrightarrow> snd x \<noteq> EEXIST \<and> snd x \<noteq> ENOENT" using poller_reach_inv [OF assms] by blast
  show "(\<forall>e. (EPOLL_CTL_DEL, e) \<in> set (ctlErrors pl) \<longrightarrow> e = ENOENT) \<longrightarrow>
       (\<forall>f ev p. interest (epoll pl) f = Some (ev, p) \<longrightarrow> (\<exists>ch. objects pl p = Some ch \<and> fd ch = f))"
    using poller_reach_live [OF assms] unfolding deletions_work_def pointers_live_def by blast
qed

text \<open>An epoll instance as its interest list, which can watch two descriptors, and a channel that reads, then also writes.\<close>

definition ENOSPC :: int where "ENOSPC = 28"

definition sample_ctl :: "(int \<times> u32 \<times> nat) list epoll_ctl" where
  "sample_ctl operation f ev s =
     (if f < 0 then (EBADF, s)
      else if operation = EPOLL_CTL_ADD then
        (if map_of s f \<noteq> None then (EEXIST, s) else if 2 \<le> length s then (ENOSPC, s) else (0, (f, ev) # s))
      else if map_of s f = None then (ENOENT, s)
      else (let s = filter (\<lambda>e. fst e \<noteq> f) s in (0, if operation = EPOLL_CTL_DEL then s else (f, ev) # s)))"

lemma sample_kernel: "epoll_kernel sample_ctl map_of"
proof -
  have "map_of (filter (\<lambda>e. fst e \<noteq> f) s) = (map_of s)(f := None)" for f and s :: "(int \<times> u32 \<times> nat) list"
    by (induction s) (auto simp: fun_eq_iff)
  then show ?thesis
    by (auto simp: epoll_kernel_def sample_ctl_def EEXIST_def ENOENT_def EBADF_def ENOSPC_def fun_eq_iff Let_def
        split: if_splits)
qed

definition one_channel :: "(int \<times> u32 \<times> nat) list Poller" where
  "one_channel = (newPoller [])\<lparr>objects := [7 \<mapsto> (newChannel 5)\<lparr>callbacks := {ReadCallback}, tied := False\<rparr>]\<rparr>"

lemma one_channel_run:
  "map_option (\<lambda>pl. (ctlErrors pl, map_option (\<lambda>ch. (fd ch, added2Loop ch, events ch)) (objects pl 7)))
     (Option.bind (channel_update sample_ctl enableReading 7 one_channel) (channel_update sample_ctl enableWriting 7))
   = Some ([], Some (5, True, 7))"
  by code_simp

lemma sample_poller_reach:
  "\<exists>pl ch. poller_reach sample_ctl [] pl \<and> objects pl 7 = Some ch \<and> fd ch = 5 \<and> added2Loop ch \<and> events ch = 7 \<and> ctlErrors pl = []"
proof -
  have "poller_step sample_ctl (newPoller []) one_channel"
    using poller_step.create [of "newPoller []" 7 5 sample_ctl False "{ReadCallback}"]
    by (simp add: one_channel_def newPoller_def)
  then have "poller_reach sample_ctl [] one_channel" by (rule poller_reach.step [OF poller_reach.start])
  moreover obtain p2 pl where "channel_update sample_ctl enableReading 7 one_channel = Some p2"
    "channel_update sample_ctl enableWriting 7 p2 = Some pl"
    and "map_option (\<lambda>ch. (fd ch, added2Loop ch, events ch)) (objects pl 7) = Some (5, True, 7)" "ctlErrors pl = []"
    using one_channel_run by (auto simp: bind_eq_Some_conv)
  ultimately have "poller_reach sample_ctl [] pl" "\<exists>ch. objects pl 7 = Some ch \<and> fd ch = 5 \<and> added2Loop ch \<and> events ch = 7" "ctlErrors pl = []"
    by (auto intro: poller_reach.step [OF _ poller_step.change])
  then show ?thesis by blast
qed

theorem interest_is_registered_witness:
  "\<exists>pl ch. poller_reach sample_ctl [] pl \<and> ctlErrors pl = [] \<and> objects pl 7 = Some ch \<and>
     hasChannel 7 ch pl \<and> map_of (epoll pl) 5 = Some (7, 7)"
proof -
  obtain pl ch where pl: "poller_reach sample_ctl [] pl" "objects pl 7 = Some ch" "fd ch = 5"
    "added2Loop ch" "events ch = 7" "ctlErrors pl = []" using sample_poller_reach by blast
  have "map_of [] = (Map.empty :: int \<Rightarrow> (u32 \<times> nat) option)" by simp
  note reg = interest_is_registered [OF sample_kernel this pl(1), THEN conjunct1, rule_format, OF pl(6), THEN conjunct1,
      rule_format, OF pl(2), THEN conjunct1, rule_format, OF pl(4)]
  from reg pl(3,5) have "hasChannel 7 ch pl" "map_of (epoll pl) 5 = Some (7, 7)" by simp_all
  with pl show ?thesis by blast
qed

text \<open>A third descriptor is refused; its channel is taken for added, and asking for more fails too.\<close>

lemma refused_channel:
  "map_option (\<lambda>pl. (ctlErrors pl, map_option added2Loop (objects pl 7), map_of (epoll pl) 5))
     (Option.bind (channel_update sample_ctl enableReading 7 (one_channel\<lparr>epoll := [(3, 1, 1), (4, 1, 2)]\<rparr>))
        (channel_update sample_ctl enableWriting 7))
   = Some ([(EPOLL_CTL_ADD, ENOSPC), (EPOLL_CTL_MOD, ENOENT)], Some True, None)"
  by code_simp

end
