(* ===== verification/TcpServer.thy ===== *)
theory TcpServer
  imports Poller TcpConnection
begin

text \<open>
  The TCP server and its pool of loops (\<open>src/net/TcpServer.h\<close>, \<open>TcpServer.cc\<close>,
  \<open>EventLoopThreadPool.h\<close>, \<open>EventLoopThreadPool.cc\<close>), over the connections of theory
  \<open>TcpConnection\<close>.

  \<^item> A loop is a number; the base loop is 0. \<open>pending\<close> holds for each loop the functors of the
    server queued there and not yet run; a loop runs them in order (theory \<open>EventLoop\<close>).
  \<^item> A connection object is identified by the number in its name. A functor keeps the object it is
    bound to alive, so objects are never reused; \<open>None\<close> is undefined behaviour: an index out of the
    pool, an object that does not exist, the overflow of the \<open>int\<close> that counts connections.
  \<^item> Which thread calls \<open>runInLoop\<close> is an argument; a step of the relation is what one loop does
    without interruption.
\<close>

section \<open>The pool\<close>

record EventLoopThreadPool =
  pool_started :: bool
  numThreads :: int
  next_loop :: nat
  loops :: "nat list"

definition baseLoop :: nat where "baseLoop = 0"

definition newEventLoopThreadPool :: EventLoopThreadPool where
  "newEventLoopThreadPool = \<lparr>pool_started = False, numThreads = 0, next_loop = 0, loops = []\<rparr>"

definition setThreadNum :: "int \<Rightarrow> EventLoopThreadPool \<Rightarrow> EventLoopThreadPool" where
  "setThreadNum n p = p\<lparr>numThreads := n\<rparr>"

text \<open>\<open>startLoop i\<close> is the loop that the \<open>i\<close>-th thread creates.\<close>

definition pool_start :: "(nat \<Rightarrow> nat) \<Rightarrow> EventLoopThreadPool \<Rightarrow> EventLoopThreadPool" where
  "pool_start startLoop p =
     p\<lparr>pool_started := True, loops := loops p @ map startLoop [0..<nat (numThreads p)]\<rparr>"

definition getNextLoop :: "EventLoopThreadPool \<Rightarrow> (nat \<times> EventLoopThreadPool) option" where
  "getNextLoop p =
     (if loops p \<noteq> [] then
        (if next_loop p < length (loops p) then
           (let n = next_loop p + 1;
                n = (if n \<ge> length (loops p) then 0 else n)
            in Some (loops p ! next_loop p, p\<lparr>next_loop := n\<rparr>))
         else None)
      else Some (baseLoop, p))"

definition getAllLoops :: "EventLoopThreadPool \<Rightarrow> nat list" where
  "getAllLoops p = (if loops p = [] then [baseLoop] else loops p)"

section \<open>The server\<close>

record Conn =
  conn_name :: string
  conn_loop :: nat
  conn_fd :: int
  localAddr :: sockaddr_in
  peerAddr :: sockaddr_in
  tcp :: TcpConnection

datatype ServerFunctor =
    ConnectEstablished nat
  | RemoveConnectionInLoop nat
  | ConnectDestroyed nat

record TcpServer =
  server_name :: string
  ipPort :: string
  threadPool :: EventLoopThreadPool
  hasWriteComplete :: bool
  started :: nat
  nextConnId :: int
  connections :: "string \<rightharpoonup> nat"
  objects :: "nat \<rightharpoonup> Conn"
  pending :: "nat \<Rightarrow> ServerFunctor list"
  listening :: bool

definition newTcpServer :: "string \<Rightarrow> string \<Rightarrow> bool \<Rightarrow> TcpServer" where
  "newTcpServer nm addr wc =
     \<lparr>server_name = nm, ipPort = addr, threadPool = newEventLoopThreadPool, hasWriteComplete = wc,
      started = 0, nextConnId = 1, connections = Map.empty, objects = Map.empty, pending = (\<lambda>_. []),
      listening = False\<rparr>"

text \<open>Called in the base loop's thread, so \<open>Acceptor::listen\<close> runs at once.\<close>

definition tcp_start :: "(nat \<Rightarrow> nat) \<Rightarrow> TcpServer \<Rightarrow> TcpServer" where
  "tcp_start startLoop srv =
     (let first = (started srv = 0); srv = srv\<lparr>started := started srv + 1\<rparr> in
      if first then srv\<lparr>threadPool := pool_start startLoop (threadPool srv), listening := True\<rparr> else srv)"

definition update_conn :: "nat \<Rightarrow> (TcpConnection \<Rightarrow> TcpConnection) \<Rightarrow> TcpServer \<Rightarrow> TcpServer option" where
  "update_conn i f srv =
     (case objects srv i of
        None \<Rightarrow> None
      | Some ob \<Rightarrow> Some (srv\<lparr>objects := (objects srv)(i \<mapsto> ob\<lparr>tcp := f (tcp ob)\<rparr>)\<rparr>))"

definition queue_functor :: "nat \<Rightarrow> ServerFunctor \<Rightarrow> TcpServer \<Rightarrow> TcpServer" where
  "queue_functor l f srv = srv\<lparr>pending := (pending srv)(l := pending srv l @ [f])\<rparr>"

definition removeConnectionInLoop :: "nat \<Rightarrow> TcpServer \<Rightarrow> TcpServer option" where
  "removeConnectionInLoop i srv =
     (case objects srv i of
        None \<Rightarrow> None
      | Some ob \<Rightarrow>
          Some (queue_functor (conn_loop ob) (ConnectDestroyed i)
            (srv\<lparr>connections := (connections srv)(conn_name ob := None)\<rparr>)))"

fun call_functor :: "ServerFunctor \<Rightarrow> TcpServer \<Rightarrow> TcpServer option" where
  "call_functor (ConnectEstablished i) srv = update_conn i connectEstablished srv"
| "call_functor (RemoveConnectionInLoop i) srv = removeConnectionInLoop i srv"
| "call_functor (ConnectDestroyed i) srv = update_conn i connectDestroyed srv"

text \<open>\<open>EventLoop::runInLoop\<close> of the loop \<open>l\<close>, called in the thread of the loop \<open>caller\<close>.\<close>

definition run_in_loop :: "nat \<Rightarrow> nat \<Rightarrow> ServerFunctor \<Rightarrow> TcpServer \<Rightarrow> TcpServer option" where
  "run_in_loop caller l f srv = (if caller = l then call_functor f srv else Some (queue_functor l f srv))"

definition connName :: "TcpServer \<Rightarrow> int \<Rightarrow> string" where
  "connName srv n = server_name srv @ ''-'' @ ipPort srv @ ''#'' @ to_string (nat n)"

definition INT_MAX :: int where "INT_MAX = 2 ^ 31 - 1"

text \<open>\<open>local\<close> is what \<open>getLocalAddr(sockfd)\<close> has returned.\<close>

definition newConnection :: "int \<Rightarrow> sockaddr_in \<Rightarrow> sockaddr_in \<Rightarrow> TcpServer \<Rightarrow> TcpServer option" where
  "newConnection sockfd local peer srv =
     (case getNextLoop (threadPool srv) of
        None \<Rightarrow> None
      | Some (ioLoop, pool) \<Rightarrow>
          (if nextConnId srv = INT_MAX then None
           else
             let nm = connName srv (nextConnId srv);
                 i = nat (nextConnId srv);
                 ob = \<lparr>conn_name = nm, conn_loop = ioLoop, conn_fd = sockfd, localAddr = local, peerAddr = peer,
                       tcp = newTcpConnection\<lparr>hasWriteCompleteCallback := hasWriteComplete srv\<rparr>\<rparr>;
                 srv = srv\<lparr>threadPool := pool, nextConnId := nextConnId srv + 1,
                           connections := (connections srv)(nm \<mapsto> i), objects := (objects srv)(i \<mapsto> ob)\<rparr>
             in run_in_loop baseLoop ioLoop (ConnectEstablished i) srv))"

definition removeConnection :: "nat \<Rightarrow> nat \<Rightarrow> TcpServer \<Rightarrow> TcpServer option" where
  "removeConnection caller i srv = run_in_loop caller baseLoop (RemoveConnectionInLoop i) srv"

text \<open>
  One callback of a connection's channel, in the connection's loop. The close callback of a
  connection is \<open>TcpServer::removeConnection\<close>, and \<open>handleClose\<close> calls it last.
\<close>

fun channel_callback ::
  "(nat \<Rightarrow> int + string) \<Rightarrow> (string \<Rightarrow> int + nat) \<Rightarrow> EventCallback \<Rightarrow> TcpConnection \<Rightarrow> TcpConnection" where
  "channel_callback readv w ReadCallback c = handleRead readv c"
| "channel_callback readv w WriteCallback c = handleWrite w c"
| "channel_callback readv w EventCallback.CloseCallback c = handleClose c"
| "channel_callback readv w ErrorCallback c = handleError c"

definition closes :: "TcpConnection \<Rightarrow> TcpConnection \<Rightarrow> bool" where
  "closes c c' \<longleftrightarrow>
     UserCallback.CloseCallback \<in> set (drop (length (TcpConnection.callbacks c)) (TcpConnection.callbacks c'))"

definition channel_call ::
  "(nat \<Rightarrow> int + string) \<Rightarrow> (string \<Rightarrow> int + nat) \<Rightarrow> nat \<Rightarrow> EventCallback \<Rightarrow> TcpServer \<Rightarrow> TcpServer option" where
  "channel_call readv w i cb srv =
     (case objects srv i of
        None \<Rightarrow> None
      | Some ob \<Rightarrow>
          (let c = channel_callback readv w cb (tcp ob);
               srv = srv\<lparr>objects := (objects srv)(i \<mapsto> ob\<lparr>tcp := c\<rparr>)\<rparr>
           in if closes (tcp ob) c then removeConnection (conn_loop ob) i srv else Some srv))"

fun channel_calls ::
  "(nat \<Rightarrow> int + string) \<Rightarrow> (string \<Rightarrow> int + nat) \<Rightarrow> nat \<Rightarrow> EventCallback list \<Rightarrow> TcpServer \<Rightarrow> TcpServer option" where
  "channel_calls readv w i [] srv = Some srv"
| "channel_calls readv w i (cb # cbs) srv =
     (case channel_call readv w i cb srv of None \<Rightarrow> None | Some srv \<Rightarrow> channel_calls readv w i cbs srv)"

text \<open>The channel of a connection: all four callbacks are set, and it is tied to its connection.\<close>

definition conn_channel :: "u32 \<Rightarrow> Channel" where
  "conn_channel r = (newChannel 0)\<lparr>tied := True, Channel.callbacks := UNIV, revents := r\<rparr>"

definition channel_event ::
  "(nat \<Rightarrow> int + string) \<Rightarrow> (string \<Rightarrow> int + nat) \<Rightarrow> nat \<Rightarrow> u32 \<Rightarrow> TcpServer \<Rightarrow> TcpServer option" where
  "channel_event readv w i r srv =
     channel_calls readv w i (handleEvent (objects srv i \<noteq> None) (conn_channel r)) srv"

text \<open>
  What epoll is taken to report of a TCP socket: a hang-up without readable data comes without urgent data
  (the kernel sets \<open>EPOLLIN\<close> together with \<open>EPOLLHUP\<close>; the documentation does not promise it).
\<close>

definition kernel_revents :: "u32 \<Rightarrow> bool" where
  "kernel_revents r \<longleftrightarrow> (r AND EPOLLHUP \<noteq> 0 \<and> r AND EPOLLIN = 0 \<longrightarrow> r AND EPOLLPRI = 0)"

definition started_server :: "(nat \<Rightarrow> nat) \<Rightarrow> int \<Rightarrow> string \<Rightarrow> string \<Rightarrow> bool \<Rightarrow> TcpServer" where
  "started_server startLoop n nm addr wc =
     (let srv = newTcpServer nm addr wc in
      tcp_start startLoop (srv\<lparr>threadPool := setThreadNum n (threadPool srv)\<rparr>))"

inductive functor_step :: "TcpServer \<Rightarrow> TcpServer \<Rightarrow> bool" where
  call: "pending srv l = f # fs \<Longrightarrow> call_functor f (srv\<lparr>pending := (pending srv)(l := fs)\<rparr>) = Some srv' \<Longrightarrow>
    functor_step srv srv'"

inductive_cases functor_stepE: "functor_step srv srv'"

inductive tcp_step :: "TcpServer \<Rightarrow> TcpServer \<Rightarrow> bool" where
  accept: "listening srv \<Longrightarrow> newConnection sockfd local peer srv = Some srv' \<Longrightarrow> tcp_step srv srv'"
| run_pending: "functor_step srv srv' \<Longrightarrow> tcp_step srv srv'"
| channel: "objects srv i = Some ob \<Longrightarrow> chan_registered (tcp ob) \<Longrightarrow> chan_reading (tcp ob) \<Longrightarrow> kernel_revents r \<Longrightarrow>
    channel_event readv w i r srv = Some srv' \<Longrightarrow> tcp_step srv srv'"
| user_send: "update_conn i (send w in_loop data) srv = Some srv' \<Longrightarrow> tcp_step srv srv'"
| user_shutdown: "update_conn i (shutdown in_loop) srv = Some srv' \<Longrightarrow> tcp_step srv srv'"
| conn_functor: "objects srv i = Some ob \<Longrightarrow> queued (tcp ob) = f # fs \<Longrightarrow>
    update_conn i (\<lambda>c. run_functor w f (c\<lparr>queued := fs\<rparr>)) srv = Some srv' \<Longrightarrow> tcp_step srv srv'"

inductive tcp_reach :: "TcpServer \<Rightarrow> bool" where
  start: "tcp_reach (started_server startLoop n nm addr wc)"
| step: "tcp_reach srv \<Longrightarrow> tcp_step srv srv' \<Longrightarrow> tcp_reach srv'"

section \<open>Connection names\<close>

definition dec_value :: "string \<Rightarrow> nat" where
  "dec_value s = foldl (\<lambda>v c. v * 10 + (of_char c - 48)) 0 s"

lemma dec_value_digits: "dec_value (dec_digits n acc) = foldl (\<lambda>v c. v * 10 + (of_char c - 48)) n acc"
proof (induction n acc rule: dec_digits.induct)
  case (1 n acc)
  have d: "of_char (char_of (48 + n mod 10) :: char) = (48 + n mod 10 :: nat)" by simp
  show ?case
  proof (cases "n < 10")
    case True
    then show ?thesis using d by (simp add: dec_digits.simps [of n] dec_value_def Let_def)
  next
    case False
    then have "dec_value (dec_digits n acc) =
        foldl (\<lambda>v c. v * 10 + (of_char c - 48)) (n div 10) (char_of (48 + n mod 10) # acc)"
      using 1 by (simp add: dec_digits.simps [of n] Let_def)
    moreover have "n div 10 * 10 + n mod 10 = n" by simp
    ultimately show ?thesis using d by simp
  qed
qed

lemma dec_value_to_string: "dec_value (to_string n) = n"
  unfolding to_string_def dec_value_digits by simp

lemma to_string_inj: "to_string m = to_string n \<Longrightarrow> m = n"
  using dec_value_to_string by metis

lemma connName_inj: "connName srv (int i) = connName srv (int j) \<Longrightarrow> i = j"
  by (auto simp: connName_def dest: to_string_inj)

section \<open>The life of a connection\<close>

definition quiet :: "UserCallback list \<Rightarrow> bool" where
  "quiet us \<longleftrightarrow> set us \<subseteq> {MessageCallback, ErrorLogged}"

definition waiting_conn :: "TcpConnection \<Rightarrow> bool" where
  "waiting_conn c \<longleftrightarrow> state c = kConnecting \<and> TcpConnection.callbacks c = [] \<and> queued c = [] \<and>
     \<not> chan_reading c \<and> \<not> chan_writing c \<and> \<not> chan_registered c"

definition open_conn :: "TcpConnection \<Rightarrow> bool" where
  "open_conn c \<longleftrightarrow> state c \<in> {kConnected, kDisconnecting} \<and> chan_reading c \<and> chan_registered c \<and>
     (\<exists>ms. TcpConnection.callbacks c = ConnectionCallback True # ms \<and> quiet ms)"

definition closed_conn :: "TcpConnection \<Rightarrow> bool" where
  "closed_conn c \<longleftrightarrow> state c = kDisconnected \<and> \<not> chan_reading c \<and> \<not> chan_writing c \<and>
     (\<exists>ms es. TcpConnection.callbacks c =
        ConnectionCallback True # ms @ [ConnectionCallback False, UserCallback.CloseCallback] @ es \<and>
        quiet ms \<and> set es \<subseteq> {ErrorLogged})"

text \<open>
  The phases of a connection: the functors of the server that wait for it (establish, remove,
  destroy), whether the server's table has it, and its own state.
\<close>

definition life :: "nat \<times> nat \<times> nat \<times> bool \<Rightarrow> TcpConnection \<Rightarrow> bool" where
  "life t c \<longleftrightarrow>
     t = (1, 0, 0, True) \<and> waiting_conn c \<or>
     t = (0, 0, 0, True) \<and> open_conn c \<or>
     t = (0, 1, 0, True) \<and> closed_conn c \<and> chan_registered c \<or>
     t = (0, 0, 1, False) \<and> closed_conn c \<and> chan_registered c \<or>
     t = (0, 0, 0, False) \<and> closed_conn c \<and> \<not> chan_registered c"

definition tokens :: "TcpServer \<Rightarrow> nat \<Rightarrow> Conn \<Rightarrow> nat \<times> nat \<times> nat \<times> bool" where
  "tokens srv i ob =
     (count_list (pending srv (conn_loop ob)) (ConnectEstablished i),
      count_list (pending srv baseLoop) (RemoveConnectionInLoop i),
      count_list (pending srv (conn_loop ob)) (ConnectDestroyed i),
      connections srv (conn_name ob) = Some i)"

fun functor_ok :: "(nat \<rightharpoonup> Conn) \<Rightarrow> nat \<Rightarrow> ServerFunctor \<Rightarrow> bool" where
  "functor_ok obs l (ConnectEstablished i) \<longleftrightarrow> (\<exists>ob. obs i = Some ob \<and> conn_loop ob = l)"
| "functor_ok obs l (RemoveConnectionInLoop i) \<longleftrightarrow> l = baseLoop \<and> (\<exists>ob. obs i = Some ob)"
| "functor_ok obs l (ConnectDestroyed i) \<longleftrightarrow> (\<exists>ob. obs i = Some ob \<and> conn_loop ob = l)"

definition conn_ok :: "TcpServer \<Rightarrow> nat \<Rightarrow> Conn \<Rightarrow> bool" where
  "conn_ok srv i ob \<longleftrightarrow> life (tokens srv i ob) (tcp ob) \<and> conn_name ob = connName srv (int i) \<and>
     int i < nextConnId srv"

definition server_inv :: "TcpServer \<Rightarrow> bool" where
  "server_inv srv \<longleftrightarrow>
     (\<forall>i ob. objects srv i = Some ob \<longrightarrow> conn_ok srv i ob) \<and>
     (\<forall>l f. f \<in> set (pending srv l) \<longrightarrow> functor_ok (objects srv) l f) \<and>
     (\<forall>n i. connections srv n = Some i \<longrightarrow> (\<exists>ob. objects srv i = Some ob \<and> conn_name ob = n)) \<and>
     (loops (threadPool srv) \<noteq> [] \<longrightarrow> next_loop (threadPool srv) < length (loops (threadPool srv))) \<and>
     1 \<le> nextConnId srv \<and> nextConnId srv \<le> INT_MAX"

text \<open>What the operations of a connection do to its life.\<close>

definition keeps :: "TcpConnection \<Rightarrow> TcpConnection \<Rightarrow> bool" where
  "keeps c c' \<longleftrightarrow>
     (state c' = state c \<or> state c = kConnected \<and> state c' = kDisconnecting) \<and>
     TcpConnection.callbacks c' = TcpConnection.callbacks c \<and> chan_reading c' = chan_reading c \<and>
     chan_registered c' = chan_registered c \<and>
     (state c \<in> {kConnecting, kDisconnected} \<longrightarrow> chan_writing c \<or> \<not> chan_writing c') \<and>
     (state c = kConnecting \<longrightarrow> queued c' = queued c)"

lemma life_keeps: "keeps c c' \<Longrightarrow> life t c \<Longrightarrow> life t c'"
proof -
  assume k: "keeps c c'"
  then have "waiting_conn c \<Longrightarrow> waiting_conn c'" "open_conn c \<Longrightarrow> open_conn c'" "closed_conn c \<Longrightarrow> closed_conn c'"
    "chan_registered c' = chan_registered c"
    by (auto simp: keeps_def waiting_conn_def open_conn_def closed_conn_def)
  then show "life t c \<Longrightarrow> life t c'" unfolding life_def by metis
qed

lemma queueInLoop_keeps: "state c \<noteq> kConnecting \<Longrightarrow> keeps c (queueInLoop f c)"
  by (simp add: keeps_def queueInLoop_def)

lemma sendInLoop_keeps: "state c \<noteq> kConnecting \<Longrightarrow> keeps c (sendInLoop w d c)"
  by (auto simp: keeps_def sendInLoop_def queueInLoop_def Let_def split: sum.splits)

lemma send_keeps: "keeps c (send w b d c)"
  using sendInLoop_keeps queueInLoop_keeps by (auto simp: send_def) (auto simp: keeps_def)

lemma shutdown_keeps: "keeps c (shutdown b c)"
  by (auto simp: keeps_def shutdown_def shutdownInLoop_def queueInLoop_def Let_def)

lemma run_functor_keeps:
  assumes "state c \<noteq> kConnecting" shows "keeps c (run_functor w f (c\<lparr>queued := fs\<rparr>))"
proof -
  have "keeps (c\<lparr>queued := fs\<rparr>) (run_functor w f (c\<lparr>queued := fs\<rparr>))"
    using assms sendInLoop_keeps [of "c\<lparr>queued := fs\<rparr>" w]
    by (auto simp: run_functor_def shutdownInLoop_def split: Functor.splits) (auto simp: keeps_def)
  then show ?thesis using assms by (simp add: keeps_def)
qed

lemma handleWrite_keeps: "state c \<noteq> kConnecting \<Longrightarrow> keeps c (handleWrite w c)"
  by (auto simp: keeps_def handleWrite_def shutdownInLoop_def queueInLoop_def Let_def split: sum.splits)

lemma quiet_snoc: "quiet (us @ [u]) \<longleftrightarrow> quiet us \<and> u \<in> {MessageCallback, ErrorLogged}"
  by (auto simp: quiet_def)

lemma established_open: "waiting_conn c \<Longrightarrow> open_conn (connectEstablished c)"
  by (simp add: waiting_conn_def open_conn_def connectEstablished_def callback_def quiet_def)

lemma destroyed_closed: "closed_conn c \<Longrightarrow> closed_conn (connectDestroyed c) \<and> \<not> chan_registered (connectDestroyed c)"
  by (simp add: closed_conn_def connectDestroyed_def)

lemma handleClose_closed:
  assumes "open_conn c"
  shows "closed_conn (handleClose c) \<and> chan_registered (handleClose c)" "closes c (handleClose c)"
proof -
  obtain ms where "TcpConnection.callbacks c = ConnectionCallback True # ms" "quiet ms"
    using assms by (auto simp: open_conn_def)
  then have "TcpConnection.callbacks (handleClose c) =
      ConnectionCallback True # ms @ [ConnectionCallback False, UserCallback.CloseCallback] @ [] \<and> quiet ms"
    by (simp add: handleClose_def callback_def)
  then show "closed_conn (handleClose c) \<and> chan_registered (handleClose c)"
    using assms unfolding closed_conn_def
    by (fastforce simp: open_conn_def handleClose_def callback_def)
  show "closes c (handleClose c)" by (simp add: closes_def handleClose_def callback_def)
qed

lemma open_callback:
  "open_conn c \<Longrightarrow> u \<in> {MessageCallback, ErrorLogged} \<Longrightarrow> open_conn (callback u c) \<and> \<not> closes c (callback u c)"
  by (auto simp: open_conn_def callback_def closes_def quiet_snoc)

lemma open_input: "open_conn (c\<lparr>inputBuffer := b\<rparr>) = open_conn c" "closes (c\<lparr>inputBuffer := b\<rparr>) c' = closes c c'"
  by (simp_all add: open_conn_def closes_def)

text \<open>A callback of the channel leaves an open connection open, or closes it and says so.\<close>

lemma channel_callback_open:
  assumes "open_conn c" "c' = channel_callback readv w cb c"
  shows "open_conn c' \<and> \<not> closes c c' \<or>
    closed_conn c' \<and> chan_registered c' \<and> closes c c' \<and> cb \<in> {ReadCallback, EventCallback.CloseCallback}"
proof (cases cb)
  case ReadCallback
  obtain r b where r: "readFd readv (inputBuffer c) = (r, b)" by (cases "readFd readv (inputBuffer c)")
  have c: "open_conn (c\<lparr>inputBuffer := b\<rparr>)" using assms(1) by (simp add: open_input)
  show ?thesis
    using r assms(2) ReadCallback open_callback [OF c] handleClose_closed [OF c]
    by (cases r) (auto simp: handleRead_def handleError_def open_input)
next
  case WriteCallback
  have "keeps c c'" using handleWrite_keeps [of c] assms WriteCallback by (auto simp: open_conn_def)
  then show ?thesis using assms(1) by (auto simp: keeps_def open_conn_def closes_def)
next
  case CloseCallback
  then show ?thesis using assms handleClose_closed by simp
next
  case ErrorCallback
  then show ?thesis using assms open_callback by (simp add: handleError_def)
qed

lemma channel_callback_closed:
  assumes "closed_conn c" "c' = channel_callback readv w cb c" "cb \<in> {WriteCallback, ErrorCallback}"
  shows "closed_conn c' \<and> chan_registered c' = chan_registered c \<and> \<not> closes c c'"
proof (cases "cb = WriteCallback")
  case True
  then show ?thesis using assms by (simp add: closed_conn_def handleWrite_def closes_def)
next
  case False
  obtain ms es where cbs: "TcpConnection.callbacks c =
      ConnectionCallback True # ms @ [ConnectionCallback False, UserCallback.CloseCallback] @ es"
      "quiet ms" "set es \<subseteq> {ErrorLogged}" using assms(1) by (auto simp: closed_conn_def)
  have c': "c' = callback ErrorLogged c" using assms False by (auto simp: handleError_def)
  have "TcpConnection.callbacks c' = ConnectionCallback True # ms @
      [ConnectionCallback False, UserCallback.CloseCallback] @ (es @ [ErrorLogged])" "set (es @ [ErrorLogged]) \<subseteq> {ErrorLogged}"
    using cbs by (auto simp: c' callback_def)
  moreover have "state c' = kDisconnected" "\<not> chan_reading c'" "\<not> chan_writing c'"
    "chan_registered c' = chan_registered c" "\<not> closes c c'"
    using assms(1) by (simp_all add: c' closed_conn_def callback_def closes_def)
  ultimately show ?thesis using cbs(2) unfolding closed_conn_def by blast
qed

section \<open>Every step keeps the invariant\<close>

fun subject :: "ServerFunctor \<Rightarrow> nat" where
  "subject (ConnectEstablished i) = i"
| "subject (RemoveConnectionInLoop i) = i"
| "subject (ConnectDestroyed i) = i"

lemma tokens_frame:
  "tokens (srv\<lparr>objects := obs\<rparr>) j obj = tokens srv j obj"
  "subject f \<noteq> j \<Longrightarrow> tokens (queue_functor l f srv) j obj = tokens srv j obj"
  "conn_name obj \<noteq> nm \<Longrightarrow> tokens (srv\<lparr>connections := (connections srv)(nm := v)\<rparr>) j obj = tokens srv j obj"
  "pending srv l = f # fs \<Longrightarrow> subject f \<noteq> j \<Longrightarrow> tokens (srv\<lparr>pending := (pending srv)(l := fs)\<rparr>) j obj = tokens srv j obj"
  by (cases f; auto simp: tokens_def queue_functor_def)+

lemma conn_names_differ:
  "server_inv srv \<Longrightarrow> objects srv i = Some ob \<Longrightarrow> objects srv j = Some obj \<Longrightarrow> j \<noteq> i \<Longrightarrow> conn_name obj \<noteq> conn_name ob"
  using connName_inj by (fastforce simp: server_inv_def conn_ok_def)

lemma server_inv_life: "server_inv srv \<Longrightarrow> objects srv i = Some ob \<Longrightarrow> life (tokens srv i ob) (tcp ob)"
  by (simp add: server_inv_def conn_ok_def)

lemma functor_ok_update: "obs i = Some ob \<Longrightarrow> functor_ok (obs(i \<mapsto> ob\<lparr>tcp := c\<rparr>)) l f = functor_ok obs l f"
  by (cases f) (auto split: if_splits)

text \<open>The frame of every step that concerns one connection.\<close>

lemma server_inv_change:
  assumes inv: "server_inv srv" and ob: "objects srv i = Some ob"
    and frame: "server_name srv' = server_name srv" "ipPort srv' = ipPort srv" "threadPool srv' = threadPool srv"
      "nextConnId srv' = nextConnId srv" "objects srv' = (objects srv)(i \<mapsto> ob\<lparr>tcp := c\<rparr>)"
    and pend: "\<And>l f. f \<in> set (pending srv' l) \<Longrightarrow> functor_ok (objects srv) l f"
    and conns: "\<And>n j. connections srv' n = Some j \<Longrightarrow> connections srv n = Some j"
    and other: "\<And>j obj. objects srv j = Some obj \<Longrightarrow> j \<noteq> i \<Longrightarrow> tokens srv' j obj = tokens srv j obj"
    and self: "life (tokens srv' i ob) c"
  shows "server_inv srv'"
proof -
  have name: "connName srv' = connName srv" using frame by (simp add: fun_eq_iff connName_def)
  have tok: "tokens srv' i (ob\<lparr>tcp := c\<rparr>) = tokens srv' i ob" by (simp add: tokens_def)
  have "conn_ok srv' j obj" if "objects srv' j = Some obj" for j obj
  proof (cases "j = i")
    case True
    then show ?thesis
      using that inv ob frame self tok name by (auto simp: server_inv_def conn_ok_def)
  next
    case False
    then have old: "objects srv j = Some obj" using that frame by simp
    then have "conn_ok srv j obj" using inv by (simp add: server_inv_def)
    with other [OF old False] name frame show ?thesis by (simp add: conn_ok_def)
  qed
  moreover have "functor_ok (objects srv') l f" if "f \<in> set (pending srv' l)" for l f
    using pend [OF that] functor_ok_update [of "objects srv" i ob c l f] ob frame(5) by simp
  moreover have "\<exists>obj. objects srv' j = Some obj \<and> conn_name obj = n" if n: "connections srv' n = Some j" for n j
  proof -
    obtain obj where "objects srv j = Some obj" "conn_name obj = n"
      using inv conns [OF n] unfolding server_inv_def by blast
    then show ?thesis using ob frame(5) by (cases "j = i") auto
  qed
  ultimately show ?thesis using inv frame unfolding server_inv_def by simp
qed

lemma server_inv_pending: "server_inv srv \<Longrightarrow> f \<in> set (pending srv l) \<Longrightarrow> functor_ok (objects srv) l f"
  by (simp add: server_inv_def)

lemma update_conn_inv:
  assumes "server_inv srv" "objects srv i = Some ob" "life (tokens srv i ob) (f (tcp ob))"
  shows "\<exists>srv'. update_conn i f srv = Some srv' \<and> server_inv srv'"
proof -
  let ?srv = "srv\<lparr>objects := (objects srv)(i \<mapsto> ob\<lparr>tcp := f (tcp ob)\<rparr>)\<rparr>"
  have "server_inv ?srv"
    using assms server_inv_pending [OF assms(1)] tokens_frame(1)
    by (intro server_inv_change [OF assms(1,2), where c = "f (tcp ob)"]) simp_all
  with assms(2) show ?thesis by (simp add: update_conn_def)
qed

lemma life_cases:
  assumes "life (e, r, d, k) c"
  shows "0 < e \<Longrightarrow> e = 1 \<and> r = 0 \<and> d = 0 \<and> k \<and> waiting_conn c"
    "0 < r \<Longrightarrow> e = 0 \<and> r = 1 \<and> d = 0 \<and> k \<and> closed_conn c \<and> chan_registered c"
    "0 < d \<Longrightarrow> e = 0 \<and> r = 0 \<and> d = 1 \<and> \<not> k \<and> closed_conn c \<and> chan_registered c"
    "open_conn c \<Longrightarrow> e = 0 \<and> r = 0 \<and> d = 0 \<and> k"
  using assms by (auto simp: life_def waiting_conn_def open_conn_def closed_conn_def)

lemma run_pending_inv:
  assumes inv: "server_inv srv" and p: "pending srv l = f # fs"
  shows "\<exists>srv'. call_functor f (srv\<lparr>pending := (pending srv)(l := fs)\<rparr>) = Some srv' \<and> server_inv srv'"
proof -
  let ?srv = "srv\<lparr>pending := (pending srv)(l := fs)\<rparr>" and ?i = "subject f"
  have fok: "functor_ok (objects srv) l f" using inv p by (simp add: server_inv_def)
  then obtain ob where ob: "objects srv ?i = Some ob" by (cases f) auto
  have rest: "functor_ok (objects srv) l' g" if "g \<in> set (pending ?srv l')" for l' g
    using that p server_inv_pending [OF inv, of g l'] by (auto split: if_splits)
  have lf: "life (tokens srv ?i ob) (tcp ob)" using server_inv_life [OF inv ob] .
  note change = server_inv_change [OF inv ob]
  show ?thesis
  proof (cases f)
    case (ConnectEstablished i)
    then have l: "conn_loop ob = l" using fok ob by simp
    have t: "tokens ?srv i ob = (0, 0, 0, True)" "waiting_conn (tcp ob)"
      using life_cases(1) [OF lf [unfolded tokens_def]] ConnectEstablished p l by (auto simp: tokens_def split: if_splits)
    let ?c = "connectEstablished (tcp ob)"
    have "server_inv (?srv\<lparr>objects := (objects srv)(i \<mapsto> ob\<lparr>tcp := ?c\<rparr>)\<rparr>)"
      using t established_open [of "tcp ob"] ConnectEstablished rest tokens_frame(4) [OF p]
      by (intro change [where c = ?c]) (simp_all add: tokens_frame life_def)
    with ob ConnectEstablished show ?thesis by (simp add: update_conn_def)
  next
    case (RemoveConnectionInLoop i)
    then have l: "l = baseLoop" using fok by simp
    have t: "tokens srv i ob = (0, 1, 0, True)" "closed_conn (tcp ob)" "chan_registered (tcp ob)"
      using life_cases(2) [OF lf [unfolded tokens_def]] RemoveConnectionInLoop p l by (auto simp: tokens_def)
    let ?srv' = "queue_functor (conn_loop ob) (ConnectDestroyed i) (?srv\<lparr>connections := (connections srv)(conn_name ob := None)\<rparr>)"
    have t': "tokens ?srv' i ob = (0, 0, 1, False)"
      using t(1) p l RemoveConnectionInLoop by (auto simp: tokens_def queue_functor_def split: if_splits)
    have o: "tokens ?srv' j obj = tokens srv j obj" if "objects srv j = Some obj" "j \<noteq> i" for j obj
    proof -
      have "conn_name obj \<noteq> conn_name ob"
        using conn_names_differ [OF inv ob that(1)] that(2) RemoveConnectionInLoop by simp
      with that(2) tokens_frame(4) [OF p, of j obj] RemoveConnectionInLoop
      show ?thesis using tokens_frame(3) [of obj "conn_name ob" ?srv None j] by (simp add: tokens_frame(2))
    qed
    have "server_inv ?srv'"
    proof (rule change [where c = "tcp ob"])
      show "functor_ok (objects srv) l' g" if "g \<in> set (pending ?srv' l')" for l' g
        using that rest [of g l'] ob RemoveConnectionInLoop by (auto simp: queue_functor_def split: if_splits)
      show "connections srv n = Some j" if "connections ?srv' n = Some j" for n j
        using that by (simp add: queue_functor_def split: if_splits)
      show "life (tokens ?srv' (subject f) ob) (tcp ob)" using t t' RemoveConnectionInLoop by (simp add: life_def)
    qed (use ob o RemoveConnectionInLoop in \<open>auto simp: queue_functor_def\<close>)
    with ob RemoveConnectionInLoop show ?thesis by (simp add: removeConnectionInLoop_def)
  next
    case (ConnectDestroyed i)
    then have l: "conn_loop ob = l" using fok ob by simp
    have t: "tokens ?srv i ob = (0, 0, 0, False)" "closed_conn (tcp ob)"
      using life_cases(3) [OF lf [unfolded tokens_def]] ConnectDestroyed p l by (auto simp: tokens_def split: if_splits)
    let ?c = "connectDestroyed (tcp ob)"
    have "server_inv (?srv\<lparr>objects := (objects srv)(i \<mapsto> ob\<lparr>tcp := ?c\<rparr>)\<rparr>)"
      using t destroyed_closed [of "tcp ob"] ConnectDestroyed rest tokens_frame(4) [OF p]
      by (intro change [where c = ?c]) (simp_all add: tokens_frame life_def)
    with ob ConnectDestroyed show ?thesis by (simp add: update_conn_def)
  qed
qed

lemma removeConnection_inv:
  assumes inv: "server_inv srv" and ob: "objects srv i = Some ob" and op: "open_conn (tcp ob)"
    and c: "closed_conn c" "chan_registered c"
  shows "\<exists>srv'. removeConnection (conn_loop ob) i (srv\<lparr>objects := (objects srv)(i \<mapsto> ob\<lparr>tcp := c\<rparr>)\<rparr>) = Some srv' \<and>
    server_inv srv' \<and> objects srv' i = Some (ob\<lparr>tcp := c\<rparr>)"
proof -
  let ?srv = "srv\<lparr>objects := (objects srv)(i \<mapsto> ob\<lparr>tcp := c\<rparr>)\<rparr>"
  have t: "tokens srv i ob = (0, 0, 0, True)"
    using life_cases(4) [OF server_inv_life [OF inv ob, unfolded tokens_def]] op by (simp add: tokens_def)
  show ?thesis
  proof (cases "conn_loop ob = baseLoop")
    case True
    let ?srv' = "queue_functor baseLoop (ConnectDestroyed i) (?srv\<lparr>connections := (connections srv)(conn_name ob := None)\<rparr>)"
    have "server_inv ?srv'"
    proof (rule server_inv_change [OF inv ob, where c = c])
      show "functor_ok (objects srv) l g" if "g \<in> set (pending ?srv' l)" for l g
        using that server_inv_pending [OF inv, of g l] ob True by (auto simp: queue_functor_def split: if_splits)
      show "connections srv n = Some j" if "connections ?srv' n = Some j" for n j
        using that by (simp add: queue_functor_def split: if_splits)
      show "tokens ?srv' j obj = tokens srv j obj" if "objects srv j = Some obj" "j \<noteq> i" for j obj
        using conn_names_differ [OF inv ob that] that(2)
        by (simp add: tokens_frame(2)) (simp add: tokens_def)
      show "life (tokens ?srv' i ob) c"
        using t c True by (auto simp: tokens_def queue_functor_def life_def)
    qed (simp_all add: queue_functor_def)
    with True show ?thesis
      by (simp add: removeConnection_def run_in_loop_def removeConnectionInLoop_def queue_functor_def)
  next
    case False
    let ?srv' = "queue_functor baseLoop (RemoveConnectionInLoop i) ?srv"
    have "server_inv ?srv'"
    proof (rule server_inv_change [OF inv ob, where c = c])
      show "functor_ok (objects srv) l g" if "g \<in> set (pending ?srv' l)" for l g
        using that server_inv_pending [OF inv, of g l] ob by (auto simp: queue_functor_def split: if_splits)
      show "tokens ?srv' j obj = tokens srv j obj" if "objects srv j = Some obj" "j \<noteq> i" for j obj
        using that(2) by (simp add: tokens_frame)
      show "life (tokens ?srv' i ob) c"
        using t c False by (auto simp: tokens_def queue_functor_def life_def)
    qed (simp_all add: queue_functor_def)
    with False show ?thesis
      by (auto simp: removeConnection_def run_in_loop_def queue_functor_def)
  qed
qed

definition closing :: "EventCallback \<Rightarrow> bool" where
  "closing cb \<longleftrightarrow> cb \<in> {ReadCallback, EventCallback.CloseCallback}"

lemma channel_call_inv:
  assumes inv: "server_inv srv" and ob: "objects srv i = Some ob"
    and ph: "open_conn (tcp ob) \<or> closed_conn (tcp ob) \<and> \<not> closing cb"
  shows "\<exists>srv' ob'. channel_call readv w i cb srv = Some srv' \<and> server_inv srv' \<and> objects srv' i = Some ob' \<and>
    (open_conn (tcp ob') \<or> closed_conn (tcp ob') \<and> (open_conn (tcp ob) \<longrightarrow> closing cb))"
proof -
  let ?c = "channel_callback readv w cb (tcp ob)"
  let ?srv = "srv\<lparr>objects := (objects srv)(i \<mapsto> ob\<lparr>tcp := ?c\<rparr>)\<rparr>"
  have lf: "life (tokens srv i ob) (tcp ob)" by (rule server_inv_life [OF inv ob])
  have stay: "server_inv ?srv" if l: "life (tokens srv i ob) ?c"
  proof (rule server_inv_change [OF inv ob, where c = ?c])
    show "functor_ok (objects srv) l g" if "g \<in> set (pending ?srv l)" for l g
      using that server_inv_pending [OF inv, of g l] by simp
    show "life (tokens ?srv i ob) ?c" using l by (simp add: tokens_frame)
  qed (simp_all add: tokens_frame)
  show ?thesis
  proof (cases "open_conn (tcp ob)")
    case True
    from channel_callback_open [OF this refl, of readv w cb]
    consider "open_conn ?c" "\<not> closes (tcp ob) ?c"
      | "closed_conn ?c" "chan_registered ?c" "closes (tcp ob) ?c" "closing cb" by (auto simp: closing_def)
    then show ?thesis
    proof cases
      case 1
      have "life (tokens srv i ob) ?c"
        using life_cases(4) [OF lf [unfolded tokens_def] True] 1 by (simp add: life_def tokens_def)
      with stay 1 ob show ?thesis by (simp add: channel_call_def)
    next
      case 2
      with removeConnection_inv [OF inv ob True 2(1,2)] ob show ?thesis by (auto simp: channel_call_def)
    qed
  next
    case False
    then have cl: "closed_conn (tcp ob)" and "cb \<in> {WriteCallback, ErrorCallback}"
      using ph by (cases cb; simp add: closing_def)+
    from channel_callback_closed [OF cl refl this(2), of readv w]
    have c: "closed_conn ?c" "chan_registered ?c = chan_registered (tcp ob)" "\<not> closes (tcp ob) ?c" by auto
    have "life (tokens srv i ob) ?c"
      using lf c False cl by (auto simp: life_def waiting_conn_def closed_conn_def)
    with stay c ob False show ?thesis by (simp add: channel_call_def)
  qed
qed

lemma channel_calls_inv:
  assumes "server_inv srv" "objects srv i = Some ob"
    and "open_conn (tcp ob) \<and> length (filter closing cbs) \<le> 1 \<or> closed_conn (tcp ob) \<and> filter closing cbs = []"
  shows "\<exists>srv'. channel_calls readv w i cbs srv = Some srv' \<and> server_inv srv'"
  using assms
proof (induction cbs arbitrary: srv ob)
  case (Cons cb cbs)
  have "open_conn (tcp ob) \<or> closed_conn (tcp ob) \<and> \<not> closing cb" using Cons.prems(3) by auto
  from channel_call_inv [OF Cons.prems(1,2) this, of readv w]
  obtain srv' ob' where s: "channel_call readv w i cb srv = Some srv'" "server_inv srv'" "objects srv' i = Some ob'"
    and ph: "open_conn (tcp ob') \<or> closed_conn (tcp ob') \<and> (open_conn (tcp ob) \<longrightarrow> closing cb)" by blast
  have "open_conn (tcp ob') \<and> length (filter closing cbs) \<le> 1 \<or> closed_conn (tcp ob') \<and> filter closing cbs = []"
  proof (cases "open_conn (tcp ob)")
    case True
    with Cons.prems(3) ph show ?thesis by (auto simp: open_conn_def closed_conn_def split: if_splits)
  next
    case False
    with Cons.prems(3) ph show ?thesis by (auto split: if_splits)
  qed
  from Cons.IH [OF s(2,3) this] s(1) show ?case by simp
qed simp

lemma event_closes_once: "kernel_revents r \<Longrightarrow> length (filter closing (handleEvent b (conn_channel r))) \<le> 1"
proof -
  assume k: "kernel_revents r"
  have "r AND (EPOLLIN OR EPOLLPRI) = (r AND EPOLLIN) OR (r AND EPOLLPRI)" by (rule bit.conj_disj_distrib)
  then have "r AND EPOLLHUP \<noteq> 0 \<and> r AND EPOLLIN = 0 \<Longrightarrow> r AND (EPOLLIN OR EPOLLPRI) = 0"
    using k by (simp add: kernel_revents_def)
  then show ?thesis
    by (auto simp: handleEvent_def handleEventWithGuard_def conn_channel_def newChannel_def closing_def)
qed

lemma channel_event_inv:
  assumes "server_inv srv" "objects srv i = Some ob" "chan_reading (tcp ob)" "kernel_revents r"
  shows "\<exists>srv'. channel_event readv w i r srv = Some srv' \<and> server_inv srv'"
proof -
  have "open_conn (tcp ob)"
    using server_inv_life [OF assms(1,2)] assms(3) by (auto simp: life_def waiting_conn_def closed_conn_def)
  with channel_calls_inv [OF assms(1,2)] event_closes_once [OF assms(4)] show ?thesis by (simp add: channel_event_def)
qed

lemma getNextLoop_ok:
  assumes "loops p \<noteq> [] \<longrightarrow> next_loop p < length (loops p)"
  obtains l p' where "getNextLoop p = Some (l, p')" "loops p' = loops p" "l \<in> set (getAllLoops p)"
    "loops p' \<noteq> [] \<longrightarrow> next_loop p' < length (loops p')"
    "loops p \<noteq> [] \<longrightarrow> l = loops p ! next_loop p \<and> next_loop p' = (next_loop p + 1) mod length (loops p)"
    "loops p = [] \<longrightarrow> l = baseLoop"
proof (cases "loops p = []")
  case True
  then show thesis by (intro that [of baseLoop p]) (simp_all add: getNextLoop_def getAllLoops_def)
next
  case False
  let ?n = "if next_loop p + 1 \<ge> length (loops p) then 0 else next_loop p + 1"
  have lt: "next_loop p < length (loops p)" using False assms by simp
  then have "?n = (next_loop p + 1) mod length (loops p)" by (auto simp: mod_Suc)
  with False lt show thesis
    by (intro that [of "loops p ! next_loop p" "p\<lparr>next_loop := ?n\<rparr>"])
      (auto simp: getNextLoop_def getAllLoops_def Let_def)
qed

lemma server_inv_add:
  assumes inv: "server_inv srv" and lt: "nextConnId srv < INT_MAX" and i: "i = nat (nextConnId srv)"
    and ob: "conn_name ob = connName srv (nextConnId srv)"
    and frame: "server_name srv' = server_name srv" "ipPort srv' = ipPort srv" "nextConnId srv' = nextConnId srv + 1"
      "connections srv' = (connections srv)(conn_name ob \<mapsto> i)" "objects srv' = (objects srv)(i \<mapsto> ob)"
    and pool: "loops (threadPool srv') \<noteq> [] \<longrightarrow> next_loop (threadPool srv') < length (loops (threadPool srv'))"
    and pend: "pending srv' = pending srv \<and> open_conn (tcp ob) \<or>
      pending srv' = (pending srv)(conn_loop ob := pending srv (conn_loop ob) @ [ConnectEstablished i]) \<and> waiting_conn (tcp ob)"
  shows "server_inv srv'"
proof -
  have pos: "1 \<le> nextConnId srv" "int i = nextConnId srv" using inv i by (auto simp: server_inv_def)
  have name: "connName srv' = connName srv" using frame by (simp add: fun_eq_iff connName_def)
  have old: "conn_ok srv j obj" "j \<noteq> i" if "objects srv j = Some obj" for j obj
  proof -
    show ok: "conn_ok srv j obj" using that inv by (simp add: server_inv_def)
    show "j \<noteq> i" using ok pos(2) by (auto simp: conn_ok_def)
  qed
  have new: "objects srv i = None" using old(2) [of i] by (cases "objects srv i") auto
  have none: "f \<notin> set (pending srv l)" if "subject f = i" for f l
    using server_inv_pending [OF inv, of f l] that new by (cases f) auto
  have zero: "count_list (pending srv l) f = 0" if "subject f = i" for f l
    using none [OF that] by (simp add: count_list_0_iff)
  have "conn_ok srv' j obj" if "objects srv' j = Some obj" for j obj
  proof (cases "j = i")
    case True
    with that frame have "obj = ob" by simp
    moreover have "life (tokens srv' i ob) (tcp ob)"
      using pend
    proof
      assume "pending srv' = pending srv \<and> open_conn (tcp ob)"
      moreover from this have "tokens srv' i ob = (0, 0, 0, True)" using frame(4) zero by (simp add: tokens_def)
      ultimately show ?thesis by (simp add: life_def)
    next
      assume q: "pending srv' = (pending srv)(conn_loop ob := pending srv (conn_loop ob) @ [ConnectEstablished i]) \<and>
        waiting_conn (tcp ob)"
      then have "tokens srv' i ob = (1, 0, 0, True)" using frame(4) zero by (simp add: tokens_def)
      with q show ?thesis by (simp add: life_def)
    qed
    ultimately show ?thesis using True ob pos name frame(3) by (simp add: conn_ok_def)
  next
    case False
    then have o: "objects srv j = Some obj" using that frame(5) by simp
    have "conn_name obj \<noteq> conn_name ob"
      using old(1) [OF o] ob connName_inj [of srv j i] False pos(2) by (auto simp: conn_ok_def)
    then have "tokens srv' j obj = tokens srv j obj"
      using frame(4) pend False by (auto simp: tokens_def)
    then show ?thesis using old(1) [OF o] name frame(3) by (simp add: conn_ok_def)
  qed
  moreover have "functor_ok (objects srv') l f" if f: "f \<in> set (pending srv' l)" for l f
  proof -
    consider "f \<in> set (pending srv l)" | "f = ConnectEstablished i" "l = conn_loop ob"
      using f pend by (auto split: if_splits)
    then show ?thesis
    proof cases
      case 1
      with server_inv_pending [OF inv 1] new frame(5) show ?thesis by (cases f) auto
    qed (simp add: frame(5))
  qed
  moreover have "\<exists>obj. objects srv' j = Some obj \<and> conn_name obj = n" if n: "connections srv' n = Some j" for n j
  proof (cases "n = conn_name ob")
    case False
    then obtain obj where "objects srv j = Some obj" "conn_name obj = n"
      using n frame(4) inv unfolding server_inv_def by (metis fun_upd_other)
    with new frame(5) show ?thesis by (cases "j = i") auto
  qed (use n frame(4,5) in simp)
  ultimately show ?thesis using pool pos(1) lt frame(3) unfolding server_inv_def by simp
qed

lemma newConnection_inv:
  assumes inv: "server_inv srv" and lt: "nextConnId srv < INT_MAX"
  shows "\<exists>srv'. newConnection sockfd local peer srv = Some srv' \<and> server_inv srv'"
proof -
  let ?i = "nat (nextConnId srv)" and ?nm = "connName srv (nextConnId srv)"
  let ?c = "newTcpConnection\<lparr>hasWriteCompleteCallback := hasWriteComplete srv\<rparr>"
  obtain l p' where p: "getNextLoop (threadPool srv) = Some (l, p')"
    "loops p' \<noteq> [] \<longrightarrow> next_loop p' < length (loops p')"
    using getNextLoop_ok [of "threadPool srv"] inv unfolding server_inv_def by metis
  have w: "waiting_conn ?c" by (simp add: waiting_conn_def newTcpConnection_def)
  let ?ob = "\<lambda>c. \<lparr>conn_name = ?nm, conn_loop = l, conn_fd = sockfd, localAddr = local, peerAddr = peer, tcp = c\<rparr>"
  let ?srv = "\<lambda>c. srv\<lparr>threadPool := p', nextConnId := nextConnId srv + 1,
      connections := (connections srv)(?nm \<mapsto> ?i), objects := (objects srv)(?i \<mapsto> ?ob c)\<rparr>"
  show ?thesis
  proof (cases "baseLoop = l")
    case True
    have "server_inv (?srv (connectEstablished ?c))"
      by (rule server_inv_add [OF inv lt refl, where ob = "?ob (connectEstablished ?c)"])
        (use p(2) established_open [OF w] in simp_all)
    with True p(1) lt show ?thesis by (simp add: newConnection_def run_in_loop_def update_conn_def Let_def)
  next
    case False
    have "server_inv (queue_functor l (ConnectEstablished ?i) (?srv ?c))"
      by (rule server_inv_add [OF inv lt refl, where ob = "?ob ?c"])
        (use p(2) w in \<open>simp_all add: queue_functor_def\<close>)
    with False p(1) lt show ?thesis by (simp add: newConnection_def run_in_loop_def Let_def)
  qed
qed

lemma started_server_inv: "server_inv (started_server startLoop n nm addr wc)"
  by (simp add: server_inv_def started_server_def tcp_start_def newTcpServer_def pool_start_def setThreadNum_def
      newEventLoopThreadPool_def INT_MAX_def Let_def)

lemma newConnection_overflow: "nextConnId srv = INT_MAX \<Longrightarrow> newConnection sockfd local peer srv = None"
  by (simp add: newConnection_def split: option.splits)

lemma update_conn_keeps_inv:
  assumes "server_inv srv" "update_conn i f srv = Some srv'" "\<And>ob. objects srv i = Some ob \<Longrightarrow> keeps (tcp ob) (f (tcp ob))"
  shows "server_inv srv'"
proof -
  obtain ob where ob: "objects srv i = Some ob" using assms(2) by (auto simp: update_conn_def split: option.splits)
  have "life (tokens srv i ob) (f (tcp ob))" by (rule life_keeps [OF assms(3) [OF ob] server_inv_life [OF assms(1) ob]])
  with update_conn_inv [of srv i ob f] assms(1,2) ob show ?thesis by simp
qed

lemma tcp_step_inv: "server_inv srv \<Longrightarrow> tcp_step srv srv' \<Longrightarrow> server_inv srv'"
proof -
  assume inv: "server_inv srv"
  assume "tcp_step srv srv'"
  then show "server_inv srv'"
  proof cases
    case (accept sockfd local peer)
    then have "nextConnId srv \<noteq> INT_MAX" using newConnection_overflow by auto
    then have "nextConnId srv < INT_MAX" using inv by (simp add: server_inv_def)
    with newConnection_inv [OF inv, of sockfd local peer] accept show ?thesis by auto
  next
    case run_pending
    then obtain l f fs where p: "pending srv l = f # fs"
      "call_functor f (srv\<lparr>pending := (pending srv)(l := fs)\<rparr>) = Some srv'" by (rule functor_stepE)
    with run_pending_inv [OF inv p(1)] show ?thesis by simp
  next
    case (channel i ob r readv w)
    with channel_event_inv [OF inv channel(1,3,4), of readv w] show ?thesis by simp
  next
    case (user_send i w in_loop data)
    then show ?thesis using update_conn_keeps_inv [OF inv user_send send_keeps] by simp
  next
    case (user_shutdown i in_loop)
    then show ?thesis using update_conn_keeps_inv [OF inv user_shutdown shutdown_keeps] by simp
  next
    case (conn_functor i ob f fs w)
    have "state (tcp ob) \<noteq> kConnecting"
      using server_inv_life [OF inv conn_functor(1)] conn_functor(2)
      by (auto simp: life_def waiting_conn_def open_conn_def closed_conn_def)
    then have "keeps (tcp ob) (run_functor w f ((tcp ob)\<lparr>queued := fs\<rparr>))" by (rule run_functor_keeps)
    with update_conn_keeps_inv [OF inv conn_functor(3)] conn_functor(1) show ?thesis by simp
  qed
qed

lemma tcp_reach_inv: "tcp_reach srv \<Longrightarrow> server_inv srv"
  by (induction rule: tcp_reach.induct) (simp_all add: started_server_inv tcp_step_inv)

section \<open>Pending work ends\<close>

fun weight1 :: "ServerFunctor \<Rightarrow> nat" where
  "weight1 (RemoveConnectionInLoop i) = 2"
| "weight1 f = 1"

definition busy_loops :: "TcpServer \<Rightarrow> nat set" where
  "busy_loops srv = insert baseLoop ((\<lambda>i. case objects srv i of None \<Rightarrow> baseLoop | Some ob \<Rightarrow> conn_loop ob) ` {..<nat (nextConnId srv)})"

definition weight :: "TcpServer \<Rightarrow> nat" where
  "weight srv = (\<Sum>l \<in> busy_loops srv. sum_list (map weight1 (pending srv l)))"

lemma finite_busy_loops: "finite (busy_loops srv)"
  by (simp add: busy_loops_def)

lemma conn_loop_busy: "server_inv srv \<Longrightarrow> objects srv i = Some ob \<Longrightarrow> conn_loop ob \<in> busy_loops srv"
proof -
  assume inv: "server_inv srv" and ob: "objects srv i = Some ob"
  have "conn_ok srv i ob" using inv ob by (simp add: server_inv_def)
  then have "i < nat (nextConnId srv)" by (simp add: conn_ok_def zless_nat_eq_int_zless)
  then show ?thesis using ob unfolding busy_loops_def by (intro insertI2 image_eqI [of _ _ i]) simp_all
qed

lemma sum_upd:
  "finite S \<Longrightarrow> l \<in> S \<Longrightarrow> (\<Sum>x \<in> S. sum_list (map g ((p(l := q)) x))) + sum_list (map g (p l)) =
     (\<Sum>x \<in> S. sum_list (map g (p x))) + (sum_list (map g q) :: nat)"
  by (simp add: sum.remove [of S l] add.assoc add.commute)

text \<open>What running a functor does, as the table and the queues see it.\<close>

lemma functor_step_effect:
  assumes inv: "server_inv srv" and st: "functor_step srv srv'"
  shows "weight srv' < weight srv" "nextConnId srv' = nextConnId srv"
    "objects srv i = Some ob \<Longrightarrow> \<exists>c. objects srv' i = Some (ob\<lparr>tcp := c\<rparr>) \<and> (closed_conn c \<longleftrightarrow> closed_conn (tcp ob))"
proof -
  obtain l f fs where p: "pending srv l = f # fs"
    and c: "call_functor f (srv\<lparr>pending := (pending srv)(l := fs)\<rparr>) = Some srv'" using st by (rule functor_stepE)
  have fok: "functor_ok (objects srv) l f" using inv p by (simp add: server_inv_def)
  obtain obf where obf: "objects srv (subject f) = Some obf" using fok by (cases f) auto
  have lb: "l \<in> busy_loops srv"
    using fok conn_loop_busy [OF inv] by (cases f) (auto simp: busy_loops_def)
  let ?p = "(pending srv)(l := fs)"
  let ?w = "\<lambda>p. \<Sum>x \<in> busy_loops srv. sum_list (map weight1 (p x))"
  have w: "?w ?p + weight1 f = weight srv"
    using sum_upd [OF finite_busy_loops lb, of weight1 "pending srv" fs] p by (simp add: weight_def)
  have lf: "life (tokens srv (subject f) obf) (tcp obf)" by (rule server_inv_life [OF inv obf])
  show "nextConnId srv' = nextConnId srv"
    using c by (cases f) (auto simp: update_conn_def removeConnectionInLoop_def queue_functor_def split: option.splits)
  show "objects srv i = Some ob \<Longrightarrow> \<exists>c. objects srv' i = Some (ob\<lparr>tcp := c\<rparr>) \<and> (closed_conn c \<longleftrightarrow> closed_conn (tcp ob))"
  proof (cases f)
    case (ConnectEstablished j)
    have "waiting_conn (tcp obf)"
      using life_cases(1) [OF lf [unfolded tokens_def]] fok obf ConnectEstablished p by auto
    then have "\<not> closed_conn (tcp obf)" "\<not> closed_conn (connectEstablished (tcp obf))"
      using established_open [of "tcp obf"] by (auto simp: waiting_conn_def closed_conn_def open_conn_def)
    moreover assume "objects srv i = Some ob"
    ultimately show ?thesis using c obf ConnectEstablished
      by (intro exI [of _ "if i = j then connectEstablished (tcp ob) else tcp ob"]) (auto simp: update_conn_def)
  next
    case (RemoveConnectionInLoop j)
    moreover assume "objects srv i = Some ob"
    ultimately show ?thesis using c obf
      by (intro exI [of _ "tcp ob"]) (auto simp: removeConnectionInLoop_def queue_functor_def)
  next
    case (ConnectDestroyed j)
    have "closed_conn (tcp obf)"
      using life_cases(3) [OF lf [unfolded tokens_def]] fok obf ConnectDestroyed p by auto
    then have "closed_conn (tcp obf)" "closed_conn (connectDestroyed (tcp obf))" using destroyed_closed by auto
    moreover assume "objects srv i = Some ob"
    ultimately show ?thesis using c obf ConnectDestroyed
      by (intro exI [of _ "if i = j then connectDestroyed (tcp ob) else tcp ob"]) (auto simp: update_conn_def)
  qed
  have busy: "busy_loops srv' = busy_loops srv"
    using c obf by (cases f) (auto simp: busy_loops_def update_conn_def removeConnectionInLoop_def queue_functor_def
        intro!: arg_cong2 [where f = insert] image_cong)
  show "weight srv' < weight srv"
  proof (cases "\<exists>j. f = RemoveConnectionInLoop j")
    case True
    then obtain j where f: "f = RemoveConnectionInLoop j" by blast
    let ?q = "?p(conn_loop obf := ?p (conn_loop obf) @ [ConnectDestroyed j])"
    have "pending srv' = ?q" using c obf f by (auto simp: removeConnectionInLoop_def queue_functor_def)
    moreover have "?w ?q = ?w ?p + 1"
      using sum_upd [OF finite_busy_loops conn_loop_busy [OF inv obf], of weight1 ?p "?p (conn_loop obf) @ [ConnectDestroyed j]"]
      by simp
    ultimately show ?thesis using w busy f by (simp add: weight_def)
  next
    case False
    then have "pending srv' = ?p" "weight1 f = 1"
      using c by (cases f; auto simp: update_conn_def split: option.splits)+
    then show ?thesis using w busy by (simp add: weight_def)
  qed
qed

interpretation functors: decreasing_steps functor_step server_inv weight
  by unfold_locales (blast intro: tcp_step_inv run_pending, blast intro: functor_step_effect(1))

lemma functor_steps_effect:
  assumes inv: "server_inv srv" and run: "functor_step\<^sup>*\<^sup>* srv srv'" and ob: "objects srv i = Some ob"
  shows "\<exists>c. objects srv' i = Some (ob\<lparr>tcp := c\<rparr>) \<and> (closed_conn c \<longleftrightarrow> closed_conn (tcp ob))"
  using run
proof (induction rule: rtranclp_induct)
  case base
  have "ob = ob\<lparr>tcp := tcp ob\<rparr>" by simp
  with ob show ?case by metis
next
  case (step srv1 srv2)
  then obtain c where c: "objects srv1 i = Some (ob\<lparr>tcp := c\<rparr>)" "closed_conn c \<longleftrightarrow> closed_conn (tcp ob)" by blast
  from functor_step_effect(3) [OF functors.steps_inv [OF step(1) inv] step(2) c(1)] c(2) show ?case by auto
qed

lemma finished_empty:
  assumes "server_inv srv" "\<nexists>srv'. functor_step srv srv'"
  shows "pending srv l = []"
proof (cases "pending srv l")
  case (Cons f fs)
  then have False using run_pending_inv [OF assms(1) Cons] assms(2) functor_step.call by blast
  then show ?thesis ..
qed simp

section \<open>Properties\<close>

text \<open>
  C6: The life of a TCP connection. In every reachable state of the server, whatever the order in
  which connections arrive, sockets become ready, loops run their functors and users send and
  shut down, each connection either waits to be established, is open or is closed. Its user
  callbacks are none; or one announcement that it is up followed by messages; or these followed by
  exactly one announcement that it is down and one close. It stays in the server's table until it
  is closed, and no two connections have the same name.
\<close>

theorem connection_life_cycle:
  assumes "tcp_reach srv" "objects srv i = Some ob"
  shows "(waiting_conn (tcp ob) \<and> connections srv (conn_name ob) = Some i \<or>
      open_conn (tcp ob) \<and> connections srv (conn_name ob) = Some i \<or> closed_conn (tcp ob)) \<and>
    (\<forall>j obj. objects srv j = Some obj \<and> conn_name obj = conn_name ob \<longrightarrow> j = i)"
proof -
  have inv: "server_inv srv" by (rule tcp_reach_inv [OF assms(1)])
  have "life (tokens srv i ob) (tcp ob)" by (rule server_inv_life [OF inv assms(2)])
  then show ?thesis
    using conn_names_differ [OF inv assms(2)] by (auto simp: life_def tokens_def)
qed

text \<open>
  C11: Closed connections are removed and destroyed. From every reachable state, when the loops run
  their pending functors and nothing else happens, in any order, they stop after a bounded number
  of steps; then no functor is left, every connection that was closed is out of the server's table
  and its channel is removed from the poller, and every other connection is open and in the table.
\<close>

theorem pending_work_ends:
  assumes "tcp_reach srv"
  shows "(\<exists>N. \<forall>n srv'. (functor_step ^^ n) srv srv' \<longrightarrow> n \<le> N) \<and>
    (\<forall>srv'. functor_step\<^sup>*\<^sup>* srv srv' \<and> (\<nexists>srv''. functor_step srv' srv'') \<longrightarrow>
       (\<forall>l. pending srv' l = []) \<and>
       (\<forall>i ob. objects srv i = Some ob \<longrightarrow> (\<exists>c. objects srv' i = Some (ob\<lparr>tcp := c\<rparr>) \<and>
          (if closed_conn (tcp ob)
           then closed_conn c \<and> \<not> chan_registered c \<and> connections srv' (conn_name ob) \<noteq> Some i
           else open_conn c \<and> connections srv' (conn_name ob) = Some i))))"
proof -
  have inv: "server_inv srv" by (rule tcp_reach_inv [OF assms])
  have bound: "\<forall>n srv'. (functor_step ^^ n) srv srv' \<longrightarrow> n \<le> weight srv"
    using functors.run_bounded [OF inv] by blast
  have "(\<forall>l. pending srv' l = []) \<and>
       (\<forall>i ob. objects srv i = Some ob \<longrightarrow> (\<exists>c. objects srv' i = Some (ob\<lparr>tcp := c\<rparr>) \<and>
          (if closed_conn (tcp ob)
           then closed_conn c \<and> \<not> chan_registered c \<and> connections srv' (conn_name ob) \<noteq> Some i
           else open_conn c \<and> connections srv' (conn_name ob) = Some i)))"
    if run: "functor_step\<^sup>*\<^sup>* srv srv'" and fin: "\<nexists>srv''. functor_step srv' srv''" for srv'
  proof -
    have inv': "server_inv srv'" by (rule functors.steps_inv [OF run inv])
    have empty: "pending srv' l = []" for l by (rule finished_empty [OF inv' fin])
    have "\<exists>c. objects srv' i = Some (ob\<lparr>tcp := c\<rparr>) \<and>
          (if closed_conn (tcp ob)
           then closed_conn c \<and> \<not> chan_registered c \<and> connections srv' (conn_name ob) \<noteq> Some i
           else open_conn c \<and> connections srv' (conn_name ob) = Some i)" if o: "objects srv i = Some ob" for i ob
    proof -
      obtain c where c: "objects srv' i = Some (ob\<lparr>tcp := c\<rparr>)" "closed_conn c \<longleftrightarrow> closed_conn (tcp ob)"
        using functor_steps_effect [OF inv run o] by blast
      have "life (tokens srv' i (ob\<lparr>tcp := c\<rparr>)) c" using server_inv_life [OF inv' c(1)] by simp
      with c empty show ?thesis
        by (auto simp: life_def tokens_def open_conn_def closed_conn_def)
    qed
    with empty show ?thesis by blast
  qed
  with bound show ?thesis by blast
qed

text \<open>
  The TCP server never runs into undefined behaviour: in every reachable state, as long as the
  \<open>int\<close> that numbers the connections does not overflow, accepting a connection picks a loop of the
  pool and succeeds, and every pending functor and every socket event finds its connection.
\<close>

theorem tcp_server_defined:
  assumes "tcp_reach srv"
  shows "(nextConnId srv < INT_MAX \<longrightarrow> (\<forall>sockfd local peer. newConnection sockfd local peer srv \<noteq> None)) \<and>
    (\<forall>l f fs. pending srv l = f # fs \<longrightarrow> call_functor f (srv\<lparr>pending := (pending srv)(l := fs)\<rparr>) \<noteq> None) \<and>
    (\<forall>i ob r readv w. objects srv i = Some ob \<and> chan_reading (tcp ob) \<and> kernel_revents r \<longrightarrow>
       channel_event readv w i r srv \<noteq> None)"
proof -
  have inv: "server_inv srv" by (rule tcp_reach_inv [OF assms])
  show ?thesis
    using newConnection_inv [OF inv] run_pending_inv [OF inv] channel_event_inv [OF inv] by fastforce
qed

text \<open>
  Connections are spread over the loops in turn; only accepting a connection assigns a loop, a
  descriptor and the addresses.
\<close>

definition endpoints :: "Conn \<Rightarrow> nat \<times> int \<times> sockaddr_in \<times> sockaddr_in" where
  "endpoints ob = (conn_loop ob, conn_fd ob, localAddr ob, peerAddr ob)"

lemma endpoints_tcp [simp]: "endpoints (ob\<lparr>tcp := c\<rparr>) = endpoints ob"
  by (simp add: endpoints_def)

definition same_loops :: "TcpServer \<Rightarrow> TcpServer \<Rightarrow> bool" where
  "same_loops srv srv' \<longleftrightarrow> threadPool srv' = threadPool srv \<and> nextConnId srv' = nextConnId srv \<and> listening srv' = listening srv \<and>
     (\<forall>i. map_option endpoints (objects srv' i) = map_option endpoints (objects srv i))"

lemma same_loops_trans: "same_loops a b \<Longrightarrow> same_loops b c \<Longrightarrow> same_loops a c"
  by (simp add: same_loops_def)

lemma update_conn_loops: "update_conn i f srv = Some srv' \<Longrightarrow> same_loops srv srv'"
  by (auto simp: update_conn_def same_loops_def split: option.splits)

lemma removeConnectionInLoop_loops: "removeConnectionInLoop i srv = Some srv' \<Longrightarrow> same_loops srv srv'"
  by (auto simp: removeConnectionInLoop_def queue_functor_def same_loops_def split: option.splits)

lemma call_functor_loops: "call_functor f srv = Some srv' \<Longrightarrow> same_loops srv srv'"
  by (cases f) (auto dest: update_conn_loops removeConnectionInLoop_loops)

lemma removeConnection_loops: "removeConnection l i srv = Some srv' \<Longrightarrow> same_loops srv srv'"
  by (auto simp: removeConnection_def run_in_loop_def dest: removeConnectionInLoop_loops split: if_splits)
    (simp add: same_loops_def queue_functor_def)

lemma channel_call_loops:
  assumes "channel_call readv w i cb srv = Some srv'" shows "same_loops srv srv'"
proof -
  obtain ob where ob: "objects srv i = Some ob" using assms by (auto simp: channel_call_def split: option.splits)
  let ?srv = "srv\<lparr>objects := (objects srv)(i \<mapsto> ob\<lparr>tcp := channel_callback readv w cb (tcp ob)\<rparr>)\<rparr>"
  have "same_loops srv ?srv" using ob by (simp add: same_loops_def)
  moreover have "same_loops ?srv srv'"
    using assms ob by (auto simp: channel_call_def Let_def dest: removeConnection_loops split: if_splits)
      (simp add: same_loops_def)
  ultimately show ?thesis by (rule same_loops_trans)
qed

lemma channel_calls_loops: "channel_calls readv w i cbs srv = Some srv' \<Longrightarrow> same_loops srv srv'"
proof (induction cbs arbitrary: srv)
  case Nil
  then show ?case by (simp add: same_loops_def)
next
  case (Cons cb cbs)
  then obtain srv1 where s: "channel_call readv w i cb srv = Some srv1" "channel_calls readv w i cbs srv1 = Some srv'"
    by (auto split: option.splits)
  show ?case using channel_call_loops [OF s(1)] Cons.IH [OF s(2)] by (rule same_loops_trans)
qed

lemma tcp_step_loops: "tcp_step srv srv' \<Longrightarrow> (\<exists>sockfd local peer. newConnection sockfd local peer srv = Some srv') \<or> same_loops srv srv'"
proof (induction rule: tcp_step.cases)
  case (run_pending srv srv')
  then obtain l f fs where "call_functor f (srv\<lparr>pending := (pending srv)(l := fs)\<rparr>) = Some srv'"
    by (auto elim: functor_stepE)
  then have "same_loops (srv\<lparr>pending := (pending srv)(l := fs)\<rparr>) srv'" by (rule call_functor_loops)
  then show ?case by (simp add: same_loops_def run_pending)
qed (auto simp: channel_event_def dest: update_conn_loops channel_calls_loops)

definition turn :: "(nat \<Rightarrow> nat) \<Rightarrow> int \<Rightarrow> nat \<Rightarrow> nat" where
  "turn startLoop n k = (if n \<le> 0 then baseLoop else startLoop (k mod nat n))"

definition rotation :: "(nat \<Rightarrow> nat) \<Rightarrow> int \<Rightarrow> TcpServer \<Rightarrow> bool" where
  "rotation startLoop n srv \<longleftrightarrow>
     loops (threadPool srv) = map startLoop [0..<nat n] \<and>
     (0 < n \<longrightarrow> next_loop (threadPool srv) = nat (nextConnId srv - 1) mod nat n) \<and> 1 \<le> nextConnId srv \<and>
     (\<forall>i ob. objects srv i = Some ob \<longrightarrow> conn_loop ob = turn startLoop n (i - 1))"

lemma rotation_same:
  assumes "rotation startLoop n srv" "same_loops srv srv'" shows "rotation startLoop n srv'"
proof -
  have "\<exists>obj. objects srv i = Some obj \<and> conn_loop obj = conn_loop ob" if "objects srv' i = Some ob" for i ob
  proof -
    have "map_option endpoints (objects srv i) = Some (endpoints ob)" using assms(2) that by (metis same_loops_def option.map(2))
    then show ?thesis by (auto simp: endpoints_def)
  qed
  with assms show ?thesis unfolding rotation_def same_loops_def by metis
qed

lemma rotation_new:
  assumes r: "rotation startLoop n srv" and s: "newConnection sockfd local peer srv = Some srv'"
  shows "rotation startLoop n srv'"
proof -
  let ?p = "threadPool srv" and ?k = "nat (nextConnId srv - 1)"
  have rp: "loops ?p = map startLoop [0..<nat n]" "0 < n \<Longrightarrow> next_loop ?p = ?k mod nat n" "1 \<le> nextConnId srv"
    "objects srv i = Some ob \<Longrightarrow> conn_loop ob = turn startLoop n (i - 1)" for i ob
    using r by (auto simp: rotation_def)
  have lt: "loops ?p \<noteq> [] \<longrightarrow> next_loop ?p < length (loops ?p)" using rp(1,2) by auto
  obtain l p' where g: "getNextLoop ?p = Some (l, p')" "loops p' = loops ?p"
    "loops ?p \<noteq> [] \<longrightarrow> l = loops ?p ! next_loop ?p \<and> next_loop p' = (next_loop ?p + 1) mod length (loops ?p)"
    "loops ?p = [] \<longrightarrow> l = baseLoop" by (rule getNextLoop_ok [OF lt])
  have l: "l = turn startLoop n ?k" and nx: "0 < n \<Longrightarrow> next_loop p' = nat (nextConnId srv) mod nat n"
  proof -
    show "l = turn startLoop n ?k" using g(3,4) rp(1,2) by (auto simp: turn_def)
    assume "0 < n"
    then have "next_loop p' = (?k + 1) mod nat n" using g(3) rp(1,2) by (simp add: mod_Suc_eq)
    moreover have "?k + 1 = nat (nextConnId srv)" using rp(3) by simp
    ultimately show "next_loop p' = nat (nextConnId srv) mod nat n" by simp
  qed
  let ?ob = "\<lparr>conn_name = connName srv (nextConnId srv), conn_loop = l, conn_fd = sockfd, localAddr = local, peerAddr = peer,
      tcp = newTcpConnection\<lparr>hasWriteCompleteCallback := hasWriteComplete srv\<rparr>\<rparr>"
  define srv1 where "srv1 = srv\<lparr>threadPool := p', nextConnId := nextConnId srv + 1,
      connections := (connections srv)(connName srv (nextConnId srv) \<mapsto> nat (nextConnId srv)),
      objects := (objects srv)(nat (nextConnId srv) \<mapsto> ?ob)\<rparr>"
  have s2: "run_in_loop baseLoop l (ConnectEstablished (nat (nextConnId srv))) srv1 = Some srv'"
    using s g(1) by (simp add: newConnection_def srv1_def Let_def split: if_splits)
  have "nat (nextConnId srv) - 1 = ?k" by simp
  then have "rotation startLoop n srv1"
    using g(2) l nx rp unfolding rotation_def srv1_def by auto
  moreover have "same_loops srv1 srv'"
    using s2 by (auto simp: run_in_loop_def dest: update_conn_loops split: if_splits)
      (simp add: same_loops_def queue_functor_def)
  ultimately show ?thesis by (rule rotation_same)
qed

lemma rotation_reach:
  "tcp_step\<^sup>*\<^sup>* (started_server startLoop n nm addr wc) srv \<Longrightarrow> rotation startLoop n srv"
proof (induction rule: rtranclp_induct)
  case base
  show ?case
    by (simp add: rotation_def started_server_def tcp_start_def newTcpServer_def pool_start_def setThreadNum_def
        newEventLoopThreadPool_def Let_def)
next
  case (step srv srv')
  then show ?case using tcp_step_loops rotation_new rotation_same by blast
qed

text \<open>
  C32: Connections are spread evenly. Whatever happens on the server, the \<open>i\<close>-th connection it
  accepts runs in the loop of thread number \<open>(i - 1) mod n\<close> of its \<open>n\<close> threads, and in the base
  loop when it has no threads; it never changes its loop.
\<close>

theorem connections_round_robin:
  assumes "tcp_step\<^sup>*\<^sup>* (started_server startLoop n nm addr wc) srv" "objects srv i = Some ob"
  shows "conn_loop ob = (if n \<le> 0 then baseLoop else startLoop ((i - 1) mod nat n))"
  using rotation_reach [OF assms(1)] assms(2) by (simp add: rotation_def turn_def)

section \<open>A sample run\<close>

text \<open>A server with two threads accepts a connection, which is established and hangs up.\<close>

definition sample_server :: TcpServer where
  "sample_server = started_server Suc 2 ''s'' ''0.0.0.0:1935'' False"

lemma sample_close:
  "\<exists>srv ob. tcp_step\<^sup>*\<^sup>* sample_server srv \<and> objects srv 1 = Some ob \<and> closed_conn (tcp ob) \<and> conn_loop ob = 1 \<and>
     nextConnId srv = 2"
proof -
  let ?c = "newTcpConnection\<lparr>hasWriteCompleteCallback := False\<rparr>"
  obtain s1 ob where n: "newConnection 9 zero_address zero_address sample_server = Some s1" "objects s1 1 = Some ob" "tcp ob = ?c" "conn_loop ob = 1"
    "pending s1 1 = [ConnectEstablished 1]" "nextConnId s1 = 2"
    by (simp add: sample_server_def started_server_def newTcpServer_def tcp_start_def pool_start_def setThreadNum_def
        newEventLoopThreadPool_def newConnection_def getNextLoop_def run_in_loop_def queue_functor_def baseLoop_def
        INT_MAX_def connName_def upt_rec Let_def)
  have l0: "listening sample_server"
    by (simp add: sample_server_def started_server_def newTcpServer_def tcp_start_def Let_def)
  have r1: "tcp_step sample_server s1" by (rule tcp_step.accept [OF l0 n(1)])
  let ?ob2 = "ob\<lparr>tcp := connectEstablished ?c\<rparr>"
  let ?s2 = "s1\<lparr>pending := (pending s1)(1 := []), objects := (objects s1)(1 \<mapsto> ?ob2)\<rparr>"
  have "call_functor (ConnectEstablished 1) (s1\<lparr>pending := (pending s1)(1 := [])\<rparr>) = Some ?s2"
    using n by (simp add: update_conn_def)
  with n(5) have r2: "tcp_step s1 ?s2" by (intro tcp_step.run_pending functor_step.call)
  have op: "open_conn (connectEstablished ?c)"
    by (rule established_open) (simp add: waiting_conn_def newTcpConnection_def)
  let ?c3 = "handleClose (connectEstablished ?c)"
  have cbs: "handleEvent True (conn_channel 16) = [EventCallback.CloseCallback]" by code_simp
  obtain s3 where s3: "channel_event (\<lambda>_. Inl 0) (\<lambda>_. Inl 0) 1 16 ?s2 = Some s3"
    "objects s3 1 = Some (?ob2\<lparr>tcp := ?c3\<rparr>)" "nextConnId s3 = 2"
    using n cbs handleClose_closed(2) [OF op]
    by (simp add: channel_event_def channel_call_def removeConnection_def run_in_loop_def queue_functor_def baseLoop_def)
  have "kernel_revents 16" by code_simp
  then have r3: "tcp_step ?s2 s3"
    using op s3(1) by (intro tcp_step.channel [where i = 1 and ob = ?ob2]) (auto simp: open_conn_def)
  from r1 r2 r3 have "tcp_step\<^sup>*\<^sup>* sample_server s3" by (meson r_into_rtranclp rtranclp_trans)
  with s3 n handleClose_closed(1) [OF op] show ?thesis by auto
qed

lemma sample_reach: "tcp_step\<^sup>*\<^sup>* sample_server srv \<Longrightarrow> tcp_reach srv"
  by (induction rule: rtranclp_induct) (auto simp: sample_server_def intro: tcp_reach.intros)

theorem connection_life_cycle_witness:
  "\<exists>srv ob. tcp_reach srv \<and> objects srv 1 = Some ob \<and> closed_conn (tcp ob) \<and>
     \<not> (\<exists>j obj. objects srv j = Some obj \<and> conn_name obj = conn_name ob \<and> j \<noteq> 1)"
proof -
  obtain srv ob where s: "tcp_step\<^sup>*\<^sup>* sample_server srv" "objects srv 1 = Some ob" "closed_conn (tcp ob)"
    using sample_close by blast
  from connection_life_cycle [OF sample_reach [OF s(1)] s(2)] sample_reach [OF s(1)] s show ?thesis by blast
qed

theorem pending_work_ends_witness:
  "\<exists>srv srv' ob ob'. tcp_reach srv \<and> objects srv 1 = Some ob \<and> closed_conn (tcp ob) \<and>
     functor_step\<^sup>*\<^sup>* srv srv' \<and> pending srv' 0 = [] \<and> objects srv' 1 = Some ob' \<and>
     \<not> chan_registered (tcp ob') \<and> connections srv' (conn_name ob) \<noteq> Some 1"
proof -
  obtain srv ob where s: "tcp_step\<^sup>*\<^sup>* sample_server srv" "objects srv 1 = Some ob" "closed_conn (tcp ob)"
    using sample_close by blast
  note r = sample_reach [OF s(1)]
  obtain srv' where f: "functor_step\<^sup>*\<^sup>* srv srv'" "\<nexists>srv''. functor_step srv' srv''"
    using functors.run_ends [OF tcp_reach_inv [OF r]] by blast
  from pending_work_ends [OF r] f have "pending srv' 0 = []"
    "\<exists>c. objects srv' 1 = Some (ob\<lparr>tcp := c\<rparr>) \<and> (if closed_conn (tcp ob)
       then closed_conn c \<and> \<not> chan_registered c \<and> connections srv' (conn_name ob) \<noteq> Some 1
       else open_conn c \<and> connections srv' (conn_name ob) = Some 1)"
    using s(2) by blast+
  then obtain c where "pending srv' 0 = []" "objects srv' 1 = Some (ob\<lparr>tcp := c\<rparr>)" "\<not> chan_registered c"
    "connections srv' (conn_name ob) \<noteq> Some 1" using s(3) by auto
  with r s f(1) show ?thesis
    by (intro exI [of _ srv] exI [of _ srv'] exI [of _ ob] exI [of _ "ob\<lparr>tcp := c\<rparr>"]) simp
qed

theorem tcp_server_defined_witness: "\<exists>srv. tcp_reach srv \<and> nextConnId srv = 2 \<and> newConnection 9 zero_address zero_address srv \<noteq> None"
proof -
  obtain srv ob where s: "tcp_step\<^sup>*\<^sup>* sample_server srv" "nextConnId srv = 2" using sample_close by blast
  from tcp_server_defined [OF sample_reach [OF s(1)]] sample_reach [OF s(1)] s(2) show ?thesis
    by (auto simp: INT_MAX_def)
qed

theorem connections_round_robin_witness:
  "\<exists>srv ob. tcp_step\<^sup>*\<^sup>* (started_server Suc 2 ''s'' ''0.0.0.0:1935'' False) srv \<and> objects srv 1 = Some ob \<and>
     conn_loop ob = Suc ((1 - 1) mod nat 2)"
proof -
  obtain srv ob where s: "tcp_step\<^sup>*\<^sup>* sample_server srv" "objects srv 1 = Some ob" using sample_close by blast
  from connections_round_robin [OF s(1) [unfolded sample_server_def] s(2)] s show ?thesis
    by (auto simp: sample_server_def)
qed

end
