(* ===== verification/Acceptor.thy ===== *)
theory Acceptor
  imports Socket TcpServer "HOL-Library.Sublist"
begin

text \<open>
  The acceptor (\<open>src/net/Acceptor.h\<close>, \<open>Acceptor.cc\<close>) and its use by the TCP server.

  The acceptor owns the listening socket, the channel of that socket and a spare descriptor. The
  channel is an object of the poller of the base loop; the system calls are the parameter \<open>sys\<close> of
  theory \<open>Socket\<close>. Logging is taken not to change \<open>errno\<close>.
\<close>

section \<open>The acceptor\<close>

record Acceptor =
  acceptSocket :: int
  acceptChannel :: nat
  hasNewConnectionCallback :: bool
  isListening :: bool
  idleFd :: int

definition createNonblocking :: "'k sys \<Rightarrow> 'k World \<Rightarrow> int \<times> 'k World" where
  "createNonblocking sys w =
     (let (sockfd, k) = sys_socket sys (kernel w); w = w\<lparr>kernel := k\<rparr>
      in (sockfd, if sockfd < 0 then LOG_ERROR ''Acceptor createNonblocking  sockfd error!'' w else w))"

text \<open>\<open>p\<close> is the address of the channel, a member of the acceptor.\<close>

definition newAcceptor ::
  "'k sys \<Rightarrow> nat \<Rightarrow> sockaddr_in \<Rightarrow> bool \<Rightarrow> 'k World \<times> 's Poller \<Rightarrow> Acceptor \<times> 'k World \<times> 's Poller" where
  "newAcceptor sys p listenAddr reusePort = (\<lambda>(w, pl).
     (let (sockfd, w) = createNonblocking sys w;
          ch = newChannel sockfd;
          (idle, k) = sys_open sys ''/dev/null'' (kernel w);
          w = bindAddress sys sockfd listenAddr
                (setReusePort sys sockfd reusePort (setReuseAddr sys sockfd True (w\<lparr>kernel := k\<rparr>)));
          ch = ch\<lparr>Channel.callbacks := {ReadCallback}\<rparr>
      in (\<lparr>acceptSocket = sockfd, acceptChannel = p, hasNewConnectionCallback = False, isListening = False,
           idleFd = idle\<rparr>, w, pl\<lparr>Poller.objects := (Poller.objects pl)(p \<mapsto> ch)\<rparr>)))"

definition setNewConnectionCallback :: "Acceptor \<Rightarrow> Acceptor" where
  "setNewConnectionCallback a = a\<lparr>hasNewConnectionCallback := True\<rparr>"

definition acceptor_listen ::
  "'k sys \<Rightarrow> 's epoll_ctl \<Rightarrow> Acceptor \<Rightarrow> 'k World \<times> 's Poller \<Rightarrow> (Acceptor \<times> 'k World \<times> 's Poller) option" where
  "acceptor_listen sys ctl a = (\<lambda>(w, pl).
     (let a = a\<lparr>isListening := True\<rparr>; w = socket_listen sys (acceptSocket a) w
      in map_option (\<lambda>pl. (a, w, pl)) (channel_update ctl enableReading (acceptChannel a) pl)))"

text \<open>The destructor, with those of the channel and of the socket.\<close>

definition destroyAcceptor ::
  "'k sys \<Rightarrow> 's epoll_ctl \<Rightarrow> Acceptor \<Rightarrow> 'k World \<times> 's Poller \<Rightarrow> ('k World \<times> 's Poller) option" where
  "destroyAcceptor sys ctl a = (\<lambda>(w, pl).
     (case channel_update ctl disableAll (acceptChannel a) pl of
        None \<Rightarrow> None
      | Some pl \<Rightarrow>
          (case channel_remove ctl (acceptChannel a) pl of
             None \<Rightarrow> None
           | Some pl \<Rightarrow>
               (let w = w\<lparr>kernel := sys_close sys (idleFd a) (kernel w)\<rparr>
                in Some (destroySocket sys (acceptSocket a) w,
                         pl\<lparr>Poller.objects := (Poller.objects pl)(acceptChannel a := None)\<rparr>)))))"

text \<open>The last component is the call of the new-connection callback, if there is one.\<close>

definition acceptor_handleRead ::
  "'k sys \<Rightarrow> Acceptor \<Rightarrow> 'k World \<Rightarrow> Acceptor \<times> 'k World \<times> (int \<times> sockaddr_in) option" where
  "acceptor_handleRead sys a w =
     (case socket_accept sys (acceptSocket a) w of
        (Inr (connfd, peer), w) \<Rightarrow>
          (if hasNewConnectionCallback a then (a, w, Some (connfd, peer))
           else (a, w\<lparr>kernel := sys_close sys connfd (kernel w)\<rparr>, None))
      | (Inl errno, w) \<Rightarrow>
          (let w = LOG_ERROR ''Acceptor accept error'' w in
           if errno = EMFILE then
             (let k = sys_close sys (idleFd a) (kernel w);
                  k = snd (sys_accept sys (idleFd a) k);
                  k = sys_close sys (idleFd a) k;
                  (idle, k) = sys_open sys ''dev/null'' k
              in (a\<lparr>idleFd := idle\<rparr>, w\<lparr>kernel := k\<rparr>, None))
           else (a, w, None)))"

section \<open>Accepting into the server\<close>

text \<open>
  A read event of the listening socket in the base loop: the callback is \<open>TcpServer::newConnection\<close>, which asks
  for the local address of the descriptor and constructs the connection; the constructor of
  \<open>TcpConnection\<close> makes a \<open>Socket\<close> of the descriptor and sets its \<open>SO_KEEPALIVE\<close>. \<open>accepted\<close> is a history
  variable: the descriptors and peers the server was given. \<open>released\<close> holds the connections whose destructor
  has run.
\<close>

record 'k AcceptState =
  acceptor :: Acceptor
  world :: "'k World"
  server :: TcpServer
  accepted :: "(int \<times> sockaddr_in) list"
  released :: "nat set"

definition accept_event :: "'k sys \<Rightarrow> 'k AcceptState \<Rightarrow> 'k AcceptState option" where
  "accept_event sys st =
     (let (a, w, call) = acceptor_handleRead sys (acceptor st) (world st);
          st = st\<lparr>acceptor := a, world := w\<rparr>
      in case call of
           None \<Rightarrow> Some st
         | Some (connfd, peer) \<Rightarrow>
             (let (local, w) = getLocalAddr sys connfd w
              in map_option
                   (\<lambda>srv. st\<lparr>world := setKeepAlive sys connfd True w, server := srv, accepted := accepted st @ [(connfd, peer)]\<rparr>)
                   (newConnection connfd local peer (server st))))"

fun accept_events :: "'k sys \<Rightarrow> nat \<Rightarrow> 'k AcceptState \<Rightarrow> 'k AcceptState option" where
  "accept_events sys 0 st = Some st"
| "accept_events sys (Suc n) st =
     (case accept_event sys st of None \<Rightarrow> None | Some st \<Rightarrow> accept_events sys n st)"

text \<open>
  A connection object is destroyed when nothing refers to it any more: it is not in the server's
  table and no functor of the server holds it. The destructor of its socket closes the descriptor.
\<close>

definition release_conn :: "'k sys \<Rightarrow> nat \<Rightarrow> 'k AcceptState \<Rightarrow> 'k AcceptState option" where
  "release_conn sys i st =
     (case objects (server st) i of
        None \<Rightarrow> None
      | Some ob \<Rightarrow>
          (if i \<notin> released st \<and> tokens (server st) i ob = (0, 0, 0, False)
           then Some (st\<lparr>world := destroySocket sys (conn_fd ob) (world st), released := insert i (released st)\<rparr>)
           else None))"

text \<open>The server at work: accepting, everything the loops do with connections, and the end of connections.\<close>

inductive serve_step :: "'k sys \<Rightarrow> 'k AcceptState \<Rightarrow> 'k AcceptState \<Rightarrow> bool" for sys where
  accept: "accept_event sys st = Some st' \<Longrightarrow> serve_step sys st st'"
| work: "tcp_step (server st) srv' \<Longrightarrow> nextConnId srv' = nextConnId (server st) \<Longrightarrow> serve_step sys st (st\<lparr>server := srv'\<rparr>)"
| release: "release_conn sys i st = Some st' \<Longrightarrow> serve_step sys st st'"

text \<open>\<open>setsockopt(2)\<close> opens and closes nothing and accepts nobody.\<close>

definition option_calls :: "'k sys \<Rightarrow> ('k \<Rightarrow> int set) \<Rightarrow> ('k \<Rightarrow> int \<Rightarrow> sockaddr_in list) \<Rightarrow> bool" where
  "option_calls sys fds backlog \<longleftrightarrow>
     (\<forall>d opt v k. fds (sys_setsockopt sys d opt v k) = fds k \<and> backlog (sys_setsockopt sys d opt v k) = backlog k)"

lemma accepted_world:
  assumes "option_calls sys fds backlog" "getLocalAddr sys d w = (local, w')"
  shows "fds (kernel (setKeepAlive sys d True w')) = fds (kernel w)" "backlog (kernel (setKeepAlive sys d True w')) = backlog (kernel w)"
    "length (errorLog w) \<le> length (errorLog (setKeepAlive sys d True w'))"
  using assms by (auto simp: option_calls_def setKeepAlive_def getLocalAddr_def LOG_ERROR_def split: option.splits)

section \<open>One event\<close>

text \<open>The code for \<open>EMFILE\<close>: the spare descriptor is given up, and perhaps replaced.\<close>

lemma emfile_effect:
  assumes calls: "descriptor_calls sys fds backlog"
    and s: "acceptSocket a \<in> fds (kernel w)" "idleFd a \<noteq> acceptSocket a"
    and e: "sys_accept sys (acceptSocket a) (kernel w) = (Inl EMFILE, k1)"
  obtains idle w' where "acceptor_handleRead sys a w = (a\<lparr>idleFd := idle\<rparr>, w', None)"
    "backlog (kernel w') (acceptSocket a) = backlog (kernel w) (acceptSocket a)"
    "if idle < 0 then fds (kernel w') = fds (kernel w) - {idleFd a}
     else idle \<notin> fds (kernel w) - {idleFd a} \<and> fds (kernel w') = insert idle (fds (kernel w) - {idleFd a})"
    "length (errorLog w) < length (errorLog w')"
proof -
  note close = close_effect [OF calls] and err = accept_error [OF calls]
  let ?s = "acceptSocket a" and ?i = "idleFd a"
  define k2 where "k2 = sys_close sys ?i k1"
  have k1: "fds k1 = fds (kernel w)" "backlog k1 ?s = backlog (kernel w) ?s"
    using err(1) [OF e] err(2) [OF e s(1)] by simp_all
  have k2: "fds k2 = fds (kernel w) - {?i}" "backlog k2 ?s = backlog (kernel w) ?s"
    unfolding k2_def using close(1) [of ?i k1] close(2) [of ?s k1 ?i] k1 s by auto
  have "?i \<notin> fds k2" using k2 by simp
  from calls this obtain k3 where k3: "sys_accept sys ?i k2 = (Inl EBADF, k3)" by (rule accept_closed)
  have s2: "?s \<in> fds k2" using k2 s by auto
  have k3': "fds k3 = fds k2" "backlog k3 ?s = backlog k2 ?s" using err(1) [OF k3] err(2) [OF k3 s2] s by auto
  define k4 where "k4 = sys_close sys ?i k3"
  have k4: "fds k4 = fds (kernel w) - {?i}" "backlog k4 ?s = backlog (kernel w) ?s"
    unfolding k4_def using close(1) [of ?i k3] close(2) [of ?s k3 ?i] k3' k2 s by auto
  obtain idle k5 where k5: "sys_open sys ''dev/null'' k4 = (idle, k5)" by fastforce
  have s4: "?s \<in> fds k4" using k4 s by auto
  let ?w = "LOG_ERROR ''Acceptor accept error'' (LOG_ERROR ''Socket listen sockfd error!'' (w\<lparr>kernel := k1\<rparr>))"
  have "acceptor_handleRead sys a w = (a\<lparr>idleFd := idle\<rparr>, ?w\<lparr>kernel := k5\<rparr>, None)"
    using e k3 k5
    by (simp add: acceptor_handleRead_def socket_accept_def LOG_ERROR_def k2_def [symmetric] k4_def [symmetric])
  then show thesis
    by (rule that) (use open_effect(1) [OF calls k5] open_effect(2) [OF calls k5 s4] k4 in
        \<open>auto simp: LOG_ERROR_def split: if_splits\<close>)
qed

text \<open>What one event does, seen from the descriptors, the waiting peers and the server.\<close>

definition accept_inv :: "('k \<Rightarrow> int set) \<Rightarrow> 'k AcceptState \<Rightarrow> bool" where
  "accept_inv fds st \<longleftrightarrow>
     acceptSocket (acceptor st) \<in> fds (kernel (world st)) \<and> idleFd (acceptor st) \<noteq> acceptSocket (acceptor st) \<and>
     (idleFd (acceptor st) \<in> fds (kernel (world st)) \<or> idleFd (acceptor st) < 0) \<and>
     hasNewConnectionCallback (acceptor st) \<and> tcp_reach (server st) \<and> listening (server st)"

text \<open>The descriptor and the peer of a connection object.\<close>

definition held :: "Conn \<Rightarrow> int \<times> sockaddr_in" where
  "held ob = (conn_fd ob, peerAddr ob)"

lemma newConnection_effect:
  assumes "newConnection d local peer srv = Some srv'"
  shows "nextConnId srv' = nextConnId srv + 1" "listening srv' = listening srv"
    "map_option held (objects srv' i) = (if i = nat (nextConnId srv) then Some (d, peer) else map_option held (objects srv i))"
  using assms
  by (auto simp: newConnection_def run_in_loop_def update_conn_def queue_functor_def held_def Let_def
      split: option.splits if_splits prod.splits)

lemma held_dom: "(\<And>i. map_option held (f i) = (if i \<in> A then Some (h i) else map_option held (g i))) \<Longrightarrow> dom f = dom g \<union> A"
proof -
  assume a: "\<And>i. map_option held (f i) = (if i \<in> A then Some (h i) else map_option held (g i))"
  have "f i \<noteq> None \<longleftrightarrow> i \<in> A \<or> g i \<noteq> None" for i using a [of i] by (cases "f i"; cases "g i"; cases "i \<in> A") simp_all
  then show ?thesis by blast
qed

lemma accept_event_error:
  assumes calls: "descriptor_calls sys fds backlog" and inv: "accept_inv fds st"
    and e: "sys_accept sys (acceptSocket (acceptor st)) (kernel (world st)) = (Inl errno, k)"
  obtains a w where "accept_event sys st = Some (st\<lparr>acceptor := a, world := w\<rparr>)"
    "accept_inv fds (st\<lparr>acceptor := a, world := w\<rparr>)" "acceptSocket a = acceptSocket (acceptor st)"
    "fds (kernel (world st)) - {idleFd (acceptor st)} = fds (kernel w) - {idleFd a}"
    "backlog (kernel w) (acceptSocket a) = backlog (kernel (world st)) (acceptSocket a) \<or>
     backlog (kernel w) (acceptSocket a) = tl (backlog (kernel (world st)) (acceptSocket a))"
    "length (errorLog (world st)) < length (errorLog w)"
proof (cases "errno = EMFILE")
  case True
  have s: "acceptSocket (acceptor st) \<in> fds (kernel (world st))" "idleFd (acceptor st) \<noteq> acceptSocket (acceptor st)"
    using inv by (simp_all add: accept_inv_def)
  from calls s e [unfolded True] obtain idle w where
    r: "acceptor_handleRead sys (acceptor st) (world st) = ((acceptor st)\<lparr>idleFd := idle\<rparr>, w, None)"
    and b: "backlog (kernel w) (acceptSocket (acceptor st)) = backlog (kernel (world st)) (acceptSocket (acceptor st))"
    and f: "if idle < 0 then fds (kernel w) = fds (kernel (world st)) - {idleFd (acceptor st)}
      else idle \<notin> fds (kernel (world st)) - {idleFd (acceptor st)} \<and>
        fds (kernel w) = insert idle (fds (kernel (world st)) - {idleFd (acceptor st)})"
    and l: "length (errorLog (world st)) < length (errorLog w)" by (rule emfile_effect)
  have n: "idle \<notin> fds (kernel (world st)) - {idleFd (acceptor st)}"
    using f descriptor_nonneg [OF calls, of idle "kernel (world st)"] by fastforce
  then have d: "fds (kernel w) - {idle} = fds (kernel (world st)) - {idleFd (acceptor st)}"
    using f by (cases "idle < 0") auto
  from n s have i: "idle \<noteq> acceptSocket (acceptor st)" by auto
  have "acceptSocket (acceptor st) \<in> fds (kernel w) - {idle}" unfolding d using s by simp
  then have "acceptSocket (acceptor st) \<in> fds (kernel w)" by simp
  moreover have "idle \<in> fds (kernel w) \<or> idle < 0" using f by (auto split: if_splits)
  ultimately have "accept_inv fds (st\<lparr>acceptor := (acceptor st)\<lparr>idleFd := idle\<rparr>, world := w\<rparr>)"
    using inv i by (simp add: accept_inv_def)
  moreover have "accept_event sys st = Some (st\<lparr>acceptor := (acceptor st)\<lparr>idleFd := idle\<rparr>, world := w\<rparr>)"
    using r by (simp add: accept_event_def)
  ultimately show thesis
    by (intro that [where a = "(acceptor st)\<lparr>idleFd := idle\<rparr>" and w = w]) (use b l d in simp_all)
next
  case False
  let ?w = "LOG_ERROR ''Acceptor accept error'' (LOG_ERROR ''Socket listen sockfd error!'' ((world st)\<lparr>kernel := k\<rparr>))"
  have "acceptor_handleRead sys (acceptor st) (world st) = (acceptor st, ?w, None)"
    using False e by (simp add: acceptor_handleRead_def socket_accept_def LOG_ERROR_def)
  then show thesis
    by (intro that [where a = "acceptor st" and w = ?w])
      (use inv accept_error(1,3) [OF calls e] in \<open>auto simp: accept_event_def accept_inv_def LOG_ERROR_def\<close>)
qed

lemma accept_event_success:
  assumes calls: "descriptor_calls sys fds backlog" "option_calls sys fds backlog" and inv: "accept_inv fds st"
    and r: "sys_accept sys (acceptSocket (acceptor st)) (kernel (world st)) = (Inr (d, peer), k)"
    and lt: "nextConnId (server st) < INT_MAX"
  obtains srv local w where "newConnection d local peer (server st) = Some srv"
    "accept_event sys st = Some (st\<lparr>world := w, server := srv, accepted := accepted st @ [(d, peer)]\<rparr>)"
    "accept_inv fds (st\<lparr>world := w, server := srv, accepted := accepted st @ [(d, peer)]\<rparr>)"
    "fds (kernel w) = fds k" "backlog (kernel w) = backlog k" "length (errorLog (world st)) \<le> length (errorLog w)"
proof -
  have t: "tcp_reach (server st)" "listening (server st)" using inv by (simp_all add: accept_inv_def)
  obtain local w where l: "getLocalAddr sys d ((world st)\<lparr>kernel := k\<rparr>) = (local, w)" by fastforce
  note same = accepted_world [OF calls(2) l]
  let ?w = "setKeepAlive sys d True w"
  obtain srv where srv: "newConnection d local peer (server st) = Some srv"
    using newConnection_inv [OF tcp_reach_inv [OF t(1)] lt] by blast
  have reach: "tcp_reach srv" by (rule tcp_reach.step [OF t(1) tcp_step.accept [OF t(2) srv]])
  have e: "accept_event sys st = Some (st\<lparr>world := ?w, server := srv, accepted := accepted st @ [(d, peer)]\<rparr>)"
    using inv r l srv by (simp add: accept_event_def acceptor_handleRead_def socket_accept_def accept_inv_def)
  have "accept_inv fds (st\<lparr>world := ?w, server := srv, accepted := accepted st @ [(d, peer)]\<rparr>)"
    using inv reach same(1) accept_success(3) [OF calls(1) r] newConnection_effect(2) [OF srv] by (auto simp: accept_inv_def)
  with e srv same show thesis by (intro that [of local srv ?w]) simp_all
qed

section \<open>Many events\<close>

definition accepts :: "('k \<Rightarrow> int set) \<Rightarrow> ('k \<Rightarrow> int \<Rightarrow> sockaddr_in list) \<Rightarrow> nat \<Rightarrow> 'k AcceptState \<Rightarrow> 'k AcceptState \<Rightarrow>
    (int \<times> sockaddr_in) list \<Rightarrow> bool" where
  "accepts fds backlog n st st' new \<longleftrightarrow>
     accepted st' = accepted st @ new \<and>
     nextConnId (server st') = nextConnId (server st) + int (length new) \<and>
     (\<forall>i. map_option held (objects (server st') i) =
        (if i \<in> {nat (nextConnId (server st)) ..< nat (nextConnId (server st)) + length new}
         then Some (new ! (i - nat (nextConnId (server st)))) else map_option held (objects (server st) i))) \<and>
     distinct (map fst new) \<and>
     fst ` set new \<inter> (fds (kernel (world st)) - {idleFd (acceptor st)}) = {} \<and>
     fds (kernel (world st')) - {idleFd (acceptor st')} =
       fds (kernel (world st)) - {idleFd (acceptor st)} \<union> fst ` set new \<and>
     subseq (map snd new) (backlog (kernel (world st)) (acceptSocket (acceptor st))) \<and>
     length (errorLog (world st)) \<le> length (errorLog (world st')) \<and>
     (length (errorLog (world st')) = length (errorLog (world st)) \<longrightarrow> length new = n \<and>
        backlog (kernel (world st)) (acceptSocket (acceptor st)) =
          map snd new @ backlog (kernel (world st')) (acceptSocket (acceptor st)))"

lemma accepts_error:
  assumes "accepts fds backlog n st1 st' new"
    "accepted st1 = accepted st" "server st1 = server st" "acceptSocket (acceptor st1) = acceptSocket (acceptor st)"
    "fds (kernel (world st)) - {idleFd (acceptor st)} = fds (kernel (world st1)) - {idleFd (acceptor st1)}"
    and b: "backlog (kernel (world st1)) (acceptSocket (acceptor st)) = backlog (kernel (world st)) (acceptSocket (acceptor st)) \<or>
     backlog (kernel (world st1)) (acceptSocket (acceptor st)) = tl (backlog (kernel (world st)) (acceptSocket (acceptor st)))"
    and l: "length (errorLog (world st)) < length (errorLog (world st1))"
  shows "accepts fds backlog (Suc n) st st' new"
proof -
  have "subseq xs ys" if "subseq xs (tl ys)" for xs ys :: "sockaddr_in list"
    using that subseq_order.trans [of xs "tl ys" ys] by (cases ys) auto
  then have "subseq (map snd new) (backlog (kernel (world st)) (acceptSocket (acceptor st)))"
    using assms(1,4) b unfolding accepts_def by metis
  with assms show ?thesis unfolding accepts_def by simp
qed

lemma accepts_success:
  assumes "accepts fds backlog n st1 st' new"
    and e: "accepted st1 = accepted st @ [(d, peer)]" "acceptor st1 = acceptor st"
      "newConnection d local peer (server st) = Some (server st1)"
      "length (errorLog (world st)) \<le> length (errorLog (world st1))" "1 \<le> nextConnId (server st)"
    and d: "d \<notin> fds (kernel (world st))" "fds (kernel (world st1)) = insert d (fds (kernel (world st)))"
      "d \<noteq> idleFd (acceptor st)"
    and b: "backlog (kernel (world st)) (acceptSocket (acceptor st)) =
      peer # backlog (kernel (world st1)) (acceptSocket (acceptor st))"
  shows "accepts fds backlog (Suc n) st st' ((d, peer) # new)"
proof -
  note c = newConnection_effect [OF e(3)]
  have f: "fds (kernel (world st1)) - {idleFd (acceptor st)} = insert d (fds (kernel (world st)) - {idleFd (acceptor st)})"
    using d by blast
  let ?N = "nat (nextConnId (server st))"
  have N: "nat (nextConnId (server st1)) = Suc ?N" using c(1) e(5) by (simp add: nat_add_distrib)
  have "map_option held (objects (server st') i) =
      (if i \<in> {?N ..< ?N + length ((d, peer) # new)} then Some (((d, peer) # new) ! (i - ?N)) else map_option held (objects (server st) i))"
    for i
  proof -
    have "map_option held (objects (server st') i) =
        (if i \<in> {Suc ?N ..< Suc ?N + length new} then Some (new ! (i - Suc ?N))
         else if i = ?N then Some (d, peer) else map_option held (objects (server st) i))"
    proof -
      have "map_option held (objects (server st') i) =
          (if i \<in> {nat (nextConnId (server st1)) ..< nat (nextConnId (server st1)) + length new}
           then Some (new ! (i - nat (nextConnId (server st1)))) else map_option held (objects (server st1) i))"
        using assms(1) unfolding accepts_def by blast
      then show ?thesis unfolding N c(3) .
    qed
    moreover have "i - ?N = Suc (i - Suc ?N)" if "Suc ?N \<le> i" using that by simp
    ultimately show ?thesis by auto
  qed
  with assms(1) c(1) e f d(1) b show ?thesis unfolding accepts_def
    by (simp add: insert_disjoint)
qed

lemma accept_events_effect:
  assumes calls: "descriptor_calls sys fds backlog" "option_calls sys fds backlog"
  shows "accept_inv fds st \<Longrightarrow> nextConnId (server st) + int n \<le> INT_MAX \<Longrightarrow>
    \<exists>st' new. accept_events sys n st = Some st' \<and> tcp_reach (server st') \<and> accepts fds backlog n st st' new"
proof (induction n arbitrary: st)
  case 0
  then show ?case by (intro exI [of _ st] exI [of _ "[]"]) (simp add: accepts_def accept_inv_def)
next
  case (Suc n)
  obtain r k where r: "sys_accept sys (acceptSocket (acceptor st)) (kernel (world st)) = (r, k)" by fastforce
  show ?case
  proof (cases r)
    case (Inl errno)
    from accept_event_error [OF calls(1) Suc.prems(1) r [unfolded Inl]] obtain a w where
      e: "accept_event sys st = Some (st\<lparr>acceptor := a, world := w\<rparr>)"
      "accept_inv fds (st\<lparr>acceptor := a, world := w\<rparr>)" "acceptSocket a = acceptSocket (acceptor st)"
      "fds (kernel (world st)) - {idleFd (acceptor st)} = fds (kernel w) - {idleFd a}"
      "backlog (kernel w) (acceptSocket a) = backlog (kernel (world st)) (acceptSocket a) \<or>
       backlog (kernel w) (acceptSocket a) = tl (backlog (kernel (world st)) (acceptSocket a))"
      "length (errorLog (world st)) < length (errorLog w)" by blast
    from Suc.IH [OF e(2)] Suc.prems(2) obtain st' new where
      "accept_events sys n (st\<lparr>acceptor := a, world := w\<rparr>) = Some st'" "tcp_reach (server st')"
      "accepts fds backlog n (st\<lparr>acceptor := a, world := w\<rparr>) st' new" by auto
    moreover from accepts_error [OF this(3)] e have "accepts fds backlog (Suc n) st st' new" by simp
    ultimately show ?thesis using e(1) by auto
  next
    case (Inr dp)
    obtain d peer where dp: "dp = (d, peer)" by fastforce
    have lt: "nextConnId (server st) < INT_MAX" using Suc.prems(2) by simp
    note s = accept_success [OF calls(1) r [unfolded Inr dp]]
    obtain srv local w where
      srv: "newConnection d local peer (server st) = Some srv"
      "accept_event sys st = Some (st\<lparr>world := w, server := srv, accepted := accepted st @ [(d, peer)]\<rparr>)"
      "accept_inv fds (st\<lparr>world := w, server := srv, accepted := accepted st @ [(d, peer)]\<rparr>)"
      and w: "fds (kernel w) = fds k" "backlog (kernel w) = backlog k" "length (errorLog (world st)) \<le> length (errorLog w)"
      by (rule accept_event_success [OF calls Suc.prems(1) r [unfolded Inr dp] lt]) (rule that)
    let ?st = "st\<lparr>world := w, server := srv, accepted := accepted st @ [(d, peer)]\<rparr>"
    have one: "1 \<le> nextConnId (server st)" and idle: "d \<noteq> idleFd (acceptor st)"
      using tcp_reach_inv [of "server st"] Suc.prems(1) s by (auto simp: accept_inv_def server_inv_def)
    from Suc.IH [OF srv(3)] Suc.prems(2) newConnection_effect(1) [OF srv(1)] obtain st' new where
      n: "accept_events sys n ?st = Some st'" "tcp_reach (server st')" "accepts fds backlog n ?st st' new" by auto
    have "accepts fds backlog (Suc n) st st' ((d, peer) # new)"
      by (rule accepts_success [OF n(3), where local = local]) (use srv(1) s w one idle in simp_all)
    with n srv(2) show ?thesis by auto
  qed
qed

section \<open>The listening socket and the poller\<close>

text \<open>
  Constructing the acceptor and listening registers the listening socket for reading, and
  destroying it takes it out of the poller again, unless a call of \<open>epoll_ctl\<close> fails.
\<close>

lemma acceptor_channel_life:
  assumes k: "epoll_kernel ctl interest" "interest s0 = Map.empty" and r: "poller_reach ctl s0 pl"
    and p: "Poller.objects pl p = None" and n: "newAcceptor sys p addr reuse (w, pl) = (a, w1, pl1)"
    and fresh: "\<forall>p' ch. Poller.objects pl p' = Some ch \<longrightarrow> fd ch \<noteq> acceptSocket a"
  obtains w2 pl2 w3 pl3 where
    "acceptor_listen sys ctl a (w1, pl1) = Some (a\<lparr>isListening := True\<rparr>, w2, pl2)" "poller_reach ctl s0 pl2"
    "ctlErrors pl2 = [] \<Longrightarrow> 0 \<le> acceptSocket a \<and> interest (epoll pl2) (acceptSocket a) = Some (kReadEvent, p)"
    "destroyAcceptor sys ctl (a\<lparr>isListening := True\<rparr>) (w2, pl2) = Some (w3, pl3)" "poller_reach ctl s0 pl3"
    "ctlErrors pl3 = [] \<Longrightarrow> interest (epoll pl3) (acceptSocket a) = None" "Poller.objects pl3 p = None"
proof -
  have a: "acceptChannel a = p"
    and pl1: "pl1 = pl\<lparr>Poller.objects := (Poller.objects pl)(p \<mapsto> (newChannel (acceptSocket a))\<lparr>Channel.callbacks := {ReadCallback}, tied := False\<rparr>)\<rparr>"
    using n by (auto simp: newAcceptor_def newChannel_def Let_def split: prod.splits)
  from k r p fresh obtain pl2 ch where c2: "channel_update ctl enableReading p pl1 = Some pl2" "poller_reach ctl s0 pl2"
    "Poller.objects pl2 p = Some ch" "fd ch = acceptSocket a"
    "ctlErrors pl2 = [] \<Longrightarrow> 0 \<le> acceptSocket a \<and> interest (epoll pl2) (acceptSocket a) = Some (kReadEvent, p)"
    unfolding pl1 by (rule watch_channel) (rule that [unfolded pl1])
  from k c2(2,3) obtain pl3 pl4 where c3: "channel_update ctl disableAll p pl2 = Some pl3" "channel_remove ctl p pl3 = Some pl4"
    "poller_reach ctl s0 (pl4\<lparr>Poller.objects := (Poller.objects pl4)(p := None)\<rparr>)" "ctlErrors pl4 = [] \<Longrightarrow> interest (epoll pl4) (fd ch) = None"
    by (rule unwatch_channel) (rule that)
  let ?w = "socket_listen sys (acceptSocket a) w1"
  show thesis
  proof (rule that)
    show "acceptor_listen sys ctl a (w1, pl1) = Some (a\<lparr>isListening := True\<rparr>, ?w, pl2)"
      using a c2(1) by (simp add: acceptor_listen_def)
    show "destroyAcceptor sys ctl (a\<lparr>isListening := True\<rparr>) (?w, pl2) =
        Some (destroySocket sys (acceptSocket a) (?w\<lparr>kernel := sys_close sys (idleFd a) (kernel ?w)\<rparr>),
          pl4\<lparr>Poller.objects := (Poller.objects pl4)(p := None)\<rparr>)"
      using a c3(1,2) by (simp add: destroyAcceptor_def)
  qed (use c2 c3 in simp_all)
qed

lemma accept_without_callback:
  assumes "descriptor_calls sys fds backlog" "\<not> hasNewConnectionCallback a"
    and r: "sys_accept sys (acceptSocket a) (kernel w) = (Inr (d, peer), k)"
  shows "\<exists>w'. acceptor_handleRead sys a w = (a, w', None) \<and> fds (kernel w') = fds (kernel w)"
  using assms close_effect(1) [OF assms(1), of d k] accept_success(2,3) [OF assms(1) r]
  by (simp add: acceptor_handleRead_def socket_accept_def)

section \<open>Properties\<close>

text \<open>
  C14: Accepted connections reach the server. Over any number of read events of the listening socket
  every accepted descriptor is given to the server exactly once: the peers it gets are among the
  waiting ones, in their order, on descriptors that were not open and differ from each other, and
  each of them gets its own connection object, numbered in turn, which holds that descriptor and that peer's
  address. No descriptor leaks while accepting: besides the spare one the open descriptors are the old ones and the
  accepted ones. As long as no error is logged, every event takes one peer and none is dropped. The
  server ends in a reachable state.
\<close>

theorem accepted_connections_served:
  assumes "descriptor_calls sys fds backlog" "option_calls sys fds backlog" "accept_inv fds st"
    "nextConnId (server st) + int n \<le> INT_MAX"
  shows "\<exists>st' new. accept_events sys n st = Some st' \<and> tcp_reach (server st') \<and>
    accepted st' = accepted st @ new \<and> distinct (map fst new) \<and>
    fst ` set new \<inter> (fds (kernel (world st)) - {idleFd (acceptor st)}) = {} \<and>
    fds (kernel (world st')) - {idleFd (acceptor st')} =
      fds (kernel (world st)) - {idleFd (acceptor st)} \<union> fst ` set new \<and>
    subseq (map snd new) (backlog (kernel (world st)) (acceptSocket (acceptor st))) \<and>
    nextConnId (server st') = nextConnId (server st) + int (length new) \<and>
    dom (objects (server st')) =
      dom (objects (server st)) \<union> {nat (nextConnId (server st)) ..< nat (nextConnId (server st)) + length new} \<and>
    (\<forall>k < length new. \<exists>ob. objects (server st') (nat (nextConnId (server st)) + k) = Some ob \<and>
       conn_fd ob = fst (new ! k) \<and> peerAddr ob = snd (new ! k)) \<and>
    (length (errorLog (world st')) = length (errorLog (world st)) \<longrightarrow> length new = n \<and>
       backlog (kernel (world st)) (acceptSocket (acceptor st)) =
         map snd new @ backlog (kernel (world st')) (acceptSocket (acceptor st)))"
proof -
  obtain st' new where e: "accept_events sys n st = Some st'" "tcp_reach (server st')" "accepts fds backlog n st st' new"
    using accept_events_effect [OF assms] by blast
  let ?N = "nat (nextConnId (server st))"
  have h: "map_option held (objects (server st') i) =
      (if i \<in> {?N ..< ?N + length new} then Some (new ! (i - ?N)) else map_option held (objects (server st) i))" for i
    using e(3) unfolding accepts_def by blast
  have "\<exists>ob. objects (server st') (?N + k) = Some ob \<and> conn_fd ob = fst (new ! k) \<and> peerAddr ob = snd (new ! k)"
    if "k < length new" for k
    using h [of "?N + k"] that by (auto simp: held_def prod_eq_iff)
  with e held_dom [OF h] show ?thesis unfolding accepts_def by (intro exI [of _ st'] exI [of _ new]) simp
qed

section \<open>Who owns a descriptor\<close>

definition live_conn :: "'k AcceptState \<Rightarrow> nat \<Rightarrow> Conn \<Rightarrow> bool" where
  "live_conn st i ob \<longleftrightarrow> objects (server st) i = Some ob \<and> i \<notin> released st"

text \<open>\<open>F\<close> are the descriptors that were open at the start, without the spare one.\<close>

definition serve_inv :: "('k \<Rightarrow> int set) \<Rightarrow> int set \<Rightarrow> 'k AcceptState \<Rightarrow> bool" where
  "serve_inv fds F st \<longleftrightarrow> accept_inv fds st \<and>
     fds (kernel (world st)) - {idleFd (acceptor st)} = F \<union> {conn_fd ob | i ob. live_conn st i ob} \<and>
     (\<forall>i ob. live_conn st i ob \<longrightarrow> conn_fd ob \<notin> F) \<and>
     (\<forall>i j ob ob'. live_conn st i ob \<longrightarrow> live_conn st j ob' \<longrightarrow> conn_fd ob = conn_fd ob' \<longrightarrow> i = j) \<and>
     acceptSocket (acceptor st) \<in> F \<and> nextConnId (server st) = 1 + int (length (accepted st)) \<and>
     (\<forall>i. map_option held (objects (server st) i) = (if 0 < i \<and> i \<le> length (accepted st) then Some (accepted st ! (i - 1)) else None)) \<and>
     released st \<subseteq> {1 .. length (accepted st)}"

lemma serve_invI:
  assumes "accept_inv fds st"
    "fds (kernel (world st)) - {idleFd (acceptor st)} = F \<union> {conn_fd ob | i ob. live_conn st i ob}"
    "\<And>i ob. live_conn st i ob \<Longrightarrow> conn_fd ob \<notin> F"
    "\<And>i j ob ob'. live_conn st i ob \<Longrightarrow> live_conn st j ob' \<Longrightarrow> conn_fd ob = conn_fd ob' \<Longrightarrow> i = j"
    "acceptSocket (acceptor st) \<in> F" "nextConnId (server st) = 1 + int (length (accepted st))"
    "\<And>i. map_option held (objects (server st) i) = (if 0 < i \<and> i \<le> length (accepted st) then Some (accepted st ! (i - 1)) else None)"
    "released st \<subseteq> {1 .. length (accepted st)}"
  shows "serve_inv fds F st"
  unfolding serve_inv_def by (intro conjI allI impI) (fact assms | erule assms(3,4), assumption+)+

lemma live_conn_fd:
  assumes "\<And>i. map_option held (objects (server st') i) = map_option held (objects (server st) i)" "released st' = released st"
    "live_conn st' i ob'"
  obtains ob where "live_conn st i ob" "conn_fd ob = conn_fd ob'"
proof -
  have "map_option held (objects (server st) i) = Some (held ob')" using assms(1) [of i] assms(3) by (simp add: live_conn_def)
  with assms(2,3) that show thesis by (auto simp: live_conn_def held_def)
qed

lemma serve_inv_same:
  assumes "serve_inv fds F st" "accept_inv fds st'" "fds (kernel (world st')) - {idleFd (acceptor st')} = fds (kernel (world st)) - {idleFd (acceptor st)}"
    "\<And>i. map_option held (objects (server st') i) = map_option held (objects (server st) i)" "released st' = released st"
    "accepted st' = accepted st" "acceptSocket (acceptor st') = acceptSocket (acceptor st)" "nextConnId (server st') = nextConnId (server st)"
  shows "serve_inv fds F st'"
proof -
  note inv = assms(1) [unfolded serve_inv_def]
  have old: "\<exists>ob. live_conn st i ob \<and> conn_fd ob = conn_fd ob'" if "live_conn st' i ob'" for i ob'
    using live_conn_fd [OF assms(4,5) that] by blast
  have new_: "\<exists>ob. live_conn st' i ob \<and> conn_fd ob = conn_fd ob'" if "live_conn st i ob'" for i ob'
    using live_conn_fd [OF assms(4,5) [symmetric] that] by blast
  have own: "{conn_fd ob | i ob. live_conn st' i ob} = {conn_fd ob | i ob. live_conn st i ob}"
    by (intro set_eqI) (use old new_ in \<open>auto; metis\<close>)
  have "\<forall>i ob. live_conn st' i ob \<longrightarrow> conn_fd ob \<notin> F" using old inv by metis
  moreover have "\<forall>i j ob ob'. live_conn st' i ob \<longrightarrow> live_conn st' j ob' \<longrightarrow> conn_fd ob = conn_fd ob' \<longrightarrow> i = j"
    using old inv by metis
  ultimately show ?thesis unfolding serve_inv_def own using inv assms(2-8) by simp
qed

lemma serve_accept:
  assumes calls: "descriptor_calls sys fds backlog" "option_calls sys fds backlog" and inv: "serve_inv fds F st"
    and e: "accept_event sys st = Some st'"
  shows "serve_inv fds F st'"
proof -
  note i = inv [unfolded serve_inv_def]
  have acc: "accept_inv fds st" using i by blast
  obtain r k where r: "sys_accept sys (acceptSocket (acceptor st)) (kernel (world st)) = (r, k)" by fastforce
  show ?thesis
  proof (cases r)
    case (Inl errno)
    obtain a w where a: "accept_event sys st = Some (st\<lparr>acceptor := a, world := w\<rparr>)"
      "accept_inv fds (st\<lparr>acceptor := a, world := w\<rparr>)" "acceptSocket a = acceptSocket (acceptor st)"
      "fds (kernel (world st)) - {idleFd (acceptor st)} = fds (kernel w) - {idleFd a}"
      by (rule accept_event_error [OF calls(1) acc r [unfolded Inl]]) (rule that)
    then have st': "st' = st\<lparr>acceptor := a, world := w\<rparr>" using e by simp
    show ?thesis by (rule serve_inv_same [OF inv]) (use a in \<open>simp_all add: st'\<close>)
  next
    case (Inr dp)
    obtain d peer where dp: "dp = (d, peer)" by fastforce
    note s = accept_success [OF calls(1) r [unfolded Inr dp]]
    have lt: "nextConnId (server st) < INT_MAX"
    proof -
      have "nextConnId (server st) \<noteq> INT_MAX"
        using e r Inr dp acc newConnection_overflow
        by (auto simp: accept_event_def acceptor_handleRead_def socket_accept_def accept_inv_def split: prod.splits)
      moreover have "nextConnId (server st) \<le> INT_MAX"
        using tcp_reach_inv [of "server st"] acc by (simp add: accept_inv_def server_inv_def)
      ultimately show ?thesis by simp
    qed
    obtain srv local w where srv: "newConnection d local peer (server st) = Some srv"
      "accept_event sys st = Some (st\<lparr>world := w, server := srv, accepted := accepted st @ [(d, peer)]\<rparr>)"
      "accept_inv fds (st\<lparr>world := w, server := srv, accepted := accepted st @ [(d, peer)]\<rparr>)"
      and w: "fds (kernel w) = fds k" "backlog (kernel w) = backlog k"
      by (rule accept_event_success [OF calls acc r [unfolded Inr dp] lt]) (rule that)
    let ?n = "length (accepted st)"
    have st': "st' = st\<lparr>world := w, server := srv, accepted := accepted st @ [(d, peer)]\<rparr>" using e srv(2) by simp
    have N: "nat (nextConnId (server st)) = Suc ?n" using i by simp
    note new = newConnection_effect [OF srv(1), unfolded N]
    have fresh: "d \<notin> fds (kernel (world st))" "d \<noteq> idleFd (acceptor st)"
      using s(1,2) acc by (auto simp: accept_inv_def)
    then have fresh': "d \<notin> F" "\<And>j ob. live_conn st j ob \<Longrightarrow> conn_fd ob \<noteq> d" using i by blast+
    have notF: "\<And>j ob. live_conn st j ob \<Longrightarrow> conn_fd ob \<notin> F"
      and uniq: "\<And>j j' ob ob'. live_conn st j ob \<Longrightarrow> live_conn st j' ob' \<Longrightarrow> conn_fd ob = conn_fd ob' \<Longrightarrow> j = j'" using i by blast+
    have notreleased: "Suc ?n \<notin> released st" using i by auto
    have before: "map_option held (objects (server st) j) = (if 0 < j \<and> j \<le> ?n then Some (accepted st ! (j - 1)) else None)" for j
      using i by blast
    have none: "objects (server st) (Suc ?n) = None" using before [of "Suc ?n"] by simp
    have h: "map_option held (objects srv j) = (if j = Suc ?n then Some (d, peer) else map_option held (objects (server st) j))" for j
      by (rule new(3))
    have old: "j = Suc ?n \<and> conn_fd ob' = d \<or> (\<exists>ob. live_conn st j ob \<and> conn_fd ob' = conn_fd ob)" if "live_conn st' j ob'" for j ob'
      using that h [of j] by (cases "objects (server st) j") (auto simp: live_conn_def st' held_def split: if_splits)
    have own: "{conn_fd ob | i ob. live_conn st' i ob} = insert d {conn_fd ob | i ob. live_conn st i ob}"
    proof (intro set_eqI iffI)
      fix x assume "x \<in> {conn_fd ob | i ob. live_conn st' i ob}"
      then obtain j ob' where "live_conn st' j ob'" "x = conn_fd ob'" by blast
      with old [OF this(1)] show "x \<in> insert d {conn_fd ob | i ob. live_conn st i ob}" by force
    next
      fix x assume x: "x \<in> insert d {conn_fd ob | i ob. live_conn st i ob}"
      show "x \<in> {conn_fd ob | i ob. live_conn st' i ob}"
      proof (cases "x = d")
        case True
        from h [of "Suc ?n"] obtain ob where "objects srv (Suc ?n) = Some ob" "held ob = (d, peer)" by auto
        with True notreleased show ?thesis by (auto simp: live_conn_def st' held_def)
      next
        case False
        with x obtain j ob where j: "live_conn st j ob" "x = conn_fd ob" by blast
        then have "j \<noteq> Suc ?n" using none by (auto simp: live_conn_def)
        with h [of j] j obtain ob' where "objects srv j = Some ob'" "held ob' = held ob" by (auto simp: live_conn_def)
        with j have "live_conn st' j ob'" "x = conn_fd ob'" by (simp_all add: live_conn_def st' held_def)
        then show ?thesis by blast
      qed
    qed
    have held: "map_option held (objects (server st') j) =
        (if 0 < j \<and> j \<le> length (accepted st') then Some (accepted st' ! (j - 1)) else None)" for j
      using h [of j] before [of j] by (auto simp: st' nth_append)
    have opened: "fds (kernel (world st')) - {idleFd (acceptor st')} = F \<union> {conn_fd ob | i ob. live_conn st' i ob}"
      unfolding own using w(1) s(3) fresh i by (auto simp: st')
    have outside: "conn_fd ob \<notin> F" if "live_conn st' j ob" for j ob
      using old [OF that] fresh'(1) notF by auto
    have distinct: "j = j'" if "live_conn st' j ob" "live_conn st' j' ob'" "conn_fd ob = conn_fd ob'" for j j' ob ob'
      using old [OF that(1)] old [OF that(2)] that(3) fresh'(2) uniq by (elim disjE exE conjE) (simp_all, blast+)
    have rest: "accept_inv fds st'" "acceptSocket (acceptor st') \<in> F" "nextConnId (server st') = 1 + int (length (accepted st'))"
      "released st' \<subseteq> {1 .. length (accepted st')}"
      using i srv(3) new(1) by (auto simp: st')
    show ?thesis by (rule serve_invI [OF rest(1) opened outside distinct rest(2,3) held rest(4)])
  qed
qed

lemma serve_release:
  assumes calls: "descriptor_calls sys fds backlog" and inv: "serve_inv fds F st" and e: "release_conn sys i st = Some st'"
  shows "serve_inv fds F st'"
proof -
  note n = inv [unfolded serve_inv_def]
  obtain ob where ob: "live_conn st i ob"
    and st': "st' = st\<lparr>world := destroySocket sys (conn_fd ob) (world st), released := insert i (released st)\<rparr>"
    using e by (auto simp: release_conn_def live_conn_def split: option.splits if_splits)
  have fd: "conn_fd ob \<notin> F" "conn_fd ob \<in> fds (kernel (world st))" "conn_fd ob \<noteq> idleFd (acceptor st)" using n ob by blast+
  have live: "live_conn st' j ob' \<longleftrightarrow> live_conn st j ob' \<and> j \<noteq> i" for j ob' by (auto simp: live_conn_def st')
  have fds: "fds (kernel (world st')) = fds (kernel (world st)) - {conn_fd ob}"
    using close_effect(1) [OF calls] by (simp add: st' destroySocket_def)
  have "{conn_fd ob' | j ob'. live_conn st' j ob'} = {conn_fd ob' | j ob'. live_conn st j ob'} - {conn_fd ob}"
  proof (intro set_eqI iffI)
    fix x assume "x \<in> {conn_fd ob' | j ob'. live_conn st' j ob'}"
    then obtain j ob' where j: "live_conn st j ob'" "j \<noteq> i" "x = conn_fd ob'" unfolding live by blast
    then have "conn_fd ob' \<noteq> conn_fd ob" using n ob by blast
    with j show "x \<in> {conn_fd ob' | j ob'. live_conn st j ob'} - {conn_fd ob}" by auto
  next
    fix x assume "x \<in> {conn_fd ob' | j ob'. live_conn st j ob'} - {conn_fd ob}"
    then obtain j ob' where j: "live_conn st j ob'" "x = conn_fd ob'" "x \<noteq> conn_fd ob" by blast
    then have "j \<noteq> i" using ob by (auto simp: live_conn_def)
    with j show "x \<in> {conn_fd ob' | j ob'. live_conn st' j ob'}" unfolding live by blast
  qed
  then have "fds (kernel (world st')) - {idleFd (acceptor st')} = F \<union> {conn_fd ob' | j ob'. live_conn st' j ob'}"
    using n fds fd by (auto simp: st')
  moreover have "accept_inv fds st'"
    using n fd fds by (auto simp: accept_inv_def st')
  moreover have "i \<in> {1 .. length (accepted st)}"
  proof -
    have "map_option held (objects (server st) i) = (if 0 < i \<and> i \<le> length (accepted st) then Some (accepted st ! (i - 1)) else None)"
      using n by blast
    with ob show ?thesis by (auto simp: live_conn_def split: if_splits)
  qed
  ultimately show ?thesis unfolding serve_inv_def live using n by (auto simp: st')
qed

lemma serve_work:
  assumes inv: "serve_inv fds F st" and e: "tcp_step (server st) srv'" "nextConnId srv' = nextConnId (server st)"
  shows "serve_inv fds F (st\<lparr>server := srv'\<rparr>)"
proof -
  have s: "same_loops (server st) srv'" using tcp_step_loops [OF e(1)] newConnection_effect(1) e(2) by fastforce
  have "map_option held (objects srv' i) = map_option held (objects (server st) i)" for i
  proof -
    have "map_option endpoints (objects srv' i) = map_option endpoints (objects (server st) i)" using s by (simp add: same_loops_def)
    then show ?thesis by (cases "objects srv' i"; cases "objects (server st) i") (auto simp: endpoints_def held_def)
  qed
  moreover have "accept_inv fds (st\<lparr>server := srv'\<rparr>)"
    using inv tcp_reach.step [OF _ e(1)] s by (simp add: serve_inv_def accept_inv_def same_loops_def)
  ultimately show ?thesis using e(2) by (intro serve_inv_same [OF inv]) simp_all
qed

lemma serve_steps_inv:
  assumes "descriptor_calls sys fds backlog" "option_calls sys fds backlog" "(serve_step sys)\<^sup>*\<^sup>* st st'" "serve_inv fds F st"
  shows "serve_inv fds F st'"
  using assms(3,4)
proof (induction rule: rtranclp_induct)
  case (step st1 st2)
  from step(2) show ?case
  proof cases
    case accept
    with serve_accept [OF assms(1,2)] step show ?thesis by blast
  next
    case (work srv')
    with serve_work step show ?thesis by blast
  next
    case (release i)
    with serve_release [OF assms(1)] step show ?thesis by blast
  qed
qed

text \<open>
  C99: Every accepted descriptor belongs to one connection object and is closed exactly once. Take a listening
  server without connections and let it work: accept connections, serve and close them in all their loops, and
  destroy connection objects to which neither its table nor a queued functor refers any more. At every moment each
  connection object that has not been destroyed holds its own open descriptor, the one it was accepted with,
  together with the address of that peer; two objects never share one, and none of them is the listening or the
  spare descriptor. All other open descriptors were open at the start: the descriptors of destroyed connections are
  closed, none leaks, and none is closed while its connection still exists.
\<close>

theorem descriptors_owned:
  assumes "descriptor_calls sys fds backlog" "option_calls sys fds backlog" "accept_inv fds st"
    "objects (server st) = Map.empty" "nextConnId (server st) = 1" "accepted st = []" "released st = {}"
    "(serve_step sys)\<^sup>*\<^sup>* st st'"
  shows "fds (kernel (world st')) - {idleFd (acceptor st')} =
      fds (kernel (world st)) - {idleFd (acceptor st)} \<union> {conn_fd ob | i ob. objects (server st') i = Some ob \<and> i \<notin> released st'} \<and>
    (\<forall>i ob. objects (server st') i = Some ob \<longrightarrow> 0 < i \<and> i \<le> length (accepted st') \<and>
       accepted st' ! (i - 1) = (conn_fd ob, peerAddr ob) \<and>
       (i \<notin> released st' \<longrightarrow> conn_fd ob \<in> fds (kernel (world st')) \<and>
          conn_fd ob \<notin> {acceptSocket (acceptor st'), idleFd (acceptor st')} \<and>
          conn_fd ob \<notin> fds (kernel (world st)) - {idleFd (acceptor st)} \<and>
          (\<forall>j ob'. objects (server st') j = Some ob' \<and> j \<notin> released st' \<and> conn_fd ob' = conn_fd ob \<longrightarrow> j = i)))"
proof -
  let ?F = "fds (kernel (world st)) - {idleFd (acceptor st)}"
  have "serve_inv fds ?F st"
    using assms(3-7) by (auto simp: serve_inv_def live_conn_def accept_inv_def)
  then have inv: "serve_inv fds ?F st'" using serve_steps_inv [OF assms(1,2,8)] by blast
  note n = inv [unfolded serve_inv_def live_conn_def]
  have "0 < i \<and> i \<le> length (accepted st') \<and> accepted st' ! (i - 1) = (conn_fd ob, peerAddr ob) \<and>
     (i \<notin> released st' \<longrightarrow> conn_fd ob \<in> fds (kernel (world st')) \<and>
        conn_fd ob \<notin> {acceptSocket (acceptor st'), idleFd (acceptor st')} \<and> conn_fd ob \<notin> ?F \<and>
        (\<forall>j ob'. objects (server st') j = Some ob' \<and> j \<notin> released st' \<and> conn_fd ob' = conn_fd ob \<longrightarrow> j = i))"
    if ob: "objects (server st') i = Some ob" for i ob
  proof (intro conjI impI)
    have "map_option held (objects (server st') i) = (if 0 < i \<and> i \<le> length (accepted st') then Some (accepted st' ! (i - 1)) else None)"
      using n by blast
    then show "0 < i" "i \<le> length (accepted st')" "accepted st' ! (i - 1) = (conn_fd ob, peerAddr ob)"
      using ob by (auto simp: held_def split: if_splits)
    assume live: "i \<notin> released st'"
    show notF: "conn_fd ob \<notin> ?F" using n ob live by blast
    have "conn_fd ob \<in> fds (kernel (world st')) - {idleFd (acceptor st')}" using n ob live by blast
    moreover have "acceptSocket (acceptor st') \<in> ?F" using n by blast
    ultimately show "conn_fd ob \<in> fds (kernel (world st'))" "conn_fd ob \<notin> {acceptSocket (acceptor st'), idleFd (acceptor st')}"
      using notF by auto
    show "\<forall>j ob'. objects (server st') j = Some ob' \<and> j \<notin> released st' \<and> conn_fd ob' = conn_fd ob \<longrightarrow> j = i"
      using n ob live by blast
  qed
  with n show ?thesis by blast
qed

text \<open>
  C39: Running out of descriptors is not handled. When \<open>accept\<close> fails with \<open>EMFILE\<close> the spare
  descriptor is closed, but the peer that waits is not accepted and turned away: it stays at the
  listening socket, which therefore stays readable. The spare descriptor is replaced only if the
  relative path \<open>dev/null\<close> opens; otherwise it is lost and its number is no longer reserved.
\<close>

theorem emfile_keeps_peer_waiting:
  assumes "descriptor_calls sys fds backlog" "acceptSocket a \<in> fds (kernel w)" "idleFd a \<noteq> acceptSocket a"
    "sys_accept sys (acceptSocket a) (kernel w) = (Inl EMFILE, k1)"
  shows "\<exists>idle w'. acceptor_handleRead sys a w = (a\<lparr>idleFd := idle\<rparr>, w', None) \<and>
    backlog (kernel w') (acceptSocket a) = backlog (kernel w) (acceptSocket a) \<and>
    (if idle < 0 then fds (kernel w') = fds (kernel w) - {idleFd a}
     else idle \<notin> fds (kernel w) - {idleFd a} \<and> fds (kernel w') = insert idle (fds (kernel w) - {idleFd a}))"
  using emfile_effect [OF assms] by blast

section \<open>A sample system\<close>

text \<open>
  Descriptors as a list, and the peers that wait at descriptor 3; at most \<open>limit\<close> descriptors are
  open, and only the absolute path exists.
\<close>

definition fresh :: "nat list \<Rightarrow> nat" where
  "fresh ds = Suc (foldr max ds 0)"

definition new_descriptor :: "nat list \<times> sockaddr_in list \<Rightarrow> int \<times> nat list \<times> sockaddr_in list" where
  "new_descriptor k = (int (fresh (fst k)), (fresh (fst k) # fst k, snd k))"

definition sample_sys :: "nat \<Rightarrow> (nat list \<times> sockaddr_in list) sys" where
  "sample_sys limit =
     \<lparr>sys_socket = new_descriptor,
      sys_setsockopt = (\<lambda>_ _ _ k. k), sys_bind = (\<lambda>_ _ k. (True, k)), sys_listen = (\<lambda>_ _ k. (True, k)),
      sys_accept = (\<lambda>s k.
        if s \<notin> int ` set (fst k) then (Inl EBADF, k)
        else if limit \<le> length (fst k) then (Inl EMFILE, k)
        else if s \<noteq> 3 \<or> snd k = [] then (Inl EAGAIN, k)
        else (Inr (int (fresh (fst k)), hd (snd k)), (fresh (fst k) # fst k, tl (snd k)))),
      sys_shutdown = (\<lambda>_ k. (True, k)),
      sys_open = (\<lambda>p k. if length (fst k) < limit \<and> p = ''/dev/null''
        then (int (fresh (fst k)), (fresh (fst k) # fst k, snd k)) else (-1, k)),
      sys_close = (\<lambda>d k. (filter (\<lambda>e. int e \<noteq> d) (fst k), snd k)),
      sys_eventfd = new_descriptor, sys_timerfd = new_descriptor,
      sys_getsockname = (\<lambda>_ _. None), sys_getpeername = (\<lambda>_ _. None)\<rparr>"

definition sample_fds :: "nat list \<times> sockaddr_in list \<Rightarrow> int set" where
  "sample_fds k = int ` set (fst k)"

definition sample_backlog :: "nat list \<times> sockaddr_in list \<Rightarrow> int \<Rightarrow> sockaddr_in list" where
  "sample_backlog k d = (if d = 3 then snd k else [])"

lemma fresh_notin: "fresh ds \<notin> set ds"
proof -
  have "d \<le> foldr max ds 0" if "d \<in> set ds" for d
    using that by (induction ds) auto
  then show ?thesis by (force simp: fresh_def)
qed

lemma sample_options: "option_calls (sample_sys limit) sample_fds sample_backlog"
  by (simp add: option_calls_def sample_sys_def)

lemma sample_calls: "descriptor_calls (sample_sys limit) sample_fds sample_backlog"
proof -
  have "close_ok (sample_sys limit) sample_fds sample_backlog"
    by (auto simp: close_ok_def sample_sys_def sample_fds_def sample_backlog_def)
  moreover have "open_ok (sample_sys limit) sample_fds sample_backlog"
    using fresh_notin by (auto simp: open_ok_def sample_sys_def sample_fds_def sample_backlog_def split: if_splits)
  moreover have "accept_ok (sample_sys limit) sample_fds sample_backlog"
    using fresh_notin
    by (auto simp: accept_ok_def sample_sys_def sample_fds_def sample_backlog_def EBADF_def EMFILE_def EAGAIN_def
        split: if_splits)
  ultimately show ?thesis by (auto simp: descriptor_calls_def sample_fds_def)
qed

definition sample_acceptor :: Acceptor where
  "sample_acceptor = \<lparr>acceptSocket = 3, acceptChannel = 0, hasNewConnectionCallback = True, isListening = True, idleFd = 4\<rparr>"

definition sample_accept_state :: "(nat list \<times> sockaddr_in list) AcceptState" where
  "sample_accept_state =
     \<lparr>acceptor = sample_acceptor, world = \<lparr>kernel = ([4, 3], [newInetAddress 5000 False, newInetAddress 5001 True]), errorLog = []\<rparr>,
      server = sample_server, accepted = [], released = {}\<rparr>"

lemma sample_accept_inv: "accept_inv sample_fds sample_accept_state"
proof -
  have "listening sample_server" by (simp add: sample_server_def started_server_def newTcpServer_def tcp_start_def Let_def)
  then show ?thesis
    using sample_reach [of sample_server]
    by (simp add: accept_inv_def sample_accept_state_def sample_acceptor_def sample_fds_def)
qed

theorem accepted_connections_served_witness:
  "\<exists>st' new. accept_events (sample_sys 8) 2 sample_accept_state = Some st' \<and> tcp_reach (server st') \<and>
     accepted st' = new \<and> nextConnId (server st') = 1 + int (length new) \<and>
     (\<forall>k < length new. \<exists>ob. objects (server st') (1 + k) = Some ob \<and> conn_fd ob = fst (new ! k)) \<and>
     subseq (map snd new) [newInetAddress 5000 False, newInetAddress 5001 True]"
proof -
  let ?st = sample_accept_state
  have s: "nextConnId sample_server = 1"
    by (simp add: sample_server_def started_server_def newTcpServer_def tcp_start_def Let_def)
  have st: "accepted ?st = []" "nextConnId (server ?st) = 1"
    "sample_backlog (kernel (world ?st)) (acceptSocket (acceptor ?st)) = [newInetAddress 5000 False, newInetAddress 5001 True]"
    using s by (simp_all add: sample_accept_state_def sample_acceptor_def sample_backlog_def)
  have le: "nextConnId (server ?st) + int 2 \<le> INT_MAX" using st(2) by (simp add: INT_MAX_def)
  from accepted_connections_served [OF sample_calls sample_options sample_accept_inv le, of 8] obtain st' new where
    "accept_events (sample_sys 8) 2 ?st = Some st'" "tcp_reach (server st')" "accepted st' = accepted ?st @ new"
    "nextConnId (server st') = nextConnId (server ?st) + int (length new)"
    "\<forall>k < length new. \<exists>ob. objects (server st') (nat (nextConnId (server ?st)) + k) = Some ob \<and>
       conn_fd ob = fst (new ! k) \<and> peerAddr ob = snd (new ! k)"
    "subseq (map snd new) (sample_backlog (kernel (world ?st)) (acceptSocket (acceptor ?st)))"
    by (elim exE conjE) (rule that)
  then show ?thesis using st by (intro exI [of _ st'] exI [of _ new]) auto
qed

theorem descriptors_owned_witness:
  "\<exists>st' ob ob'. (serve_step (sample_sys 8))\<^sup>*\<^sup>* sample_accept_state st' \<and> objects (server st') 1 = Some ob \<and>
     objects (server st') 2 = Some ob' \<and> conn_fd ob \<in> sample_fds (kernel (world st')) \<and> conn_fd ob \<noteq> conn_fd ob'"
proof -
  let ?st = sample_accept_state
  have start: "objects (server ?st) = Map.empty" "nextConnId (server ?st) = 1" "accepted ?st = []" "released ?st = {}"
    by (simp_all add: sample_accept_state_def sample_server_def started_server_def newTcpServer_def tcp_start_def Let_def)
  have run: "map_option (\<lambda>st. (map_option conn_fd (objects (server st) 1), map_option conn_fd (objects (server st) 2), released st))
      (Option.bind (accept_event (sample_sys 8) ?st) (accept_event (sample_sys 8))) = Some (Some 5, Some 6, {})"
    by (simp add: sample_accept_state_def sample_acceptor_def sample_server_def started_server_def newTcpServer_def tcp_start_def pool_start_def
        setThreadNum_def newEventLoopThreadPool_def newConnection_def getNextLoop_def run_in_loop_def queue_functor_def baseLoop_def
        INT_MAX_def connName_def upt_rec Let_def accept_event_def acceptor_handleRead_def socket_accept_def sample_sys_def fresh_def
        getLocalAddr_def setKeepAlive_def LOG_ERROR_def)
  then obtain st1 st2 ob ob' where e: "accept_event (sample_sys 8) ?st = Some st1" "accept_event (sample_sys 8) st1 = Some st2"
    and o: "objects (server st2) 1 = Some ob" "objects (server st2) 2 = Some ob'" "released st2 = {}"
    by (auto simp: bind_eq_Some_conv)
  have r: "(serve_step (sample_sys 8))\<^sup>*\<^sup>* ?st st2"
    using serve_step.accept [OF e(1)] serve_step.accept [OF e(2)] by (meson r_into_rtranclp rtranclp_trans)
  note own = descriptors_owned [OF sample_calls sample_options sample_accept_inv start r, THEN conjunct2, rule_format]
  have one: "conn_fd ob \<in> sample_fds (kernel (world st2))"
    "\<forall>j ob'. objects (server st2) j = Some ob' \<and> j \<notin> released st2 \<and> conn_fd ob' = conn_fd ob \<longrightarrow> j = 1"
    using own [OF o(1)] o(3) by simp_all
  from one(2) [rule_format, of 2 ob'] o(2,3) have "conn_fd ob \<noteq> conn_fd ob'" by auto
  with r o one(1) show ?thesis by blast
qed

theorem emfile_keeps_peer_waiting_witness:
  "\<exists>idle w'. acceptor_handleRead (sample_sys 2) sample_acceptor (world sample_accept_state) =
      (sample_acceptor\<lparr>idleFd := idle\<rparr>, w', None) \<and>
    sample_backlog (kernel w') 3 = [newInetAddress 5000 False, newInetAddress 5001 True]"
proof -
  have s: "acceptSocket sample_acceptor \<in> sample_fds (kernel (world sample_accept_state))"
    "idleFd sample_acceptor \<noteq> acceptSocket sample_acceptor"
    by (simp_all add: sample_acceptor_def sample_accept_state_def sample_fds_def)
  have "sys_accept (sample_sys 2) (acceptSocket sample_acceptor) (kernel (world sample_accept_state)) =
      (Inl EMFILE, kernel (world sample_accept_state))"
    by (simp add: sample_sys_def sample_acceptor_def sample_accept_state_def)
  from emfile_keeps_peer_waiting [OF sample_calls s this] obtain idle w' where
    "acceptor_handleRead (sample_sys 2) sample_acceptor (world sample_accept_state) =
      (sample_acceptor\<lparr>idleFd := idle\<rparr>, w', None)"
    "sample_backlog (kernel w') (acceptSocket sample_acceptor) =
      sample_backlog (kernel (world sample_accept_state)) (acceptSocket sample_acceptor)" by blast
  then show ?thesis
    by (intro exI [of _ idle] exI [of _ w']) (simp add: sample_acceptor_def sample_accept_state_def sample_backlog_def)
qed

end
