(* ===== verification/LoopLife.thy ===== *)
theory LoopLife
  imports Acceptor
begin

text \<open>
  Construction and destruction of an event loop (\<open>src/net/EventLoop.cc\<close>, with the constructor and
  the destructor of \<open>src/net/TimerQueue.cc\<close> as far as they concern the channel of the timer).

  A loop object owns a poller, the timer descriptor and the wake-up descriptor, each with a channel
  in the poller. \<open>t_loopInThisThread\<close> is a thread-local variable, so a map from threads to the
  address of a loop.
\<close>

section \<open>Constructors and destructors\<close>

record 's LoopObject =
  threadId :: nat
  loop_poller :: "'s Poller"
  timerfd :: int
  wakeup_fd :: int

text \<open>The addresses of the two channels in the loop's own poller.\<close>

definition timerfdChannel :: nat where "timerfdChannel = 0"
definition wakeupChannel :: nat where "wakeupChannel = 1"

definition createTimerfd :: "'k sys \<Rightarrow> 'k World \<Rightarrow> int \<times> 'k World" where
  "createTimerfd sys w =
     (let (fd, k) = sys_timerfd sys (kernel w); w = w\<lparr>kernel := k\<rparr>
      in (fd, if fd < 0 then LOG_ERROR ''Failed in timerfd_create'' w else w))"

definition createEventfd :: "'k sys \<Rightarrow> 'k World \<Rightarrow> int \<times> 'k World" where
  "createEventfd sys w =
     (let (fd, k) = sys_eventfd sys (kernel w); w = w\<lparr>kernel := k\<rparr>
      in (fd, if fd < 0 then LOG_ERROR ''eventfd error'' w else w))"

text \<open>A member channel with its read callback, registered for reading.\<close>

definition add_read_channel :: "'s epoll_ctl \<Rightarrow> nat \<Rightarrow> int \<Rightarrow> 's Poller \<Rightarrow> 's Poller option" where
  "add_read_channel ctl p f pl =
     channel_update ctl enableReading p
       (pl\<lparr>Poller.objects := (Poller.objects pl)(p \<mapsto> (newChannel f)\<lparr>Channel.callbacks := {ReadCallback}, tied := False\<rparr>)\<rparr>)"

definition drop_channel :: "'s epoll_ctl \<Rightarrow> nat \<Rightarrow> 's Poller \<Rightarrow> 's Poller option" where
  "drop_channel ctl p pl =
     (case channel_update ctl disableAll p pl of
        None \<Rightarrow> None
      | Some pl \<Rightarrow>
          map_option (\<lambda>pl. pl\<lparr>Poller.objects := (Poller.objects pl)(p := None)\<rparr>) (channel_remove ctl p pl))"

text \<open>
  \<open>Poller::newDefaultPoller\<close>: \<open>use_poll\<close> is whether the environment variable \<open>RMUDUO_USE_POLL\<close> is
  set, \<open>s0\<close> the fresh epoll instance; \<open>None\<close> is the null pointer.
\<close>

definition newDefaultPoller :: "bool \<Rightarrow> 's \<Rightarrow> 's Poller option" where
  "newDefaultPoller use_poll s0 = (if use_poll then None else Some (newPoller s0))"

text \<open>\<open>self\<close> is the address of the loop; \<open>None\<close> is a call on a null pointer or on a missing channel.\<close>

definition newEventLoop ::
  "'k sys \<Rightarrow> 's epoll_ctl \<Rightarrow> bool \<Rightarrow> 's \<Rightarrow> nat \<Rightarrow> nat \<Rightarrow> 'k World \<times> (nat \<rightharpoonup> nat) \<Rightarrow>
     ('s LoopObject \<times> 'k World \<times> (nat \<rightharpoonup> nat)) option" where
  "newEventLoop sys ctl use_poll s0 tid self = (\<lambda>(w, t_loopInThisThread).
     (let (tfd, w) = createTimerfd sys w in
      case Option.bind (newDefaultPoller use_poll s0) (add_read_channel ctl timerfdChannel tfd) of
        None \<Rightarrow> None
      | Some pl \<Rightarrow>
          (let (wfd, w) = createEventfd sys w;
               (w, t_loopInThisThread) =
                 (if t_loopInThisThread tid \<noteq> None
                  then (LOG_ERROR ''Another EventLoop exists in this thread'' w, t_loopInThisThread)
                  else (w, t_loopInThisThread(tid \<mapsto> self)))
           in map_option
                (\<lambda>pl. (\<lparr>threadId = tid, loop_poller = pl, timerfd = tfd, wakeup_fd = wfd\<rparr>, w, t_loopInThisThread))
                (add_read_channel ctl wakeupChannel wfd pl))))"

text \<open>\<open>me\<close> is the thread that runs the destructor.\<close>

definition destroyEventLoop ::
  "'k sys \<Rightarrow> 's epoll_ctl \<Rightarrow> nat \<Rightarrow> 's LoopObject \<Rightarrow> 'k World \<times> (nat \<rightharpoonup> nat) \<Rightarrow> ('s Poller \<times> 'k World \<times> (nat \<rightharpoonup> nat)) option" where
  "destroyEventLoop sys ctl me lo = (\<lambda>(w, t_loopInThisThread).
     (case drop_channel ctl wakeupChannel (loop_poller lo) of
        None \<Rightarrow> None
      | Some pl \<Rightarrow>
          (let w = w\<lparr>kernel := sys_close sys (wakeup_fd lo) (kernel w)\<rparr>;
               t_loopInThisThread = t_loopInThisThread(me := None)
           in case drop_channel ctl timerfdChannel pl of
                None \<Rightarrow> None
              | Some pl \<Rightarrow>
                  Some (pl, w\<lparr>kernel := sys_close sys (timerfd lo) (kernel w)\<rparr>, t_loopInThisThread))))"

section \<open>The channels of the loop\<close>

lemma drop_channel_effect:
  assumes k: "epoll_kernel ctl interest" "interest s0 = Map.empty" and r: "poller_reach ctl s0 pl" and p: "Poller.objects pl p = Some ch"
  obtains pl' where "drop_channel ctl p pl = Some pl'" "poller_reach ctl s0 pl'" "\<exists>xs. ctlErrors pl' = ctlErrors pl @ xs"
    "Poller.objects pl' = (Poller.objects pl)(p := None)"
proof -
  from k r p obtain pl1 pl2 where c: "channel_update ctl disableAll p pl = Some pl1" "channel_remove ctl p pl1 = Some pl2"
    "poller_reach ctl s0 (pl2\<lparr>Poller.objects := (Poller.objects pl2)(p := None)\<rparr>)" "\<exists>xs. ctlErrors pl2 = ctlErrors pl @ xs"
    by (rule unwatch_channel) (rule that)
  have "(Poller.objects pl2)(p := None) = (Poller.objects pl)(p := None)"
    using c(1,2) by (auto simp: channel_update_def channel_remove_def updateChannel_def removeChannel_def set_index_def Let_def fun_eq_iff
        split: option.splits if_splits)
  with c show thesis
    by (intro that [of "pl2\<lparr>Poller.objects := (Poller.objects pl2)(p := None)\<rparr>"]) (simp_all add: drop_channel_def)
qed

lemma channel_update_others: "channel_update ctl i p pl = Some pl' \<Longrightarrow> q \<noteq> p \<Longrightarrow> Poller.objects pl' q = Poller.objects pl q"
  by (auto simp: channel_update_def updateChannel_def set_index_def Let_def split: option.splits if_splits)

lemma add_read_channel_effect:
  assumes k: "epoll_kernel ctl interest" "interest s0 = Map.empty" and r: "poller_reach ctl s0 pl"
    and p: "Poller.objects pl p = None" and fresh: "\<forall>p' ch. Poller.objects pl p' = Some ch \<longrightarrow> fd ch \<noteq> f"
  obtains pl' ch where "add_read_channel ctl p f pl = Some pl'" "poller_reach ctl s0 pl'"
    "\<exists>xs. ctlErrors pl' = ctlErrors pl @ xs" "ctlErrors pl' = [] \<longrightarrow> 0 \<le> f"
    "Poller.objects pl' = (Poller.objects pl)(p \<mapsto> ch)" "fd ch = f" "events ch = kReadEvent" "added2Loop ch"
proof -
  from k r p fresh obtain pl' ch where c: "add_read_channel ctl p f pl = Some pl'" "poller_reach ctl s0 pl'"
    "Poller.objects pl' p = Some ch" "fd ch = f" "events ch = kReadEvent" "added2Loop ch"
    "\<exists>xs. ctlErrors pl' = ctlErrors pl @ xs" "ctlErrors pl' = [] \<Longrightarrow> 0 \<le> f \<and> interest (epoll pl') f = Some (kReadEvent, p)"
    unfolding add_read_channel_def by (rule watch_channel) (rule that [unfolded add_read_channel_def])
  moreover have "Poller.objects pl' = (Poller.objects pl)(p \<mapsto> ch)"
    using c(1,3) channel_update_others [where pl' = pl'] by (fastforce simp: add_read_channel_def fun_eq_iff)
  ultimately show thesis by (intro that) simp_all
qed

lemma loop_life:
  assumes k: "epoll_kernel ctl interest" "interest s0 = Map.empty"
    and fds: "sys_timerfd sys (kernel w) = (tfd, k1)" "sys_eventfd sys k1 = (wfd, k2)" "tfd \<noteq> wfd"
  obtains lo w1 tls1 pl w2 tls2 where
    "newEventLoop sys ctl False s0 tid self (w, tls) = Some (lo, w1, tls1)"
    "timerfd lo = tfd" "wakeup_fd lo = wfd"
    "ctlErrors (loop_poller lo) = [] \<longrightarrow> 0 \<le> tfd \<and> 0 \<le> wfd \<and>
       interest (epoll (loop_poller lo)) tfd = Some (kReadEvent, timerfdChannel) \<and>
       interest (epoll (loop_poller lo)) wfd = Some (kReadEvent, wakeupChannel)"
    "tls1 = (if tls tid = None then tls(tid \<mapsto> self) else tls)"
    "errorLog w1 = errorLog w @ (if tfd < 0 then [''Failed in timerfd_create''] else []) @
       (if wfd < 0 then [''eventfd error''] else []) @
       (if tls tid = None then [] else [''Another EventLoop exists in this thread''])"
    "destroyEventLoop sys ctl me lo (w1, tls1) = Some (pl, w2, tls2)" "Poller.objects pl = Map.empty"
    "\<exists>xs. ctlErrors pl = ctlErrors (loop_poller lo) @ xs" "ctlErrors pl = [] \<longrightarrow> interest (epoll pl) = Map.empty"
    "tls2 = tls1(me := None)"
proof -
  have d: "wakeupChannel \<noteq> timerfdChannel" by (simp add: wakeupChannel_def timerfdChannel_def)
  have new: "Poller.objects (newPoller s0) = Map.empty" by (simp add: newPoller_def)
  from k poller_reach.start obtain pl1 ch1 where c1: "add_read_channel ctl timerfdChannel tfd (newPoller s0) = Some pl1"
    "poller_reach ctl s0 pl1" "\<exists>xs. ctlErrors pl1 = ctlErrors (newPoller s0) @ xs" "ctlErrors pl1 = [] \<longrightarrow> 0 \<le> tfd"
    "Poller.objects pl1 = (Poller.objects (newPoller s0))(timerfdChannel \<mapsto> ch1)" "fd ch1 = tfd"
    "events ch1 = kReadEvent" "added2Loop ch1"
    by (rule add_read_channel_effect) (simp_all add: new)
  from k c1(2) obtain pl2 ch2 where c2: "add_read_channel ctl wakeupChannel wfd pl1 = Some pl2"
    "poller_reach ctl s0 pl2" "\<exists>xs. ctlErrors pl2 = ctlErrors pl1 @ xs" "ctlErrors pl2 = [] \<longrightarrow> 0 \<le> wfd"
    "Poller.objects pl2 = (Poller.objects pl1)(wakeupChannel \<mapsto> ch2)" "fd ch2 = wfd" "events ch2 = kReadEvent" "added2Loop ch2"
    by (rule add_read_channel_effect) (use c1(5,6) d fds(3) in \<open>auto simp: new split: if_splits\<close>)
  have o2: "Poller.objects pl2 timerfdChannel = Some ch1" "Poller.objects pl2 wakeupChannel = Some ch2"
    using c1(5) c2(5) d by simp_all
  have ok: "0 \<le> tfd \<and> 0 \<le> wfd \<and> interest (epoll pl2) tfd = Some (kReadEvent, timerfdChannel) \<and>
      interest (epoll pl2) wfd = Some (kReadEvent, wakeupChannel)" if none: "ctlErrors pl2 = []"
    using none c1(3,4,6-8) c2(3,4,6-8) channel_interest(1) [OF k c2(2) none o2(1)] channel_interest(1) [OF k c2(2) none o2(2)]
    by (auto simp: kReadEvent_value)
  from k c2(2) o2(2) obtain pl3 where c3: "drop_channel ctl wakeupChannel pl2 = Some pl3" "poller_reach ctl s0 pl3"
    "\<exists>xs. ctlErrors pl3 = ctlErrors pl2 @ xs" "Poller.objects pl3 = (Poller.objects pl2)(wakeupChannel := None)"
    by (rule drop_channel_effect)
  have o3: "Poller.objects pl3 timerfdChannel = Some ch1" using c3(4) o2(1) d by simp
  from k c3(2) o3 obtain pl4 where c4: "drop_channel ctl timerfdChannel pl3 = Some pl4" "poller_reach ctl s0 pl4"
    "\<exists>xs. ctlErrors pl4 = ctlErrors pl3 @ xs" "Poller.objects pl4 = (Poller.objects pl3)(timerfdChannel := None)"
    by (rule drop_channel_effect)
  have o4: "Poller.objects pl4 = Map.empty" using c4(4) c3(4) c2(5) c1(5) d by (simp add: new fun_eq_iff)
  have i4: "interest (epoll pl4) = Map.empty" if "ctlErrors pl4 = []"
    using poller_reach_inv [OF k c4(2)] that o4 unfolding poller_inv_def by (metis option.distinct(1) ext)
  have e4: "\<exists>xs. ctlErrors pl4 = ctlErrors pl2 @ xs" using c3(3) c4(3) by auto
  let ?lo = "\<lparr>threadId = tid, loop_poller = pl2, timerfd = tfd, wakeup_fd = wfd\<rparr>"
  let ?log = "(if tfd < 0 then [''Failed in timerfd_create''] else []) @ (if wfd < 0 then [''eventfd error''] else []) @
       (if tls tid = None then [] else [''Another EventLoop exists in this thread''])"
  let ?w = "w\<lparr>kernel := k2, errorLog := errorLog w @ ?log\<rparr>"
  let ?tls = "if tls tid = None then tls(tid \<mapsto> self) else tls"
  let ?w2 = "?w\<lparr>kernel := sys_close sys tfd (sys_close sys wfd k2)\<rparr>"
  have n: "newEventLoop sys ctl False s0 tid self (w, tls) = Some (?lo, ?w, ?tls)"
    using fds(1,2) c1(1) c2(1) by (auto simp: newEventLoop_def newDefaultPoller_def createTimerfd_def createEventfd_def LOG_ERROR_def)
  have x: "destroyEventLoop sys ctl me ?lo (?w, ?tls) = Some (pl4, ?w2, ?tls(me := None))"
    using c3(1) c4(1) by (simp add: destroyEventLoop_def)
  show thesis
    by (rule that [OF n _ _ _ _ _ x]) (use ok o4 i4 e4 in simp_all)
qed

text \<open>
  C40: An event loop is watched from its construction to its destruction, or an error is logged. When no call of
  \<open>epoll_ctl\<close> has failed by the end of the constructor, both descriptors were created, and the timer
  descriptor and the wake-up descriptor are registered for reading, each under its own channel, so that
  both timers and \<open>wakeup\<close> end a wait. The destructor leaves no channel behind and, when no call has
  failed by its end, nothing in the interest list. It makes the thread that runs it forget its loop, which is
  right when that thread created the loop. A second loop in the same thread is not prevented, only logged, and
  destroying it there makes the thread forget the first. With \<open>RMUDUO_USE_POLL\<close> set there is no poller and
  the construction fails. (The two descriptors are taken to be different, which leaves out the case that
  both system calls fail.)
\<close>

theorem loop_construction:
  assumes "epoll_kernel ctl interest" "interest s0 = Map.empty"
    and "sys_timerfd sys (kernel w) = (tfd, k1)" "sys_eventfd sys k1 = (wfd, k2)" "tfd \<noteq> wfd"
  shows "\<exists>lo w1 tls1 pl w2 tls2. newEventLoop sys ctl False s0 tid self (w, tls) = Some (lo, w1, tls1) \<and>
    (ctlErrors (loop_poller lo) = [] \<longrightarrow> 0 \<le> timerfd lo \<and> 0 \<le> wakeup_fd lo \<and>
       interest (epoll (loop_poller lo)) (timerfd lo) = Some (kReadEvent, timerfdChannel) \<and>
       interest (epoll (loop_poller lo)) (wakeup_fd lo) = Some (kReadEvent, wakeupChannel)) \<and>
    destroyEventLoop sys ctl me lo (w1, tls1) = Some (pl, w2, tls2) \<and>
    Poller.objects pl = Map.empty \<and> (ctlErrors pl = [] \<longrightarrow> interest (epoll pl) = Map.empty) \<and>
    tls2 = tls1(me := None) \<and>
    (tls tid = None \<longrightarrow> tls1 = tls(tid \<mapsto> self) \<and> (me = tid \<longrightarrow> tls2 = tls)) \<and>
    (tls tid \<noteq> None \<longrightarrow> tls1 = tls \<and> last (errorLog w1) = ''Another EventLoop exists in this thread'' \<and>
       (me = tid \<longrightarrow> tls2 tid = None)) \<and>
    newEventLoop sys ctl True s0 tid self (w, tls) = None"
proof -
  from assms obtain lo w1 tls1 pl w2 tls2 where l:
    "newEventLoop sys ctl False s0 tid self (w, tls) = Some (lo, w1, tls1)"
    "timerfd lo = tfd" "wakeup_fd lo = wfd"
    "ctlErrors (loop_poller lo) = [] \<longrightarrow> 0 \<le> tfd \<and> 0 \<le> wfd \<and>
       interest (epoll (loop_poller lo)) tfd = Some (kReadEvent, timerfdChannel) \<and>
       interest (epoll (loop_poller lo)) wfd = Some (kReadEvent, wakeupChannel)"
    "tls1 = (if tls tid = None then tls(tid \<mapsto> self) else tls)"
    "errorLog w1 = errorLog w @ (if tfd < 0 then [''Failed in timerfd_create''] else []) @
       (if wfd < 0 then [''eventfd error''] else []) @
       (if tls tid = None then [] else [''Another EventLoop exists in this thread''])"
    "destroyEventLoop sys ctl me lo (w1, tls1) = Some (pl, w2, tls2)" "Poller.objects pl = Map.empty"
    "\<exists>xs. ctlErrors pl = ctlErrors (loop_poller lo) @ xs" "ctlErrors pl = [] \<longrightarrow> interest (epoll pl) = Map.empty"
    "tls2 = tls1(me := None)"
    by (rule loop_life)
  have poll: "newEventLoop sys ctl True s0 tid self (w, tls) = None"
    by (simp add: newEventLoop_def newDefaultPoller_def split: prod.splits)
  have watched: "ctlErrors (loop_poller lo) = [] \<longrightarrow> 0 \<le> timerfd lo \<and> 0 \<le> wakeup_fd lo \<and>
      interest (epoll (loop_poller lo)) (timerfd lo) = Some (kReadEvent, timerfdChannel) \<and>
      interest (epoll (loop_poller lo)) (wakeup_fd lo) = Some (kReadEvent, wakeupChannel)"
    using l(2-4) by simp
  have first: "tls tid = None \<longrightarrow> tls1 = tls(tid \<mapsto> self) \<and> (me = tid \<longrightarrow> tls2 = tls)"
    using l(5,11) by (auto simp: fun_eq_iff)
  have second: "tls tid \<noteq> None \<longrightarrow> tls1 = tls \<and> last (errorLog w1) = ''Another EventLoop exists in this thread'' \<and>
      (me = tid \<longrightarrow> tls2 tid = None)"
    using l(5,6,11) by simp
  from l(1) watched l(7,8,10,11) first second poll show ?thesis by (intro exI conjI)
qed

text \<open>A second loop in a thread.\<close>

theorem loop_construction_witness:
  "\<exists>lo w1 tls1 pl w2 tls2.
     newEventLoop (sample_sys 9) sample_ctl False [] 7 1 (\<lparr>kernel = ([], []), errorLog = []\<rparr>, [7 \<mapsto> 5]) = Some (lo, w1, tls1) \<and>
     tls1 = [7 \<mapsto> 5] \<and> last (errorLog w1) = ''Another EventLoop exists in this thread'' \<and>
     destroyEventLoop (sample_sys 9) sample_ctl 7 lo (w1, tls1) = Some (pl, w2, tls2) \<and> tls2 7 = None"
proof -
  let ?w = "\<lparr>kernel = ([], []), errorLog = []\<rparr> :: (nat list \<times> sockaddr_in list) World"
  have f: "sys_timerfd (sample_sys 9) (kernel ?w) = (1, ([1], []))" "sys_eventfd (sample_sys 9) ([1], []) = (2, ([2, 1], []))"
    by (simp_all add: sample_sys_def new_descriptor_def fresh_def)
  have ne: "(1 :: int) \<noteq> 2" by simp
  have empty: "map_of [] = (Map.empty :: int \<Rightarrow> (u32 \<times> nat) option)" by simp
  from loop_construction [where w = ?w and tid = 7 and self = 1 and tls = "[7 \<mapsto> 5]" and me = 7, OF sample_kernel empty f ne]
  obtain lo w1 tls1 pl w2 tls2 where
    "newEventLoop (sample_sys 9) sample_ctl False [] 7 1 (?w, [7 \<mapsto> 5]) = Some (lo, w1, tls1)"
    "destroyEventLoop (sample_sys 9) sample_ctl 7 lo (w1, tls1) = Some (pl, w2, tls2)"
    "[7 \<mapsto> 5 :: nat] (7 :: nat) \<noteq> None \<longrightarrow> tls1 = [7 \<mapsto> 5] \<and> last (errorLog w1) = ''Another EventLoop exists in this thread'' \<and>
       ((7 :: nat) = 7 \<longrightarrow> tls2 7 = None)"
    by blast
  then show ?thesis
    by (intro exI [of _ lo] exI [of _ w1] exI [of _ tls1] exI [of _ pl] exI [of _ w2] exI [of _ tls2]) simp
qed

end
