(* ===== verification/ServerShutdown.thy ===== *)
theory ServerShutdown
  imports TcpServer
begin

text \<open>
  Destroying the TCP server (the destructor in \<open>src/net/TcpServer.cc\<close>).

  Only the body of the destructor is modelled, not the destruction of the members that follows it: that of
  the pool quits and joins the threads (theory \<open>EventLoopThread\<close>), and while it waits the loops go on. A removal
  that is queued in the base loop when the server is destroyed, or a connection that closes after it, would call
  into the destroyed server; these cases are left out.

  The body runs in the thread of the base loop and hands every connection of the table to its
  loop for destruction; \<open>items\<close> is the order in which it meets them, that of a hash table. What
  happens to a connection afterwards depends only on the functors queued for it in its own loop,
  so the result is computed from them, whatever the interleaving of the loops.
\<close>

section \<open>The destructor\<close>

definition destroy_item :: "nat \<Rightarrow> TcpServer \<Rightarrow> TcpServer option" where
  "destroy_item i srv =
     (case objects srv i of
        None \<Rightarrow> None
      | Some ob \<Rightarrow>
          run_in_loop baseLoop (conn_loop ob) (ConnectDestroyed i)
            (srv\<lparr>connections := (connections srv)(conn_name ob := None)\<rparr>))"

fun destroyTcpServer :: "nat list \<Rightarrow> TcpServer \<Rightarrow> TcpServer option" where
  "destroyTcpServer [] srv = Some srv"
| "destroyTcpServer (i # items) srv =
     (case destroy_item i srv of None \<Rightarrow> None | Some srv \<Rightarrow> destroyTcpServer items srv)"

section \<open>Functors act on their own connection\<close>

fun conn_effect :: "ServerFunctor \<Rightarrow> TcpConnection \<Rightarrow> TcpConnection" where
  "conn_effect (ConnectEstablished i) c = connectEstablished c"
| "conn_effect (ConnectDestroyed i) c = connectDestroyed c"
| "conn_effect (RemoveConnectionInLoop i) c = c"

definition functors_of :: "TcpServer \<Rightarrow> nat \<Rightarrow> Conn \<Rightarrow> ServerFunctor list" where
  "functors_of srv i ob = filter (\<lambda>f. subject f = i) (pending srv (conn_loop ob))"

text \<open>The connection once the functors queued for it have run.\<close>

definition eventual :: "TcpServer \<Rightarrow> nat \<Rightarrow> Conn \<Rightarrow> TcpConnection" where
  "eventual srv i ob = fold conn_effect (functors_of srv i ob) (tcp ob)"

definition no_removal :: "TcpServer \<Rightarrow> bool" where
  "no_removal srv \<longleftrightarrow> (\<forall>l i. RemoveConnectionInLoop i \<notin> set (pending srv l))"

definition functors_ok :: "TcpServer \<Rightarrow> bool" where
  "functors_ok srv \<longleftrightarrow> (\<forall>l. \<forall>f \<in> set (pending srv l). functor_ok (objects srv) l f)"

lemma call_functor_object:
  assumes f: "functor_ok (objects srv) l f" "\<forall>i. f \<noteq> RemoveConnectionInLoop i"
  obtains ob where "objects srv (subject f) = Some ob" "conn_loop ob = l"
    "call_functor f srv = Some (srv\<lparr>objects := (objects srv)(subject f \<mapsto> ob\<lparr>tcp := conn_effect f (tcp ob)\<rparr>)\<rparr>)"
  using assms by (cases f) (auto simp: update_conn_def)

lemma head_functor:
  assumes "pending srv l = f # fs" "no_removal srv" "functors_ok srv"
  shows "functor_ok (objects srv) l f" "\<forall>i. f \<noteq> RemoveConnectionInLoop i"
  using assms unfolding no_removal_def functors_ok_def by (metis list.set_intros(1))+

lemma functor_step_eventual:
  assumes st: "functor_step srv srv'" and nr: "no_removal srv" and ok: "functors_ok srv"
  obtains l f fs where "pending srv l = f # fs" "pending srv' = (pending srv)(l := fs)"
    "no_removal srv'" "functors_ok srv'"
    "\<And>i ob. objects srv i = Some ob \<Longrightarrow> \<exists>c. objects srv' i = Some (ob\<lparr>tcp := c\<rparr>) \<and> eventual srv' i (ob\<lparr>tcp := c\<rparr>) = eventual srv i ob"
proof -
  obtain l f fs where p: "pending srv l = f # fs"
    and c: "call_functor f (srv\<lparr>pending := (pending srv)(l := fs)\<rparr>) = Some srv'" using st by (rule functor_stepE)
  have f: "functor_ok (objects (srv\<lparr>pending := (pending srv)(l := fs)\<rparr>)) l f" "\<forall>i. f \<noteq> RemoveConnectionInLoop i"
    using head_functor [OF p nr ok] by simp_all
  from f obtain obf where ob: "objects srv (subject f) = Some obf" "conn_loop obf = l"
    and srv': "srv' = srv\<lparr>pending := (pending srv)(l := fs), objects := (objects srv)(subject f \<mapsto> obf\<lparr>tcp := conn_effect f (tcp obf)\<rparr>)\<rparr>"
    by (rule call_functor_object) (use c in auto)
  have "functor_ok (objects srv') l' g" if "g \<in> set (pending srv' l')" for l' g
  proof -
    have "g \<in> set (pending srv l')" using that p srv' by (auto split: if_splits)
    then have "functor_ok (objects srv) l' g" using ok by (simp add: functors_ok_def)
    then show ?thesis using ob(1) functor_ok_update [of "objects srv" "subject f" obf] srv' by simp
  qed
  then have ok': "functors_ok srv'" by (simp add: functors_ok_def)
  have nr': "no_removal srv'"
    using nr p srv' by (auto simp: no_removal_def split: if_splits) (metis list.set_intros(2))
  have "\<exists>c. objects srv' i = Some (ob\<lparr>tcp := c\<rparr>) \<and> eventual srv' i (ob\<lparr>tcp := c\<rparr>) = eventual srv i ob"
    if o: "objects srv i = Some ob" for i ob
  proof (cases "i = subject f")
    case True
    then show ?thesis using o ob srv' p by (auto simp: eventual_def functors_of_def)
  next
    case False
    then have "functors_of srv' i ob = functors_of srv i ob" using srv' p by (simp add: functors_of_def)
    with False o srv' show ?thesis by (intro exI [of _ "tcp ob"]) (simp add: eventual_def)
  qed
  with p srv' ok' nr' show thesis by (intro that [of l f fs]) simp_all
qed

lemma functor_steps_eventual:
  assumes "functor_step\<^sup>*\<^sup>* srv srv'" "no_removal srv" "functors_ok srv"
  shows "no_removal srv' \<and> functors_ok srv' \<and> (\<forall>i ob. objects srv i = Some ob \<longrightarrow>
    (\<exists>c. objects srv' i = Some (ob\<lparr>tcp := c\<rparr>) \<and> eventual srv' i (ob\<lparr>tcp := c\<rparr>) = eventual srv i ob))"
  using assms
proof (induction rule: rtranclp_induct)
  case base
  have "ob = ob\<lparr>tcp := tcp ob\<rparr>" for ob :: Conn by simp
  with base show ?case by metis
next
  case (step y z)
  then have y: "no_removal y" "functors_ok y" "\<forall>i ob. objects srv i = Some ob \<longrightarrow>
    (\<exists>c. objects y i = Some (ob\<lparr>tcp := c\<rparr>) \<and> eventual y i (ob\<lparr>tcp := c\<rparr>) = eventual srv i ob)" by auto
  from step(2) y(1,2) obtain "no_removal z" "functors_ok z"
    and o: "\<And>i ob. objects y i = Some ob \<Longrightarrow> \<exists>c. objects z i = Some (ob\<lparr>tcp := c\<rparr>) \<and> eventual z i (ob\<lparr>tcp := c\<rparr>) = eventual y i ob"
    by (rule functor_step_eventual) blast
  moreover have "\<exists>c. objects z i = Some (ob\<lparr>tcp := c\<rparr>) \<and> eventual z i (ob\<lparr>tcp := c\<rparr>) = eventual srv i ob"
    if i: "objects srv i = Some ob" for i ob
  proof -
    obtain c where c: "objects y i = Some (ob\<lparr>tcp := c\<rparr>)" "eventual y i (ob\<lparr>tcp := c\<rparr>) = eventual srv i ob"
      using y(3) i by blast
    from o [OF c(1)] c(2) show ?thesis by auto
  qed
  ultimately show ?case by blast
qed

text \<open>Each step takes one functor, and there are finitely many.\<close>

definition destroying :: "TcpServer \<Rightarrow> bool" where
  "destroying srv \<longleftrightarrow> no_removal srv \<and> functors_ok srv \<and> finite {l. pending srv l \<noteq> []}"

definition functor_count :: "TcpServer \<Rightarrow> nat" where
  "functor_count srv = (\<Sum>l \<in> {l. pending srv l \<noteq> []}. length (pending srv l))"

lemma functor_step_count:
  assumes st: "functor_step srv srv'" and d: "destroying srv"
  shows "destroying srv' \<and> functor_count srv' < functor_count srv"
proof -
  let ?L = "{l. pending srv l \<noteq> []}"
  have fin: "finite ?L" and nr: "no_removal srv" and ok: "functors_ok srv" using d by (simp_all add: destroying_def)
  from st nr ok obtain l f fs where p: "pending srv l = f # fs" "pending srv' = (pending srv)(l := fs)"
    "no_removal srv'" "functors_ok srv'" by (rule functor_step_eventual)
  have l: "l \<in> ?L" and sub: "{l. pending srv' l \<noteq> []} \<subseteq> ?L" using p(1,2) by auto
  have "functor_count srv' = (\<Sum>l \<in> ?L. length (pending srv' l))"
    unfolding functor_count_def using fin sub by (intro sum.mono_neutral_left) auto
  also have "Suc \<dots> = functor_count srv"
    unfolding functor_count_def using fin l p(1,2) by (simp add: sum.remove [of ?L l])
  finally show ?thesis using p(3,4) finite_subset [OF sub fin] by (simp add: destroying_def)
qed

interpretation shutdown_run: decreasing_steps functor_step destroying functor_count
  by unfold_locales (simp_all add: functor_step_count)

lemma finished_no_functor:
  assumes "no_removal srv" "functors_ok srv" "\<nexists>srv'. functor_step srv srv'"
  shows "pending srv l = []"
proof (cases "pending srv l")
  case (Cons f fs)
  then have f: "functor_ok (objects (srv\<lparr>pending := (pending srv)(l := fs)\<rparr>)) l f" "\<forall>i. f \<noteq> RemoveConnectionInLoop i"
    using head_functor [OF Cons assms(1,2)] by simp_all
  from f obtain srv' where "call_functor f (srv\<lparr>pending := (pending srv)(l := fs)\<rparr>) = Some srv'"
    by (rule call_functor_object)
  with Cons assms(3) functor_step.call show ?thesis by blast
qed simp


section \<open>The base loop\<close>

text \<open>A connection of the base loop is established at once, so none waits in its queue.\<close>

definition base_quiet :: "TcpServer \<Rightarrow> bool" where
  "base_quiet srv \<longleftrightarrow> (\<forall>i. ConnectEstablished i \<notin> set (pending srv baseLoop))"

lemma call_functor_quiet: "base_quiet srv \<Longrightarrow> call_functor f srv = Some srv' \<Longrightarrow> base_quiet srv'"
  by (cases f) (auto simp: base_quiet_def update_conn_def removeConnectionInLoop_def queue_functor_def
      split: option.splits if_splits)

lemma channel_call_quiet: "base_quiet srv \<Longrightarrow> channel_call readv w i cb srv = Some srv' \<Longrightarrow> base_quiet srv'"
  by (auto simp: base_quiet_def channel_call_def removeConnection_def run_in_loop_def removeConnectionInLoop_def
      queue_functor_def Let_def split: option.splits if_splits)

lemma channel_calls_quiet: "base_quiet srv \<Longrightarrow> channel_calls readv w i cbs srv = Some srv' \<Longrightarrow> base_quiet srv'"
proof (induction cbs arbitrary: srv)
  case (Cons cb cbs)
  then show ?case by (auto split: option.splits dest: channel_call_quiet)
qed simp

lemma newConnection_quiet: "base_quiet srv \<Longrightarrow> newConnection sockfd local peer srv = Some srv' \<Longrightarrow> base_quiet srv'"
  by (auto simp: base_quiet_def newConnection_def run_in_loop_def queue_functor_def update_conn_def Let_def
      split: option.splits if_splits prod.splits)

lemma update_conn_quiet: "base_quiet srv \<Longrightarrow> update_conn i g srv = Some srv' \<Longrightarrow> base_quiet srv'"
  by (auto simp: base_quiet_def update_conn_def split: option.splits)

lemma functor_step_quiet: "functor_step srv srv' \<Longrightarrow> base_quiet srv \<Longrightarrow> base_quiet srv'"
proof (elim functor_stepE)
  fix l f fs assume q: "base_quiet srv" and p: "pending srv l = f # fs"
    and c: "call_functor f (srv\<lparr>pending := (pending srv)(l := fs)\<rparr>) = Some srv'"
  have "base_quiet (srv\<lparr>pending := (pending srv)(l := fs)\<rparr>)" using q p by (auto simp: base_quiet_def)
  then show ?thesis using c by (rule call_functor_quiet)
qed

lemma tcp_reach_quiet: "tcp_reach srv \<Longrightarrow> base_quiet srv"
proof (induction rule: tcp_reach.induct)
  case (start startLoop n nm addr wc)
  then show ?case by (simp add: base_quiet_def started_server_def tcp_start_def newTcpServer_def Let_def)
next
  case (step srv srv')
  from step(2) step(3) show ?case
    by cases (auto simp: channel_event_def intro: newConnection_quiet functor_step_quiet channel_calls_quiet update_conn_quiet)
qed

section \<open>What the destructor leaves to do\<close>

lemma destroy_item_eventual:
  assumes ob: "objects srv i = Some ob" and base: "conn_loop ob = baseLoop \<Longrightarrow> functors_of srv i ob = []"
    and nr: "no_removal srv" and ok: "functors_ok srv"
  obtains srv' where "destroy_item i srv = Some srv'" "no_removal srv'" "functors_ok srv'"
    "pending srv' baseLoop = pending srv baseLoop" "\<And>l. pending srv' l \<noteq> [] \<Longrightarrow> pending srv l \<noteq> [] \<or> l = conn_loop ob"
    "\<And>j obj. objects srv j = Some obj \<Longrightarrow> \<exists>c. objects srv' j = Some (obj\<lparr>tcp := c\<rparr>) \<and>
      eventual srv' j (obj\<lparr>tcp := c\<rparr>) = (if j = i then connectDestroyed (eventual srv j obj) else eventual srv j obj)"
proof (cases "conn_loop ob = baseLoop")
  case True
  let ?srv = "srv\<lparr>connections := (connections srv)(conn_name ob := None),
    objects := (objects srv)(i \<mapsto> ob\<lparr>tcp := connectDestroyed (tcp ob)\<rparr>)\<rparr>"
  have f: "functors_of ?srv j obj = functors_of srv j obj" for j obj by (simp add: functors_of_def)
  have "\<exists>c. objects ?srv j = Some (obj\<lparr>tcp := c\<rparr>) \<and>
      eventual ?srv j (obj\<lparr>tcp := c\<rparr>) = (if j = i then connectDestroyed (eventual srv j obj) else eventual srv j obj)"
    if o: "objects srv j = Some obj" for j obj
    using base [OF True] ob o
    by (intro exI [of _ "if j = i then connectDestroyed (tcp obj) else tcp obj"]) (auto simp: eventual_def functors_of_def)
  moreover have "functors_ok ?srv" using ok ob functor_ok_update [of "objects srv" i ob] by (simp add: functors_ok_def)
  ultimately show thesis
    using True ob nr by (intro that [of ?srv]) (simp_all add: destroy_item_def run_in_loop_def update_conn_def no_removal_def)
next
  case False
  let ?srv = "queue_functor (conn_loop ob) (ConnectDestroyed i) (srv\<lparr>connections := (connections srv)(conn_name ob := None)\<rparr>)"
  have "\<exists>c. objects ?srv j = Some (obj\<lparr>tcp := c\<rparr>) \<and>
      eventual ?srv j (obj\<lparr>tcp := c\<rparr>) = (if j = i then connectDestroyed (eventual srv j obj) else eventual srv j obj)"
    if o: "objects srv j = Some obj" for j obj
    using ob o by (intro exI [of _ "tcp obj"]) (auto simp: eventual_def functors_of_def queue_functor_def)
  moreover have "functors_ok ?srv" using ok ob by (auto simp: functors_ok_def queue_functor_def)
  moreover have "no_removal ?srv" using nr by (simp add: no_removal_def queue_functor_def)
  ultimately show thesis
    using False ob by (intro that [of ?srv]) (simp_all add: destroy_item_def run_in_loop_def queue_functor_def split: if_splits)
qed

lemma destroy_eventual:
  assumes "distinct items" "\<forall>i \<in> set items. \<exists>ob. objects srv i = Some ob \<and> (conn_loop ob = baseLoop \<longrightarrow> functors_of srv i ob = [])"
    "no_removal srv" "functors_ok srv" "finite {l. pending srv l \<noteq> []}"
  shows "\<exists>srv'. destroyTcpServer items srv = Some srv' \<and> no_removal srv' \<and> functors_ok srv' \<and> finite {l. pending srv' l \<noteq> []} \<and>
    (\<forall>j obj. objects srv j = Some obj \<longrightarrow> (\<exists>c. objects srv' j = Some (obj\<lparr>tcp := c\<rparr>) \<and>
      eventual srv' j (obj\<lparr>tcp := c\<rparr>) = (if j \<in> set items then connectDestroyed (eventual srv j obj) else eventual srv j obj)))"
  using assms
proof (induction items arbitrary: srv)
  case Nil
  have "ob = ob\<lparr>tcp := tcp ob\<rparr>" for ob :: Conn by simp
  then have "\<forall>j obj. objects srv j = Some obj \<longrightarrow> (\<exists>c. objects srv j = Some (obj\<lparr>tcp := c\<rparr>) \<and>
      eventual srv j (obj\<lparr>tcp := c\<rparr>) = eventual srv j obj)" by metis
  with Nil show ?case by simp
next
  case (Cons i items)
  obtain ob where ob: "objects srv i = Some ob" "conn_loop ob = baseLoop \<Longrightarrow> functors_of srv i ob = []"
    using Cons.prems(2) by auto
  from ob Cons.prems(3,4) obtain srv1 where s: "destroy_item i srv = Some srv1" "no_removal srv1" "functors_ok srv1"
    "pending srv1 baseLoop = pending srv baseLoop" "\<And>l. pending srv1 l \<noteq> [] \<Longrightarrow> pending srv l \<noteq> [] \<or> l = conn_loop ob"
    and o: "\<And>j obj. objects srv j = Some obj \<Longrightarrow> \<exists>c. objects srv1 j = Some (obj\<lparr>tcp := c\<rparr>) \<and>
      eventual srv1 j (obj\<lparr>tcp := c\<rparr>) = (if j = i then connectDestroyed (eventual srv j obj) else eventual srv j obj)"
    using destroy_item_eventual [where thesis = thesis] by metis
  have fin: "finite {l. pending srv1 l \<noteq> []}"
    by (rule finite_subset [of _ "insert (conn_loop ob) {l. pending srv l \<noteq> []}"]) (use s(5) Cons.prems(5) in auto)
  have items: "\<exists>ob. objects srv1 j = Some ob \<and> (conn_loop ob = baseLoop \<longrightarrow> functors_of srv1 j ob = [])" if j: "j \<in> set items" for j
  proof -
    obtain obj where obj: "objects srv j = Some obj" "conn_loop obj = baseLoop \<longrightarrow> functors_of srv j obj = []"
      using Cons.prems(2) j by auto
    from o [OF obj(1)] obj(2) s(4) show ?thesis by (auto simp: functors_of_def)
  qed
  from Cons.IH [of srv1] Cons.prems(1) items s(2,3) fin obtain srv' where
    s': "destroyTcpServer items srv1 = Some srv'" "no_removal srv'" "functors_ok srv'" "finite {l. pending srv' l \<noteq> []}"
    and o': "\<And>j obj. objects srv1 j = Some obj \<Longrightarrow> \<exists>c. objects srv' j = Some (obj\<lparr>tcp := c\<rparr>) \<and>
      eventual srv' j (obj\<lparr>tcp := c\<rparr>) = (if j \<in> set items then connectDestroyed (eventual srv1 j obj) else eventual srv1 j obj)"
    by auto
  have "\<exists>c. objects srv' j = Some (obj\<lparr>tcp := c\<rparr>) \<and>
      eventual srv' j (obj\<lparr>tcp := c\<rparr>) = (if j \<in> set (i # items) then connectDestroyed (eventual srv j obj) else eventual srv j obj)"
    if j: "objects srv j = Some obj" for j obj
  proof -
    obtain c where c: "objects srv1 j = Some (obj\<lparr>tcp := c\<rparr>)"
      "eventual srv1 j (obj\<lparr>tcp := c\<rparr>) = (if j = i then connectDestroyed (eventual srv j obj) else eventual srv j obj)"
      using o [OF j] by blast
    from o' [OF c(1)] c(2) Cons.prems(1) show ?thesis by auto
  qed
  with s(1) s' show ?case by simp
qed


section \<open>The end of a connection\<close>

definition announced :: "TcpConnection \<Rightarrow> UserCallback list" where
  "announced c = filter (\<lambda>u. u \<in> {ConnectionCallback True, ConnectionCallback False}) (TcpConnection.callbacks c)"

text \<open>A connection that was asked to shut down is not announced as down.\<close>

definition ended :: "TcpConnection \<Rightarrow> TcpConnection \<Rightarrow> bool" where
  "ended c c' \<longleftrightarrow> \<not> chan_registered c' \<and>
     announced c' = (if state c = kDisconnecting then [ConnectionCallback True]
                     else [ConnectionCallback True, ConnectionCallback False])"

lemma quiet_announced: "quiet us \<Longrightarrow> filter (\<lambda>u. u \<in> {ConnectionCallback True, ConnectionCallback False}) us = []"
  by (auto simp: quiet_def filter_empty_conv)

lemma errors_announced:
  "set us \<subseteq> {ErrorLogged} \<Longrightarrow> filter (\<lambda>u. u \<in> {ConnectionCallback True, ConnectionCallback False}) us = []"
  by (auto simp: filter_empty_conv)

lemma waiting_ended: "waiting_conn c \<Longrightarrow> ended c (connectDestroyed (connectEstablished c))"
  by (simp add: waiting_conn_def ended_def announced_def connectDestroyed_def connectEstablished_def callback_def)

lemma open_ended: "open_conn c \<Longrightarrow> ended c (connectDestroyed c)"
  using quiet_announced
  by (auto simp: open_conn_def ended_def announced_def connectDestroyed_def callback_def Let_def)

lemma closed_ended: "closed_conn c \<Longrightarrow> ended c (connectDestroyed c)" "closed_conn c \<Longrightarrow> \<not> chan_registered c \<Longrightarrow> ended c c"
  using quiet_announced errors_announced
  by (auto simp: closed_conn_def ended_def announced_def connectDestroyed_def Let_def)

lemma length_functors:
  "length (filter (\<lambda>f. subject f = i) fs) =
     count_list fs (ConnectEstablished i) + count_list fs (RemoveConnectionInLoop i) + count_list fs (ConnectDestroyed i)"
proof (induction fs)
  case (Cons f fs)
  then show ?case by (cases f) auto
qed simp

lemma functors_of_tokens:
  assumes "no_removal srv"
  shows "tokens srv i ob = (0, r, 0, b) \<Longrightarrow> functors_of srv i ob = []"
    "tokens srv i ob = (1, r, 0, b) \<Longrightarrow> functors_of srv i ob = [ConnectEstablished i]"
    "tokens srv i ob = (0, r, 1, b) \<Longrightarrow> functors_of srv i ob = [ConnectDestroyed i]"
proof -
  let ?p = "pending srv (conn_loop ob)"
  have n: "count_list ?p (RemoveConnectionInLoop i) = 0" using assms by (simp add: no_removal_def count_list_0_iff)
  note len = length_functors [of i ?p]
  show "tokens srv i ob = (0, r, 0, b) \<Longrightarrow> functors_of srv i ob = []" using len n by (simp add: tokens_def functors_of_def)
  have single: "functors_of srv i ob = [f]"
    if one: "length (functors_of srv i ob) = 1" and only: "\<And>g. subject g = i \<Longrightarrow> g \<noteq> f \<Longrightarrow> g \<notin> set ?p" for f
  proof -
    obtain g where g: "functors_of srv i ob = [g]" using one by (auto simp: length_Suc_conv)
    then have "g \<in> set (filter (\<lambda>f. subject f = i) ?p)" by (simp add: functors_of_def)
    then have "g \<in> set ?p" "subject g = i" by simp_all
    with only [of g] g show ?thesis by auto
  qed
  have abs: "RemoveConnectionInLoop i \<notin> set ?p" using assms by (simp add: no_removal_def)
  show "functors_of srv i ob = [ConnectEstablished i]" if t: "tokens srv i ob = (1, r, 0, b)"
  proof (rule single)
    show "length (functors_of srv i ob) = 1" using len n t by (simp add: functors_of_def tokens_def)
    show "g \<notin> set ?p" if "subject g = i" "g \<noteq> ConnectEstablished i" for g
      using that t abs by (cases g) (auto simp: tokens_def count_list_0_iff)
  qed
  show "functors_of srv i ob = [ConnectDestroyed i]" if t: "tokens srv i ob = (0, r, 1, b)"
  proof (rule single)
    show "length (functors_of srv i ob) = 1" using len n t by (simp add: functors_of_def tokens_def)
    show "g \<notin> set ?p" if "subject g = i" "g \<noteq> ConnectDestroyed i" for g
      using that t abs by (cases g) (auto simp: tokens_def count_list_0_iff)
  qed
qed

text \<open>In a reachable state without pending removals: connections of the table are destroyed, the others are already.\<close>

lemma eventual_ended:
  assumes "tcp_reach srv" "no_removal srv" "objects srv i = Some ob"
  shows "ended (tcp ob) (if connections srv (conn_name ob) = Some i then connectDestroyed (eventual srv i ob) else eventual srv i ob)"
proof -
  note f = functors_of_tokens [OF assms(2)]
  have "life (tokens srv i ob) (tcp ob)" by (rule server_inv_life [OF tcp_reach_inv [OF assms(1)] assms(3)])
  then consider
      "tokens srv i ob = (1, 0, 0, True)" "waiting_conn (tcp ob)"
    | "tokens srv i ob = (0, 0, 0, True)" "open_conn (tcp ob)"
    | "tokens srv i ob = (0, 1, 0, True)"
    | "tokens srv i ob = (0, 0, 1, False)" "closed_conn (tcp ob)"
    | "tokens srv i ob = (0, 0, 0, False)" "closed_conn (tcp ob)" "\<not> chan_registered (tcp ob)" unfolding life_def by blast
  then show ?thesis
  proof cases
    case 1
    then have "connections srv (conn_name ob) = Some i" by (simp add: tokens_def)
    with 1 f(2) [OF 1(1)] waiting_ended show ?thesis by (simp add: eventual_def)
  next
    case 2
    then have "connections srv (conn_name ob) = Some i" by (simp add: tokens_def)
    with 2 f(1) [OF 2(1)] open_ended show ?thesis by (simp add: eventual_def)
  next
    case 3
    then have "RemoveConnectionInLoop i \<in> set (pending srv baseLoop)"
      using count_list_0_iff [of "pending srv baseLoop" "RemoveConnectionInLoop i"] by (auto simp: tokens_def)
    then show ?thesis using assms(2) by (simp add: no_removal_def)
  next
    case 4
    then have "connections srv (conn_name ob) \<noteq> Some i" by (simp add: tokens_def)
    with 4 f(3) [OF 4(1)] closed_ended(1) show ?thesis by (simp add: eventual_def)
  next
    case 5
    then have "connections srv (conn_name ob) \<noteq> Some i" by (simp add: tokens_def)
    with 5 f(1) [OF 5(1)] closed_ended(2) show ?thesis by (simp add: eventual_def)
  qed
qed

lemma reach_functors: "tcp_reach srv \<Longrightarrow> functors_ok srv \<and> finite {l. pending srv l \<noteq> []}"
proof -
  assume "tcp_reach srv"
  then have inv: "server_inv srv" by (rule tcp_reach_inv)
  have "l \<in> busy_loops srv" if l: "pending srv l \<noteq> []" for l
  proof -
    obtain f fs where "pending srv l = f # fs" using l by (cases "pending srv l") auto
    then have "functor_ok (objects srv) l f" using server_inv_pending [OF inv, of f l] by simp
    then show ?thesis using conn_loop_busy [OF inv] by (cases f) (auto simp: busy_loops_def)
  qed
  then have "finite {l. pending srv l \<noteq> []}" by (auto intro: finite_subset [OF _ finite_busy_loops [of srv]])
  with server_inv_pending [OF inv] show ?thesis by (simp add: functors_ok_def)
qed


section \<open>A sample run\<close>

text \<open>A connection is accepted, and the server is destroyed before its loop has established it.\<close>

lemma sample_waiting:
  obtains srv ob where "tcp_reach srv" "no_removal srv" "ran (connections srv) = {1}" "objects srv 1 = Some ob"
    "state (tcp ob) = kConnecting"
proof -
  obtain srv ob where n: "newConnection 9 zero_address zero_address sample_server = Some srv" "objects srv 1 = Some ob" "state (tcp ob) = kConnecting"
    "pending srv = (\<lambda>_. [])(1 := [ConnectEstablished 1])" "ran (connections srv) = {1}"
    by (simp add: sample_server_def started_server_def newTcpServer_def tcp_start_def pool_start_def setThreadNum_def
        newEventLoopThreadPool_def newConnection_def getNextLoop_def run_in_loop_def queue_functor_def baseLoop_def
        newTcpConnection_def INT_MAX_def connName_def upt_rec Let_def)
  have "listening sample_server"
    by (simp add: sample_server_def started_server_def newTcpServer_def tcp_start_def Let_def)
  with n(1) have "tcp_reach srv" by (intro sample_reach r_into_rtranclp tcp_step.accept)
  moreover have "no_removal srv" using n(4) by (simp add: no_removal_def)
  ultimately show thesis using n that by blast
qed


end
