(* ===== verification/EchoServer.thy ===== *)
theory EchoServer
  imports TcpConnection "HOL-Library.Sublist"
begin

text \<open>
  The echo server (\<open>src/example/echo_server.cc\<close>) on one of its connections, as the smallest complete
  user of the library: the message callback on top of \<open>handleRead\<close>, \<open>send\<close> and \<open>handleWrite\<close>. Its
  variant in \<open>src/example/test.cpp\<close> follows at the end.

  The events of a connection are those epoll delivers: a readable socket while the channel reads and
  a writable one while it writes. \<open>received\<close> is a history variable: what \<open>readv\<close> has returned.
\<close>

section \<open>The server\<close>

text \<open>The message callback; \<open>None\<close> where \<open>retrieveAllAsString\<close> would run into its assertion.\<close>

definition echo_onMessage :: "(string \<Rightarrow> int + nat) \<Rightarrow> TcpConnection \<Rightarrow> TcpConnection option" where
  "echo_onMessage write c =
     (case retrieveAllAsString (inputBuffer c) of
        None \<Rightarrow> None
      | Some (msg, b) \<Rightarrow> Some (send write True msg (c\<lparr>inputBuffer := b\<rparr>)))"

definition messaged :: "TcpConnection \<Rightarrow> TcpConnection \<Rightarrow> bool" where
  "messaged c c' \<longleftrightarrow> MessageCallback \<in> set (drop (length (callbacks c)) (callbacks c'))"

datatype EchoEvent = EchoReadable "nat \<Rightarrow> int + string" | EchoWritable

record EchoConn =
  conn :: TcpConnection
  received :: string

definition newEchoConn :: EchoConn where
  "newEchoConn = \<lparr>conn = connectEstablished newTcpConnection, received = []\<rparr>"

definition echo_readable :: "(nat \<Rightarrow> int + string) \<Rightarrow> (string \<Rightarrow> int + nat) \<Rightarrow> EchoConn \<Rightarrow> EchoConn option" where
  "echo_readable readv write s =
     (let c = handleRead readv (conn s);
          s' = s\<lparr>conn := c, received := received s @ (case readv (readCapacity (inputBuffer (conn s))) of Inr d \<Rightarrow> d | Inl e \<Rightarrow> [])\<rparr>
      in if messaged (conn s) c then map_option (\<lambda>c. s'\<lparr>conn := c\<rparr>) (echo_onMessage write c) else Some s')"

fun echo_step :: "EchoEvent \<times> (string \<Rightarrow> int + nat) \<Rightarrow> EchoConn \<Rightarrow> EchoConn option" where
  "echo_step (EchoReadable readv, write) s =
     (if chan_reading (conn s) then echo_readable readv write s else Some s)"
| "echo_step (EchoWritable, write) s =
     (if chan_writing (conn s) then Some (s\<lparr>conn := handleWrite write (conn s)\<rparr>) else Some s)"

fun echo_run :: "(EchoEvent \<times> (string \<Rightarrow> int + nat)) list \<Rightarrow> EchoConn \<Rightarrow> EchoConn option" where
  "echo_run [] s = Some s"
| "echo_run (e # es) s = (case echo_step e s of None \<Rightarrow> None | Some s \<Rightarrow> echo_run es s)"

section \<open>Everything comes back\<close>

text \<open>Either the connection is up and everything received is sent or buffered, or the peer has closed it.\<close>

definition echo_up :: "EchoConn \<Rightarrow> bool" where
  "echo_up s \<longleftrightarrow> conn_inv (conn s) \<and> state (conn s) = kConnected \<and> chan_reading (conn s) \<and>
     view (inputBuffer (conn s)) = [] \<and> out_stream (conn s) = received s"

definition echo_down :: "EchoConn \<Rightarrow> bool" where
  "echo_down s \<longleftrightarrow> state (conn s) = kDisconnected \<and> \<not> chan_reading (conn s) \<and> \<not> chan_writing (conn s) \<and>
     prefix (wire (conn s)) (received s)"

lemma newEchoConn_up: "echo_up newEchoConn"
  using established_inv
  by (simp add: echo_up_def newEchoConn_def connectEstablished_def callback_def newTcpConnection_def out_stream_def view_simps)

lemma sendInLoop_frame [simp]:
  "inputBuffer (sendInLoop w d c) = inputBuffer c" "chan_reading (sendInLoop w d c) = chan_reading c"
  by (auto simp: sendInLoop_def queueInLoop_def Let_def split: sum.splits)

lemma handleWrite_frame [simp]:
  "inputBuffer (handleWrite w c) = inputBuffer c" "chan_reading (handleWrite w c) = chan_reading c"
  by (auto simp: handleWrite_def queueInLoop_def shutdownInLoop_def Let_def split: sum.splits)

lemma reply_effect:
  assumes "conn_inv c" "state c = kConnected" "benign_write w"
  obtains b c' where "retrieveAllAsString (inputBuffer c) = Some (view (inputBuffer c), b)"
    "send w True d (c\<lparr>inputBuffer := b\<rparr>) = c'" "conn_inv c'" "state c' = kConnected"
    "chan_reading c' = chan_reading c" "view (inputBuffer c') = []" "out_stream c' = out_stream c @ d"
proof -
  have "buffer_ok (inputBuffer c)" using assms(1) by (simp add: conn_inv_def)
  then obtain b where b: "retrieveAllAsString (inputBuffer c) = Some (view (inputBuffer c), b)" "buffer_ok b" "view b = []"
    using retrieveAllAsString_view by blast
  let ?c = "c\<lparr>inputBuffer := b\<rparr>"
  have up: "conn_inv ?c" "state ?c = kConnected" "out_stream ?c = out_stream c"
    using assms b(2) by (simp_all add: conn_inv_def out_stream_def)
  have ok: "conn_inv ?c \<and> benign_write w" using up(1) assms(3) by blast
  show thesis
    using b(1) conn_out.put_usable [OF ok, of d] conn_out.put_up [OF ok, of d]
      conn_out.put_stream [OF ok, of d] up b(3)
    by (intro that [of b "send w True d ?c"]) (simp_all add: send_def)
qed

lemma echo_onMessage_effect:
  assumes "conn_inv c" "state c = kConnected" "benign_write w"
  obtains c' where "echo_onMessage w c = Some c'" "conn_inv c'" "state c' = kConnected" "chan_reading c' = chan_reading c"
    "view (inputBuffer c') = []" "out_stream c' = out_stream c @ view (inputBuffer c)"
  by (rule reply_effect [OF assms, of "view (inputBuffer c)"]) (simp add: echo_onMessage_def that)

lemma echo_readable_up:
  assumes up: "echo_up s" and w: "benign_write w"
  obtains s' where "echo_readable readv w s = Some s'" "echo_up s' \<or> echo_down s'"
    "readv (readCapacity (inputBuffer (conn s))) \<noteq> Inr [] \<Longrightarrow> echo_up s'"
proof -
  let ?c = "conn s" and ?b = "inputBuffer (conn s)"
  have inv: "conn_inv ?c" using up by (simp add: echo_up_def)
  then have ok: "buffer_ok ?b" by (simp add: conn_inv_def)
  show thesis
  proof (cases "readv (readCapacity ?b)")
    case (Inl e)
    then have c: "handleRead readv ?c = ?c\<lparr>callbacks := callbacks ?c @ [ErrorLogged]\<rparr>"
      by (simp add: handleRead_def readFd_error handleError_def callback_def)
    with Inl up show thesis
      by (intro that [of "s\<lparr>conn := ?c\<lparr>callbacks := callbacks ?c @ [ErrorLogged]\<rparr>\<rparr>"])
        (auto simp: echo_readable_def messaged_def echo_up_def conn_inv_def out_stream_def)
  next
    case (Inr d)
    obtain b where b: "readFd readv ?b = (Inr (length d), b)" "buffer_ok b" "view b = view ?b @ d"
      using readFd_data [OF ok, of readv d] Inr by (cases "readFd readv ?b") auto
    show thesis
    proof (cases "d = []")
      case True
      let ?c' = "handleClose (?c\<lparr>inputBuffer := b\<rparr>)"
      have h: "handleRead readv ?c = ?c'" using b True by (simp add: handleRead_def)
      have m: "\<not> messaged ?c ?c'" by (simp add: messaged_def handleClose_def callback_def)
      have "prefix (wire ?c) (received s)" using up by (metis echo_up_def out_stream_def prefixI)
      with h m Inr True show thesis
        by (intro that [of "s\<lparr>conn := ?c'\<rparr>"])
          (simp_all add: echo_readable_def echo_down_def handleClose_def callback_def)
    next
      case False
      let ?c' = "?c\<lparr>inputBuffer := b, callbacks := callbacks ?c @ [MessageCallback]\<rparr>"
      have h: "handleRead readv ?c = ?c'" using b False by (simp add: handleRead_def callback_def)
      have m: "messaged ?c ?c'" by (simp add: messaged_def)
      have "conn_inv ?c'" "state ?c' = kConnected" using inv b(2) up by (simp_all add: conn_inv_def echo_up_def)
      from this w obtain c where c: "echo_onMessage w ?c' = Some c" "conn_inv c" "state c = kConnected"
        "chan_reading c = chan_reading ?c'" "view (inputBuffer c) = []" "out_stream c = out_stream ?c' @ view (inputBuffer ?c')"
        by (rule echo_onMessage_effect)
      let ?s = "s\<lparr>conn := c, received := received s @ d\<rparr>"
      have "echo_up ?s" using c up b(3) by (simp add: echo_up_def out_stream_def)
      moreover have "echo_readable readv w s = Some ?s" using h m c(1) Inr by (simp add: echo_readable_def)
      ultimately show thesis by (intro that [of ?s]) simp_all
    qed
  qed
qed

lemma echo_step_up:
  assumes "echo_up s" "benign_write w"
  obtains s' where "echo_step (e, w) s = Some s'" "echo_up s' \<or> echo_down s'"
proof (cases e)
  case (EchoReadable readv)
  have "chan_reading (conn s)" using assms(1) by (simp add: echo_up_def)
  with EchoReadable show thesis using echo_readable_up [OF assms, of readv] that by auto
next
  case EchoWritable
  have "conn_inv (conn s)" using assms(1) by (simp add: echo_up_def)
  from handleWrite_effect [OF this assms(2)] assms(1) EchoWritable show thesis
    by (intro that [of "if chan_writing (conn s) then s\<lparr>conn := handleWrite w (conn s)\<rparr> else s"]) (auto simp: echo_up_def)
qed

lemma echo_run_ok:
  assumes "\<forall>(e, w) \<in> set es. benign_write w" "echo_up s \<or> echo_down s"
  shows "\<exists>s'. echo_run es s = Some s' \<and> (echo_up s' \<or> echo_down s')"
  using assms
proof (induction es arbitrary: s)
  case (Cons ew es)
  obtain e w where ew: "ew = (e, w)" by (cases ew)
  have w: "benign_write w" using Cons.prems(1) ew by simp
  have "\<exists>s1. echo_step ew s = Some s1 \<and> (echo_up s1 \<or> echo_down s1)"
  proof (cases "echo_up s")
    case True
    then show ?thesis using echo_step_up [OF True w, of e] ew by blast
  next
    case False
    then have "echo_down s" using Cons.prems(2) by simp
    then show ?thesis by (cases e) (simp_all add: ew echo_down_def)
  qed
  with Cons show ?case by auto
qed simp

text \<open>A writable socket that takes everything empties the buffer.\<close>

lemma echo_flush:
  assumes "echo_up s" "\<And>d. w d = Inr (length d)"
  shows "\<exists>s'. echo_step (EchoWritable, w) s = Some s' \<and> wire (conn s') = received s"
proof (cases "chan_writing (conn s)")
  case True
  have inv: "conn_inv (conn s)" and w: "benign_write w" using assms by (simp_all add: echo_up_def benign_write_def)
  have ne: "view (outputBuffer (conn s)) \<noteq> []" using True inv by (simp add: conn_inv_def)
  have "wire (handleWrite w (conn s)) = out_stream (conn s)"
    using True ne assms(2) by (simp add: handleWrite_def writeFd_def out_stream_def queueInLoop_def shutdownInLoop_def Let_def)
  with True assms(1) show ?thesis by (simp add: echo_up_def)
next
  case False
  then have "view (outputBuffer (conn s)) = []" using assms(1) by (simp add: echo_up_def conn_inv_def)
  with False assms(1) show ?thesis by (simp add: echo_up_def out_stream_def)
qed

text \<open>
  C29: The echo server returns what it gets. For every sequence of readable and writable events of a
  connection, with reads of any size, read errors, short and blocked writes, the callback never runs
  into an assertion and: while the connection is up, the bytes on the wire followed by the bytes
  still to be written are exactly the bytes received, and one writable event in which the kernel
  takes everything brings all of them to the wire; once the peer has closed, the bytes on the wire
  are a prefix of the bytes received.
\<close>

theorem echo_returns_input:
  assumes "\<forall>(e, w) \<in> set es. benign_write w"
  shows "\<exists>s. echo_run es newEchoConn = Some s \<and>
    (state (conn s) = kConnected \<and> wire (conn s) @ view (outputBuffer (conn s)) = received s \<and>
       (\<forall>w. (\<forall>d. w d = Inr (length d)) \<longrightarrow>
          (\<exists>s'. echo_step (EchoWritable, w) s = Some s' \<and> wire (conn s') = received s)) \<or>
     state (conn s) = kDisconnected \<and> prefix (wire (conn s)) (received s))"
proof -
  obtain s where s: "echo_run es newEchoConn = Some s" "echo_up s \<or> echo_down s"
    using echo_run_ok [OF assms disjI1 [OF newEchoConn_up]] by blast
  from s(2) show ?thesis
  proof
    assume up: "echo_up s"
    with s(1) echo_flush [OF up] show ?thesis by (intro exI [of _ s]) (auto simp: echo_up_def out_stream_def)
  next
    assume "echo_down s"
    with s(1) show ?thesis by (intro exI [of _ s]) (simp add: echo_down_def)
  qed
qed

text \<open>Two segments arrive while the kernel takes three bytes at a time.\<close>

definition sample_echo :: "(EchoEvent \<times> (string \<Rightarrow> int + nat)) list" where
  "sample_echo =
     [(EchoReadable (\<lambda>_. Inr ''hello''), \<lambda>d. Inr (min 3 (length d))),
      (EchoReadable (\<lambda>_. Inr '' you''), \<lambda>d. Inl EWOULDBLOCK),
      (EchoReadable (\<lambda>_. Inl 104), \<lambda>d. Inr 0),
      (EchoWritable, \<lambda>d. Inr (min 3 (length d)))]"

theorem echo_returns_input_witness:
  "\<exists>s. echo_run sample_echo newEchoConn = Some s \<and> prefix (wire (conn s)) (received s)"
proof -
  have "\<forall>(e, w) \<in> set sample_echo. benign_write w"
    by (simp add: sample_echo_def benign_write_def EWOULDBLOCK_def EPIPE_def ECONNRESET_def)
  from echo_returns_input [OF this] obtain s where "echo_run sample_echo newEchoConn = Some s"
    "wire (conn s) @ view (outputBuffer (conn s)) = received s \<or> prefix (wire (conn s)) (received s)" by blast
  then show ?thesis by (metis prefixI)
qed

section \<open>The echo server that answers GET\<close>

text \<open>
  The message callback of \<open>src/example/test.cpp\<close>: a fixed page when what has been read contains
  \<open>GET\<close>, else an echo.
\<close>

definition httpResponse :: string where
  "httpResponse =
     ''HTTP/1.1 200 OK'' @ [CHR 0x0D, CHR 0x0A] @
     ''Content-Type: text/html; charset=utf-8'' @ [CHR 0x0D, CHR 0x0A] @
     ''Content-Length: 38'' @ [CHR 0x0D, CHR 0x0A] @
     ''Connection: Keep-Alive'' @ [CHR 0x0D, CHR 0x0A] @
     [CHR 0x0D, CHR 0x0A] @
     ''<html><body>Hello Muduo!</body></html>''"

definition test_onMessage :: "(string \<Rightarrow> int + nat) \<Rightarrow> TcpConnection \<Rightarrow> TcpConnection option" where
  "test_onMessage write c =
     (case retrieveAllAsString (inputBuffer c) of
        None \<Rightarrow> None
      | Some (msg, b) \<Rightarrow>
          let c = c\<lparr>inputBuffer := b\<rparr> in
          Some (if sublist ''GET'' msg then send write True httpResponse c else send write True msg c))"

lemma test_onMessage_effect:
  assumes "conn_inv c" "state c = kConnected" "benign_write w"
  obtains c' where "test_onMessage w c = Some c'" "conn_inv c'" "state c' = kConnected"
    "view (inputBuffer c') = []"
    "out_stream c' = out_stream c @
       (if sublist ''GET'' (view (inputBuffer c)) then httpResponse else view (inputBuffer c))"
  by (rule reply_effect [OF assms, of "if sublist ''GET'' (view (inputBuffer c)) then httpResponse
        else view (inputBuffer c)"])
    (simp add: test_onMessage_def Let_def that split: if_splits)

text \<open>
  The callback looks at one read at a time: a request whose \<open>GET\<close> falls on the boundary of two reads
  is sent back as it came.
\<close>

lemma split_request_echoed:
  assumes c: "conn_inv c" "state c = kConnected" "benign_write w" and d: "view (inputBuffer c) = ''GE''"
    and c1: "test_onMessage w c = Some c1" and b: "buffer_ok b" "view b = ''T / HTTP/1.0''"
    and c2: "test_onMessage w (c1\<lparr>inputBuffer := b\<rparr>) = Some c2"
  shows "out_stream c2 = out_stream c @ ''GET / HTTP/1.0''"
proof -
  have 1: "\<not> sublist ''GET'' ''GE''" "\<not> sublist ''GET'' ''T / HTTP/1.0''"
    by (simp_all add: sublist_Cons_right)
  have one: "conn_inv c1 \<and> state c1 = kConnected \<and> out_stream c1 = out_stream c @ ''GE''"
    by (rule test_onMessage_effect [OF c]) (use c1 d 1(1) in simp)
  let ?c = "c1\<lparr>inputBuffer := b\<rparr>"
  have two: "conn_inv ?c" "state ?c = kConnected" "out_stream ?c = out_stream c1"
      "view (inputBuffer ?c) = ''T / HTTP/1.0''"
    using one b by (auto simp: conn_inv_def out_stream_def)
  have "out_stream c2 = out_stream c1 @ ''T / HTTP/1.0''"
    by (rule test_onMessage_effect [OF two(1,2) c(3)]) (use c2 two(3,4) 1(2) in simp)
  then show ?thesis using one by simp
qed

end
