(* ===== verification/Backpressure.thy ===== *)
theory Backpressure
  imports TcpConnection
begin

text \<open>
  The notifications of a connection about its output: the high-water-mark callback when more and more
  data is waiting, and the write-complete callback when all of it is written. An application that
  stops at the first and goes on at the second relies on them not being lost.
\<close>

section \<open>When the callbacks are due\<close>

text \<open>
  Seen from outside, from one state to the next: the amount waiting reaches the mark from below; bytes
  have gone to the wire and none is waiting any more.
\<close>

definition notices :: "TcpConnection \<Rightarrow> TcpConnection \<Rightarrow> Functor list" where
  "notices c c' =
     (if length (view (outputBuffer c)) < highWaterMark c \<and> highWaterMark c \<le> length (view (outputBuffer c'))
      then [HighWaterMark (length (view (outputBuffer c')))] else []) @
     (if length (wire c) < length (wire c') \<and> view (outputBuffer c') = [] then [WriteComplete] else [])"

text \<open>The notices along a run.\<close>

fun run_notices :: "TcpConnection \<Rightarrow> (OutEvent \<times> (string \<Rightarrow> int + nat)) list \<Rightarrow> Functor list" where
  "run_notices c [] = []"
| "run_notices c (e # es) = notices c (out_step e c) @ run_notices (out_step e c) es"

definition notifying :: "TcpConnection \<Rightarrow> bool" where
  "notifying c \<longleftrightarrow> conn_inv c \<and> hasWriteCompleteCallback c \<and> hasHighWaterMarkCallback c \<and> 0 < highWaterMark c"

definition proper :: "OutEvent \<times> (string \<Rightarrow> int + nat) \<Rightarrow> bool" where
  "proper e \<longleftrightarrow> benign_write (snd e) \<and> fst e \<noteq> OutSend []"

section \<open>One event\<close>

lemma notices_send:
  assumes c: "notifying c" "state c = kConnected" and w: "benign_write w" and d: "d \<noteq> []"
  shows "queued (sendInLoop w d c) = queued c @ notices c (sendInLoop w d c)"
proof -
  have ok: "buffer_ok (outputBuffer c)" and writing: "chan_writing c \<longleftrightarrow> view (outputBuffer c) \<noteq> []"
    using c by (simp_all add: notifying_def conn_inv_def)
  have len: "readableBytes (outputBuffer c) = length (view (outputBuffer c))" using length_view [OF ok] by simp
  show ?thesis
  proof (cases "chan_writing c")
    case True
    with c writing len ok d show ?thesis
      by (auto simp: sendInLoop_def notices_def notifying_def queueInLoop_def Let_def view_simps)
  next
    case False
    then have empty: "view (outputBuffer c) = []" "readableBytes (outputBuffer c) = 0" using writing len by simp_all
    show ?thesis
    proof (cases "w d")
      case (Inl e)
      with benign_writeD(2) [OF w Inl] c False empty ok d show ?thesis
        by (auto simp: sendInLoop_def notices_def notifying_def queueInLoop_def Let_def view_simps)
    next
      case (Inr n)
      with benign_writeD(1) [OF w Inr] c False empty ok d show ?thesis
        by (cases "n < length d")
          (auto simp: sendInLoop_def notices_def notifying_def queueInLoop_def Let_def view_simps)
    qed
  qed
qed

lemma notices_write:
  assumes c: "notifying c" and w: "benign_write w"
  shows "queued (handleWrite w c) = queued c @ notices c (handleWrite w c)"
proof -
  have ok: "buffer_ok (outputBuffer c)" using c by (simp add: notifying_def conn_inv_def)
  show ?thesis
  proof (cases "w (view (outputBuffer c))")
    case (Inl e)
    with c show ?thesis by (auto simp: handleWrite_def writeFd_def notices_def)
  next
    case (Inr n)
    have n: "n \<le> length (view (outputBuffer c))" using benign_writeD(1) [OF w Inr] .
    have rest: "readableBytes (retrieve n (outputBuffer c)) = 0 \<longleftrightarrow> drop n (view (outputBuffer c)) = []"
      using readable_zero_iff [of "retrieve n (outputBuffer c)"] ok by (simp add: view_simps)
    have less: "readableBytes (retrieve n (outputBuffer c)) \<le> readableBytes (outputBuffer c)"
      using length_view [of "retrieve n (outputBuffer c)"] length_view [OF ok] ok by (simp add: view_simps)
    show ?thesis
      using c ok rest Inr n less
      by (auto simp: handleWrite_def writeFd_def notices_def notifying_def queueInLoop_def shutdownInLoop_def
          Let_def view_simps)
  qed
qed

lemma out_step_keeps:
  "hasWriteCompleteCallback (out_step e c) = hasWriteCompleteCallback c"
  "hasHighWaterMarkCallback (out_step e c) = hasHighWaterMarkCallback c"
  "highWaterMark (out_step e c) = highWaterMark c"
proof -
  have "hasWriteCompleteCallback (out_step (ev, w) c) = hasWriteCompleteCallback c \<and>
    hasHighWaterMarkCallback (out_step (ev, w) c) = hasHighWaterMarkCallback c \<and>
    highWaterMark (out_step (ev, w) c) = highWaterMark c" for ev w
    by (cases ev) (auto simp: connection_ops Let_def split: sum.splits)
  then show "hasWriteCompleteCallback (out_step e c) = hasWriteCompleteCallback c"
    "hasHighWaterMarkCallback (out_step e c) = hasHighWaterMarkCallback c"
    "highWaterMark (out_step e c) = highWaterMark c" by (cases e, blast)+
qed

lemma step_notices:
  assumes "notifying c" "proper e"
  shows "queued (out_step e c) = queued c @ notices c (out_step e c)" "notifying (out_step e c)"
proof -
  obtain ev w where e: "e = (ev, w)" by (cases e)
  have w: "benign_write w" and inv: "conn_inv c" using assms by (simp_all add: proper_def notifying_def e)
  have none: "notices c c = []" by (simp add: notices_def)
  have "queued (out_step e c) = queued c @ notices c (out_step e c) \<and> conn_inv (out_step e c)"
  proof (cases "state c = kConnected")
    case up: True
    show ?thesis
    proof (cases ev)
      case (OutSend d)
      with assms up w e notices_send [of c w d] sendInLoop_effect(1) [OF inv w up, of d] show ?thesis
        by (simp add: proper_def send_def)
    next
      case OutWritable
      with assms w e notices_write [of c w] handleWrite_effect(1) [OF inv w] show ?thesis by simp
    next
      case OutShutdown
      with e shutdown_effect(1) [OF inv] up show ?thesis
        by (auto simp: shutdown_def shutdownInLoop_def notices_def Let_def)
    qed
  next
    case down: False
    with assms w e inv none notices_write [of c w] handleWrite_effect(1) [OF inv w] show ?thesis
      by (cases ev) (simp_all add: send_def shutdown_def)
  qed
  then show "queued (out_step e c) = queued c @ notices c (out_step e c)" "notifying (out_step e c)"
    using assms(1) by (simp_all add: notifying_def out_step_keeps)
qed

section \<open>Whole runs\<close>

lemma run_queued:
  "notifying c \<Longrightarrow> \<forall>e \<in> set es. proper e \<Longrightarrow>
     queued (fold out_step es c) = queued c @ run_notices c es \<and> notifying (fold out_step es c)"
  by (induction es arbitrary: c) (simp_all add: step_notices)

lemma step_stream:
  assumes "conn_inv c" "benign_write (snd e)"
  shows "\<exists>d. out_stream (out_step e c) = out_stream c @ d"
proof (cases "state c = kConnected")
  case True
  then show ?thesis using out_steps_connected [of "[e]" c] assms by (cases e) auto
next
  case False
  then have "state c = kDisconnecting" using assms(1) by (auto simp: conn_inv_def)
  then show ?thesis using out_steps_disconnecting [of "[e]" c] assms by (cases e) auto
qed

text \<open>A step that leaves nothing waiting and puts nothing on the wire had nothing waiting before.\<close>

lemma idle_step:
  assumes c: "notifying c" and e: "proper e" and view: "view (outputBuffer (out_step e c)) = []"
    and idle: "length (wire (out_step e c)) \<le> length (wire c)"
  shows "view (outputBuffer c) = [] \<and> wire (out_step e c) = wire c"
proof -
  obtain d where d: "wire (out_step e c) = wire c @ view (outputBuffer c) @ d"
    using step_stream [of c e] c e view by (auto simp: notifying_def proper_def out_stream_def)
  have "length (wire c) + length (view (outputBuffer c)) + length d \<le> length (wire c)"
    using arg_cong [OF d, of length] idle by (simp only: length_append)
  then have "length (view (outputBuffer c)) = 0 \<and> length d = 0" by linarith
  with d show ?thesis by (simp only: length_0_conv append_Nil2 simp_thms)
qed

lemma run_notices_snoc: "run_notices c (es @ [e]) = run_notices c es @ notices (fold out_step es c) (out_step e (fold out_step es c))"
  by (induction es arbitrary: c) simp_all

lemma flushed_notice:
  assumes "notifying c" "\<forall>e \<in> set es. proper e"
    and "view (outputBuffer (fold out_step es c)) = []" "wire (fold out_step es c) \<noteq> wire c"
  shows "run_notices c es \<noteq> [] \<and> last (run_notices c es) = WriteComplete"
  using assms(2-4)
proof (induction es rule: rev_induct)
  case (snoc e es)
  let ?c = "fold out_step es c"
  have c: "notifying ?c" using run_queued [OF assms(1), of es] snoc.prems(1) by simp
  have view: "view (outputBuffer (out_step e ?c)) = []" using snoc.prems(2) by simp
  show ?case
  proof (cases "length (wire ?c) < length (wire (out_step e ?c))")
    case True
    with view show ?thesis by (simp add: run_notices_snoc notices_def)
  next
    case False
    then have idle: "view (outputBuffer ?c) = []" "wire (out_step e ?c) = wire ?c"
      using idle_step [OF c _ view] snoc.prems(1) by auto
    with c view have "notices ?c (out_step e ?c) = []" by (simp add: notices_def notifying_def)
    with snoc.IH snoc.prems idle show ?thesis by (simp add: run_notices_snoc)
  qed
qed simp

text \<open>
  C22: Back pressure. On a connection with both callbacks set, for every sequence of sends, writable
  events and shutdowns in which the kernel takes arbitrary parts of what it is offered, the
  notifications queued are exactly these: the high-water-mark callback, with the amount waiting, each
  time that amount reaches the mark from below, and the write-complete callback each time the last
  waiting byte goes to the wire. So whenever something has been sent and nothing is waiting any more,
  the last notification is the write-complete callback: who stopped at the mark is told to go on.
\<close>

theorem notices_exact:
  assumes "notifying c" "\<forall>e \<in> set es. proper e"
  shows "queued (fold out_step es c) = queued c @ run_notices c es \<and>
    (view (outputBuffer (fold out_step es c)) = [] \<and> wire (fold out_step es c) \<noteq> wire c \<longrightarrow>
       run_notices c es \<noteq> [] \<and> last (run_notices c es) = WriteComplete)"
  using run_queued [OF assms] flushed_notice [OF assms] by blast

text \<open>A mark of four bytes: it is passed once, the kernel takes the rest in two portions.\<close>

definition marked_connection :: TcpConnection where
  "marked_connection =
     \<lparr>state = kConnected, chan_reading = True, chan_writing = False, chan_registered = True,
      inputBuffer = newBuffer 8, outputBuffer = newBuffer 8, highWaterMark = 4, hasWriteCompleteCallback = True,
      hasHighWaterMarkCallback = True, queued = [], callbacks = [], wire = [], writeShut = False\<rparr>"

definition marked_events :: "(OutEvent \<times> (string \<Rightarrow> int + nat)) list" where
  "marked_events =
     [(OutSend ''abc'', \<lambda>d. Inr (min 1 (length d))), (OutSend ''def'', \<lambda>_. Inl EWOULDBLOCK),
      (OutWritable, \<lambda>d. Inr (min 3 (length d))), (OutShutdown, \<lambda>_. Inr 0), (OutWritable, \<lambda>d. Inr (length d))]"

lemma marked_notices: "run_notices marked_connection marked_events = [HighWaterMark 5, WriteComplete]"
  by code_simp

theorem notices_exact_witness:
  "queued (fold out_step marked_events marked_connection) = [HighWaterMark 5, WriteComplete]"
proof -
  have "notifying marked_connection"
    by (simp add: notifying_def marked_connection_def conn_inv_def newBuffer_ok view_newBuffer)
  moreover have "\<forall>e \<in> set marked_events. proper e"
    by (simp add: marked_events_def proper_def benign_write_def EWOULDBLOCK_def EPIPE_def ECONNRESET_def)
  moreover have "queued marked_connection = []"
    by (simp add: marked_connection_def)
  ultimately show ?thesis using notices_exact [of marked_connection marked_events] marked_notices by simp
qed

end
