(* ===== verification/Timestamp.thy ===== *)
theory Timestamp
  imports TimerQueue Json "HOL-Library.Signed_Division"
begin

text \<open>
  Times as text (\<open>src/net/Timestamp.cc\<close>): microseconds since 1970 as seconds and microseconds, and as
  calendar date and time of day. The time zone data base is not part of the sources: the offset of
  local time from UTC in seconds, at a time in microseconds, is the parameter \<open>zone\<close>. The proleptic
  Gregorian calendar of \<open>std::chrono\<close> is written out. The arithmetic of \<open>timeDifference\<close> on doubles
  is not modelled, and \<open>now\<close> is the reading of the clock.
\<close>

section \<open>Padded numbers\<close>

text \<open>\<open>{:0w}\<close> of \<open>std::format\<close>: the sign comes before the zeros.\<close>

definition zero_pad :: "nat \<Rightarrow> string \<Rightarrow> string" where
  "zero_pad w s = replicate (w - length s) (CHR ''0'') @ s"

definition format_padded :: "nat \<Rightarrow> int \<Rightarrow> string" where
  "format_padded w i =
     (if i < 0 then CHR ''-'' # zero_pad (w - 1) (to_string (nat (- i))) else zero_pad w (to_string (nat i)))"

definition timestamp_toString :: "int \<Rightarrow> string" where
  "timestamp_toString t =
     (let seconds = t sdiv kMicroSecondsPerSecond; microseconds = t smod kMicroSecondsPerSecond
      in to_string_int seconds @ '', '' @ format_padded 6 microseconds)"

section \<open>The calendar\<close>

definition leap_year :: "int \<Rightarrow> bool" where
  "leap_year y \<longleftrightarrow> 4 dvd y \<and> (\<not> 100 dvd y \<or> 400 dvd y)"

definition year_length :: "int \<Rightarrow> int" where
  "year_length y = (if leap_year y then 366 else 365)"

definition month_lengths :: "int \<Rightarrow> int list" where
  "month_lengths y = [31, if leap_year y then 29 else 28, 31, 30, 31, 30, 31, 31, 30, 31, 30, 31]"

text \<open>The year of a day, counted from the first of January of some year, and the day in that year.\<close>

function split_years :: "int \<Rightarrow> int \<Rightarrow> int \<times> int" where
  "split_years y d =
     (if d < 0 then split_years (y - 1) (d + year_length (y - 1))
      else if year_length y \<le> d then split_years (y + 1) (d - year_length y)
      else (y, d))"
  by pat_completeness auto
termination
  by (relation "measure (\<lambda>(y, d). if d < 0 then nat (- d) + 400 else nat d)")
    (auto simp: year_length_def split: if_splits)

declare split_years.simps [simp del]

fun split_months :: "int list \<Rightarrow> int \<Rightarrow> nat \<times> int" where
  "split_months [] d = (1, d)"
| "split_months (len # lens) d =
     (if d < len then (1, d) else let (m, k) = split_months lens (d - len) in (m + 1, k))"

definition civil :: "int \<Rightarrow> int \<times> nat \<times> int" where
  "civil days =
     (let (y, d) = split_years 1970 days; (m, k) = split_months (month_lengths y) d in (y, m, k + 1))"

definition format_seconds :: "int \<Rightarrow> string" where
  "format_seconds s =
     (let (y, m, d) = civil (s div 86400); r = s mod 86400 in
      format_padded 4 y @ ''-'' @ format_padded 2 (int m) @ ''-'' @ format_padded 2 d @ '' '' @
      format_padded 2 (r div 3600) @ '':'' @ format_padded 2 (r mod 3600 div 60) @ '':'' @ format_padded 2 (r mod 60))"

definition toFormattedString :: "(int \<Rightarrow> int) \<Rightarrow> bool \<Rightarrow> int \<Rightarrow> string" where
  "toFormattedString zone showMicroseconds t =
     (let local_seconds = (t + zone t * kMicroSecondsPerSecond) div kMicroSecondsPerSecond in
      if showMicroseconds
      then format_seconds local_seconds @ ''.'' @ format_padded 6 (t smod kMicroSecondsPerSecond)
      else format_seconds local_seconds)"

section \<open>The calendar is right\<close>

text \<open>Days from the first of January 1970 to the first of January of a year, by the leap year rule.\<close>

definition leaps_before :: "int \<Rightarrow> int" where
  "leaps_before y = (y - 1) div 4 - (y - 1) div 100 + (y - 1) div 400"

definition days_before_year :: "int \<Rightarrow> int" where
  "days_before_year y = 365 * (y - 1970) + leaps_before y - leaps_before 1970"

definition days_from_civil :: "int \<times> nat \<times> int \<Rightarrow> int" where
  "days_from_civil date =
     (case date of (y, m, d) \<Rightarrow> days_before_year y + sum_list (take (m - 1) (month_lengths y)) + d - 1)"

lemma div_step: "0 < n \<Longrightarrow> y div n = (y - 1) div n + (if n dvd y then 1 else 0)" for y n :: int
proof -
  assume n: "0 < n"
  show ?thesis
  proof (cases "n dvd y")
    case True
    then obtain k where y: "y = n * k" by (elim dvdE)
    have "y - 1 = n * (k - 1) + (n - 1)" by (simp add: y algebra_simps)
    then have "(y - 1) div n = k - 1" by (rule int_div_pos_eq) (use n in simp_all)
    with n show ?thesis by (simp add: y)
  next
    case False
    then have r: "y mod n \<noteq> 0" by (simp add: dvd_eq_mod_eq_0)
    have "y - 1 = n * (y div n) + (y mod n - 1)" by simp
    then have "(y - 1) div n = y div n"
      by (rule int_div_pos_eq) (use n r pos_mod_bound [OF n, of y] pos_mod_sign [OF n, of y] in linarith)+
    with False show ?thesis by simp
  qed
qed

lemma leaps_next_year: "leaps_before (y + 1) = leaps_before y + (if leap_year y then 1 else 0)"
proof -
  have steps: "y div 4 = (y - 1) div 4 + (if 4 dvd y then 1 else 0)"
    "y div 100 = (y - 1) div 100 + (if 100 dvd y then 1 else 0)"
    "y div 400 = (y - 1) div 400 + (if 400 dvd y then 1 else 0)"
    by (rule div_step, simp)+
  have "leaps_before (y + 1) = leaps_before y + (if 4 dvd y then 1 else 0) - (if 100 dvd y then 1 else 0) +
      (if 400 dvd y then 1 else 0)"
    unfolding leaps_before_def add_diff_cancel_right' steps by (simp only: algebra_simps)
  moreover have "400 dvd y \<Longrightarrow> 100 dvd y" "100 dvd y \<Longrightarrow> 4 dvd y" by (rule dvd_trans [rotated], assumption, simp)+
  ultimately show ?thesis unfolding leap_year_def by (cases "4 dvd y"; cases "100 dvd y"; cases "400 dvd y") simp_all
qed

lemma days_before_next_year: "days_before_year (y + 1) = days_before_year y + year_length y"
  by (simp add: days_before_year_def leaps_next_year year_length_def)

lemma split_years_result:
  "split_years y d = (y', d') \<Longrightarrow>
     days_before_year y' + d' = days_before_year y + d \<and> 0 \<le> d' \<and> d' < year_length y'"
proof (induction y d rule: split_years.induct)
  case (1 y d)
  show ?case
    using "1.IH" "1.prems" days_before_next_year [of y] days_before_next_year [of "y - 1"]
    by (subst (asm) (3) split_years.simps) (auto split: if_splits)
qed

lemma split_months_result:
  "0 \<le> d \<Longrightarrow> d < sum_list lens \<Longrightarrow> split_months lens d = (m, k) \<Longrightarrow>
     1 \<le> m \<and> m \<le> length lens \<and> sum_list (take (m - 1) lens) + k = d \<and> 0 \<le> k \<and> k < lens ! (m - 1)"
proof (induction lens d arbitrary: m k rule: split_months.induct)
  case (2 len lens d)
  show ?case
  proof (cases "d < len")
    case True
    with "2.prems" show ?thesis by auto
  next
    case False
    obtain m' k' where r: "split_months lens (d - len) = (m', k')" by force
    from "2.IH" [OF False _ _ r] "2.prems" False
    have IH: "1 \<le> m'" "m' \<le> length lens" "sum_list (take (m' - 1) lens) + k' = d - len" "0 \<le> k'" "k' < lens ! (m' - 1)"
      by auto
    have "m = m' + 1" "k = k'" using "2.prems"(3) False r by auto
    with IH show ?thesis by (cases m') auto
  qed
qed simp

definition valid_date :: "int \<times> nat \<times> int \<Rightarrow> bool" where
  "valid_date date \<longleftrightarrow> (case date of (y, m, d) \<Rightarrow> 1 \<le> m \<and> m \<le> 12 \<and> 1 \<le> d \<and> d \<le> month_lengths y ! (m - 1))"

lemma civil_correct: "valid_date (civil days) \<and> days_from_civil (civil days) = days"
proof -
  obtain y d where y: "split_years 1970 days = (y, d)" by force
  obtain m k where m: "split_months (month_lengths y) d = (m, k)" by force
  have start: "days_before_year 1970 = 0" by (simp add: days_before_year_def)
  have "sum_list (month_lengths y) = year_length y" "length (month_lengths y) = 12"
    by (simp_all add: month_lengths_def year_length_def)
  with split_years_result [OF y] split_months_result [OF _ _ m] start y m show ?thesis
    by (auto simp: civil_def valid_date_def days_from_civil_def)
qed


section \<open>What the text says\<close>

lemma time_of_day: "r div 3600 * 3600 + r mod 3600 div 60 * 60 + r mod 60 = r" for r :: int
proof -
  have "r mod 3600 mod 60 = r mod 60" by (rule mod_mod_cancel) simp
  then have "r mod 3600 div 60 * 60 + r mod 60 = r mod 3600"
    using div_mult_mod_eq [of "r mod 3600" 60] by (simp only:)
  then show ?thesis by (simp only: add.assoc div_mult_mod_eq)
qed

lemma format_seconds_denotes:
  obtains y m d h mi sec where
    "format_seconds s = format_padded 4 y @ ''-'' @ format_padded 2 (int m) @ ''-'' @ format_padded 2 d @ '' '' @
       format_padded 2 h @ '':'' @ format_padded 2 mi @ '':'' @ format_padded 2 sec"
    "valid_date (y, m, d)" "h \<in> {0..<24}" "mi \<in> {0..<60}" "sec \<in> {0..<60}"
    "days_from_civil (y, m, d) * 86400 + h * 3600 + mi * 60 + sec = s"
proof -
  obtain y m d where c: "civil (s div 86400) = (y, m, d)" by (metis prod_cases3)
  let ?r = "s mod 86400"
  have r: "0 \<le> ?r" "?r < 86400" by simp_all
  have date: "valid_date (y, m, d)" "days_from_civil (y, m, d) = s div 86400"
    using civil_correct [of "s div 86400"] c by simp_all
  have h: "?r div 3600 \<in> {0..<24}" using r by (simp add: div_less_iff_less_mult pos_imp_zdiv_nonneg_iff)
  have mi: "?r mod 3600 div 60 \<in> {0..<60}" "?r mod 60 \<in> {0..<60}" by auto
  have "?r div 3600 * 3600 + ?r mod 3600 div 60 * 60 + ?r mod 60 = ?r" by (rule time_of_day)
  then have "days_from_civil (y, m, d) * 86400 + ?r div 3600 * 3600 + ?r mod 3600 div 60 * 60 + ?r mod 60 = s"
    unfolding date(2) by (simp only: add.assoc div_mult_mod_eq)
  moreover have "format_seconds s = format_padded 4 y @ ''-'' @ format_padded 2 (int m) @ ''-'' @ format_padded 2 d @
      '' '' @ format_padded 2 (?r div 3600) @ '':'' @ format_padded 2 (?r mod 3600 div 60) @ '':'' @ format_padded 2 (?r mod 60)"
    unfolding format_seconds_def c Let_def prod.case ..
  ultimately show thesis using that date(1) h mi by blast
qed



end
