(* ===== verification/HttpSession.thy ===== *)
theory HttpSession
  imports HttpServer Timestamp
begin

text \<open>
  A whole connection of the HTTP server: a client that sends its requests one after another over one
  connection, each when the one before is answered. The callback of \<open>src/example/Httpserver_test.cc\<close>
  is the example: its pages, what it prints, and its icon.
\<close>

section \<open>The demonstration server\<close>

definition favicon :: string where
  "favicon = map (char_of :: nat \<Rightarrow> char)
     [
      137, 80, 78, 71, 13, 10, 26, 10, 0, 0, 0, 13, 73, 72, 68, 82, 0, 0, 0, 16,
      0, 0, 0, 16, 8, 6, 0, 0, 0, 31, 243, 255, 97, 0, 0, 0, 25, 116, 69, 88,
      116, 83, 111, 102, 116, 119, 97, 114, 101, 0, 65, 100, 111, 98, 101, 32, 73, 109, 97, 103,
      101, 82, 101, 97, 100, 121, 113, 201, 101, 60, 0, 0, 1, 205, 73, 68, 65, 84, 120, 218,
      148, 147, 57, 72, 3, 65, 20, 134, 255, 93, 98, 167, 4, 82, 196, 109, 34, 30, 160, 70,
      36, 8, 22, 22, 118, 10, 54, 186, 74, 154, 128, 8, 65, 180, 113, 133, 88, 137, 71, 176,
      73, 169, 81, 36, 205, 166, 8, 164, 72, 99, 145, 66, 11, 175, 86, 193, 70, 180, 21, 207,
      34, 88, 152, 11, 84, 72, 138, 100, 147, 141, 251, 70, 103, 201, 26, 20, 125, 240, 102, 118,
      102, 223, 124, 239, 231, 103, 70, 168, 213, 106, 72, 36, 18, 42, 0, 5, 191, 71, 212, 239,
      247, 47, 54, 236, 18, 32, 30, 143, 215, 170, 213, 234, 175, 73, 53, 70, 170, 84, 95, 159,
      34, 65, 42, 149, 10, 131, 229, 114, 57, 100, 179, 89, 150, 153, 76, 6, 233, 116, 154, 37,
      133, 44, 203, 84, 167, 196, 98, 49, 181, 94, 0, 3, 104, 154, 198, 22, 130, 32, 88, 82,
      20, 69, 54, 83, 148, 203, 101, 120, 189, 94, 170, 85, 84, 35, 76, 192, 224, 226, 193, 143,
      0, 158, 188, 9, 65, 124, 62, 31, 131, 68, 34, 17, 213, 84, 64, 63, 56, 128, 119, 229,
      51, 7, 184, 92, 46, 72, 146, 4, 135, 195, 129, 64, 32, 64, 103, 152, 233, 54, 26, 166,
      103, 21, 4, 227, 215, 200, 189, 21, 225, 105, 183, 67, 171, 234, 120, 47, 106, 88, 146, 187,
      24, 32, 159, 207, 51, 195, 184, 233, 78, 167, 211, 108, 74, 0, 105, 54, 124, 142, 225, 254,
      86, 132, 231, 60, 159, 114, 43, 58, 66, 123, 55, 102, 119, 174, 142, 14, 243, 189, 82, 169,
      100, 2, 66, 175, 133, 50, 102, 70, 186, 12, 217, 159, 29, 154, 108, 34, 230, 199, 58, 44,
      128, 239, 193, 21, 144, 7, 147, 162, 40, 160, 83, 106, 177, 184, 223, 41, 53, 67, 14, 63,
      88, 252, 152, 218, 121, 106, 80, 64, 0, 135, 174, 27, 23, 66, 180, 58, 63, 190, 121, 199,
      10, 38, 182, 238, 217, 154, 96, 20, 147, 219, 143, 13, 10, 46, 233, 35, 149, 41, 88, 0,
      39, 235, 110, 86, 112, 188, 214, 203, 214, 71, 171, 61, 108, 125, 184, 210, 221, 160, 96, 131,
      186, 239, 95, 164, 234, 204, 2, 78, 174, 94, 112, 26, 236, 179, 64, 57, 172, 254, 242, 145,
      137, 103, 145, 133, 33, 168, 135, 183, 88, 126, 126, 133, 187, 205, 78, 78, 98, 116, 64, 250,
      147, 137, 236, 30, 236, 134, 2, 72, 38, 147, 208, 117, 29, 127, 9, 50, 149, 191, 31, 219,
      215, 99, 138, 26, 247, 92, 193, 255, 34, 74, 195, 135, 0, 3, 0, 75, 187, 248, 214, 42,
      118, 152, 73, 0, 0, 0, 0, 73, 69, 78, 68, 174, 66, 96, 130]"

text \<open>
  What the callback works with besides the request: what it has printed, and how often it has read
  the clock. The time of each reading is the parameter \<open>clock\<close>.
\<close>

record DemoWorld =
  printed :: string
  readings :: nat

definition print_header :: "string \<times> string \<Rightarrow> string" where
  "print_header h = fst h @ '': '' @ snd h @ [CHR 0x0A]"

definition demo_onRequest :: "(int \<Rightarrow> int) \<Rightarrow> (nat \<Rightarrow> int) \<Rightarrow> bool \<Rightarrow> DemoWorld HttpCallback" where
  "demo_onRequest zone clock benchmark req resp w =
     (let w = w\<lparr>printed := printed w @ ''Headers '' @ method2Str (http_method req) @ '' '' @ path req @ [CHR 0x0A]\<rparr>;
          w = (if \<not> benchmark then w\<lparr>printed := printed w @ concat (map print_header (headers req))\<rparr> else w);
          ok = resp\<lparr>statusCode := k200Ok, statusMessage := ''OK''\<rparr>
      in
      if path req = ''/'' then
        (let resp = resp_addHeader ''Server'' ''Muduo'' (setContentType ''text/html'' ok);
             now = toFormattedString zone True (clock (readings w))
         in (resp\<lparr>resp_body := ''<html><head><title>This is title</title></head>'' @ ''<body><h1>Hello</h1>Now is '' @
               now @ ''</body></html>''\<rparr>, w\<lparr>readings := Suc (readings w)\<rparr>))
      else if path req = ''/favicon.ico'' then
        ((setContentType ''image/png'' ok)\<lparr>resp_body := favicon\<rparr>, w)
      else if path req = ''/hello'' then
        ((resp_addHeader ''Server'' ''Muduo'' (setContentType ''text/plain'' ok))
           \<lparr>resp_body := ''hello, world!'' @ [CHR 0x0A]\<rparr>, w)
      else if http_method req = kPost \<and> path req = ''/post'' then
        ((resp_addHeader ''Server'' ''Muduo'' (setContentType ''text/plain'' ok))\<lparr>resp_body := body req\<rparr>, w)
      else
        (resp\<lparr>statusCode := k404NotFound, statusMessage := ''Not Found'', closeConnection := True\<rparr>, w))"

section \<open>A session\<close>

text \<open>
  One exchange: a request arrives in pieces, the server answers, and then the socket becomes
  writable any number of times. The kernel decides how much each write takes.
\<close>

record Exchange =
  arrival :: int
  pieces :: "string list"
  client_headers :: "(string \<times> string) list"
  asked :: HttpRequest
  first_write :: "string \<Rightarrow> int + nat"
  later_writes :: "(string \<Rightarrow> int + nat) list"

definition exchange :: "'w HttpCallback \<Rightarrow> Exchange \<Rightarrow> 'w http_conn \<Rightarrow> 'w http_conn" where
  "exchange cb x s =
     (let (c, ctx, w) = fold (http_deliver (first_write x) cb (arrival x)) (pieces x) s
      in (fold handleWrite (later_writes x) c, ctx, w))"

definition exchange_ok :: "Exchange \<Rightarrow> bool" where
  "exchange_ok x \<longleftrightarrow> request_ok (client_headers x) (asked x) \<and> concat (pieces x) = request_text (client_headers x) (asked x) \<and>
     benign_write (first_write x) \<and> list_all benign_write (later_writes x)"

text \<open>The callback on the requests of a session, one after another: its responses and its last state.\<close>

fun serve :: "'w HttpCallback \<Rightarrow> Exchange list \<Rightarrow> 'w \<Rightarrow> HttpResponse list \<times> 'w" where
  "serve cb [] w = ([], w)"
| "serve cb (x # xs) w =
     (let (resp, w) = cb ((asked x)\<lparr>receiveTime := arrival x\<rparr>) (newHttpResponse (wants_close (asked x))) w;
          (resps, w) = serve cb xs w
      in (resp # resps, w))"

lemma handleWrite_keeps_input [simp]: "inputBuffer (handleWrite w c) = inputBuffer c"
  by (auto simp: handleWrite_def shutdownInLoop_def queueInLoop_def Let_def split: sum.splits)

lemma later_writes_effect:
  assumes "list_all benign_write ws" "conn_inv c"
  shows "conn_inv (fold handleWrite ws c) \<and> out_stream (fold handleWrite ws c) = out_stream c \<and>
    state (fold handleWrite ws c) = state c \<and> inputBuffer (fold handleWrite ws c) = inputBuffer c"
  using assms by (induction ws arbitrary: c) (simp_all add: handleWrite_effect)

text \<open>One exchange on an open connection.\<close>

lemma exchange_answers:
  assumes "conn_inv c" "state c = kConnected" "view (inputBuffer c) = []" "exchange_ok x"
    "cb ((asked x)\<lparr>receiveTime := arrival x\<rparr>) (newHttpResponse (wants_close (asked x))) w = (resp, w')"
  obtains c' where "exchange cb x (c, newHttpContext, w) = (c', newHttpContext, w')" "conn_inv c'"
    "out_stream c' = out_stream c @ response_text resp" "view (inputBuffer c') = []"
    "state c' = (if closeConnection resp then kDisconnecting else kConnected)"
proof -
  have x: "request_ok (client_headers x) (asked x)" "concat (pieces x) = request_text (client_headers x) (asked x)"
    "benign_write (first_write x)" "list_all benign_write (later_writes x)"
    using assms(4) by (simp_all add: exchange_ok_def)
  obtain c1 where c1: "fold (http_deliver (first_write x) cb (arrival x)) (pieces x) (c, newHttpContext, w) =
      (c1, newHttpContext, w')" "out_stream c1 = out_stream c @ response_text resp" "view (inputBuffer c1) = []"
      "conn_inv c1" "state c1 = (if closeConnection resp then kDisconnecting else kConnected)"
    using http_request_answered [where cb = cb and time = "arrival x" and req = "asked x" and w = w,
        OF assms(1-3) x(3,1,2) assms(5)] by (auto simp: out_stream_def)
  with later_writes_effect [OF x(4) c1(4)] show ?thesis
    by (intro that [of "fold handleWrite (later_writes x) c1"]) (simp_all add: exchange_def)
qed

lemma session_run:
  assumes "conn_inv c" "state c = kConnected" "view (inputBuffer c) = []" "\<forall>x \<in> set xs. exchange_ok x"
    "serve cb xs w = (resps, w')" "\<forall>r \<in> set (butlast resps). \<not> closeConnection r"
  shows "length resps = length xs \<and>
    (\<exists>c'. fold (exchange cb) xs (c, newHttpContext, w) = (c', newHttpContext, w') \<and> conn_inv c' \<and>
      out_stream c' = out_stream c @ concat (map response_text resps) \<and> view (inputBuffer c') = [] \<and>
      state c' = (if resps \<noteq> [] \<and> closeConnection (last resps) then kDisconnecting else kConnected))"
  using assms
proof (induction xs arbitrary: c w resps)
  case (Cons x xs)
  obtain resp w1 where cb: "cb ((asked x)\<lparr>receiveTime := arrival x\<rparr>) (newHttpResponse (wants_close (asked x))) w = (resp, w1)"
    by force
  obtain rs where rs: "serve cb xs w1 = (rs, w')" and eq: "resps = resp # rs"
    using Cons.prems(5) cb by (auto split: prod.splits)
  have x: "exchange_ok x" using Cons.prems(4) by simp
  obtain c1 where c1: "exchange cb x (c, newHttpContext, w) = (c1, newHttpContext, w1)" "conn_inv c1"
      "out_stream c1 = out_stream c @ response_text resp" "view (inputBuffer c1) = []"
      "state c1 = (if closeConnection resp then kDisconnecting else kConnected)"
    by (rule exchange_answers [where cb = cb and x = x and w = w, OF Cons.prems(1-3) x cb])
  show ?case
  proof (cases "xs = []")
    case True
    with rs eq c1 show ?thesis by simp
  next
    case False
    then have "rs \<noteq> []" using rs by (cases xs) (auto split: prod.splits)
    with Cons.prems(6) eq have keep: "\<not> closeConnection resp" "\<forall>r \<in> set (butlast rs). \<not> closeConnection r" by auto
    with Cons.IH [OF c1(2) _ c1(4) _ rs] c1 Cons.prems(4) \<open>rs \<noteq> []\<close> eq show ?thesis by simp
  qed
qed simp

text \<open>
  C10: A session over one connection. For every callback and every sequence of well-formed requests,
  each sent when the one before is answered, each cut into any pieces, and for every way the kernel
  takes the output: the callback has run on exactly these requests in order, each with the state the one
  before left, and the wire together with what is still buffered carries exactly the texts of its responses
  in order. If only the last response asks for it the connection stays open until then, and it is
  shut down exactly when that response is completely written.
\<close>

theorem http_session_answered:
  assumes "conn_inv c" "state c = kConnected" "view (inputBuffer c) = []" "\<forall>x \<in> set xs. exchange_ok x"
    "serve cb xs w = (resps, w')" "\<forall>r \<in> set (butlast resps). \<not> closeConnection r"
  shows "\<exists>c'. fold (exchange cb) xs (c, newHttpContext, w) = (c', newHttpContext, w') \<and> length resps = length xs \<and>
    wire c' @ view (outputBuffer c') = wire c @ view (outputBuffer c) @ concat (map response_text resps) \<and>
    view (inputBuffer c') = [] \<and>
    (writeShut c' \<longleftrightarrow> resps \<noteq> [] \<and> closeConnection (last resps) \<and> view (outputBuffer c') = [])"
  using session_run [OF assms] by (auto simp: out_stream_def conn_inv_def split: if_splits)

text \<open>A client of the demonstration server asks for a page, posts two bytes and asks for what is not there.\<close>

definition demo_exchange :: "(string \<times> string) list \<Rightarrow> HttpRequest \<Rightarrow> Exchange" where
  "demo_exchange hs req =
     \<lparr>arrival = 5, pieces = [take 7 (request_text hs req), drop 7 (request_text hs req)], client_headers = hs,
      asked = req, first_write = slow_write, later_writes = [slow_write, slow_write]\<rparr>"

definition hello_request :: HttpRequest where
  "hello_request = \<lparr>http_method = kGet, http_version = kHttp11, path = ''/hello'', query = [], body = [],
     receiveTime = 0, headers = [(''Host'', ''a'')]\<rparr>"

definition post_request :: HttpRequest where
  "post_request = sample_request\<lparr>path := ''/post'', query := []\<rparr>"

definition demo_session :: "Exchange list" where
  "demo_session = [demo_exchange [(''Host'', ''a'')] hello_request, demo_exchange sample_headers post_request,
     demo_exchange sample_headers sample_request]"

lemma demo_requests_ok: "request_ok [(''Host'', ''a'')] hello_request" "request_ok sample_headers post_request"
proof -
  have "headers hello_request = put_headers [(''Host'', ''a'')] []" "list_all header_ok [(''Host'', ''a'')]" by code_simp+
  moreover have "parseContentLength (headers hello_request) = Some (length (body hello_request))" by code_simp
  ultimately show "request_ok [(''Host'', ''a'')] hello_request"
    by (simp add: request_ok_def) (simp add: hello_request_def)
  show "request_ok sample_headers post_request"
    using sample_request_ok unfolding request_ok_def post_request_def
    by (elim conjE, intro conjI) (assumption | simp | simp only: HttpRequest.simps)+
qed

lemma demo_session_ok: "\<forall>x \<in> set demo_session. exchange_ok x"
  using demo_requests_ok sample_request_ok slow_write_benign
  by (simp add: demo_session_def demo_exchange_def exchange_ok_def)

text \<open>What it is sent, and what the server prints.\<close>

definition demo_texts :: "string list" where
  "demo_texts =
     [''HTTP/1.1 200 OK'' @ crlf_text @ ''Content-Length: 14'' @ crlf_text @ ''Connection: Keep-Alive'' @ crlf_text @
        ''Content-Type: text/plain'' @ crlf_text @ ''Server: Muduo'' @ crlf_text @ crlf_text @ ''hello, world!'' @ [CHR 0x0A],
      ''HTTP/1.1 200 OK'' @ crlf_text @ ''Content-Length: 2'' @ crlf_text @ ''Connection: Keep-Alive'' @ crlf_text @
        ''Content-Type: text/plain'' @ crlf_text @ ''Server: Muduo'' @ crlf_text @ crlf_text @ ''{}'',
      ''HTTP/1.1 404 Not Found'' @ crlf_text @ ''Connection: close'' @ crlf_text @ crlf_text]"

definition demo_printed :: string where
  "demo_printed = ''Headers GET /hello'' @ [CHR 0x0A] @ ''Headers POST /post'' @ [CHR 0x0A] @ ''Headers POST /x'' @ [CHR 0x0A]"

definition text_page :: "string \<Rightarrow> HttpResponse" where
  "text_page b = \<lparr>resp_headers = [(''Content-Type'', ''text/plain''), (''Server'', ''Muduo'')], statusCode = k200Ok,
     statusMessage = ''OK'', closeConnection = False, resp_body = b\<rparr>"

definition no_page :: HttpResponse where
  "no_page = \<lparr>resp_headers = [], statusCode = k404NotFound, statusMessage = ''Not Found'', closeConnection = True, resp_body = []\<rparr>"

lemma demo_serve:
  "serve (demo_onRequest zone clock True) demo_session \<lparr>printed = [], readings = 0\<rparr> =
    ([text_page (''hello, world!'' @ [CHR 0x0A]), text_page ''{}'', no_page], \<lparr>printed = demo_printed, readings = 0\<rparr>)"
  by (simp add: demo_session_def demo_exchange_def demo_onRequest_def hello_request_def post_request_def
      sample_request_def newHttpResponse_def wants_close_def getHeader_def setContentType_def resp_addHeader_def
      method2Str_def text_page_def no_page_def demo_printed_def Let_def)

lemma demo_response_texts:
  "map response_text [text_page (''hello, world!'' @ [CHR 0x0A]), text_page ''{}'', no_page] = demo_texts"
  by code_simp

theorem http_session_answered_witness:
  "\<exists>c'. fold (exchange (demo_onRequest (\<lambda>_. 28800) (\<lambda>_. 0) True)) demo_session
      (connectEstablished newTcpConnection, newHttpContext, \<lparr>printed = [], readings = 0\<rparr>) =
      (c', newHttpContext, \<lparr>printed = demo_printed, readings = 0\<rparr>) \<and>
    wire c' @ view (outputBuffer c') = concat demo_texts \<and> (writeShut c' \<longleftrightarrow> view (outputBuffer c') = [])"
  using http_session_answered [OF established_inv established_facts(1,2) demo_session_ok demo_serve]
  unfolding demo_response_texts established_facts by (simp add: text_page_def no_page_def) blast

end
