(* ===== verification/Spec2Isabelle.thy ===== *)
theory Spec2Isabelle
  imports RtmpJoin RtmpChunkTyping LoginServer TimerQueue EventLoopThread LoopLife ServerShutdown EchoServer
    Backpressure Timestamp HttpSession
begin

text \<open>
  A verification of rmuduo: a reactor network library in the style of muduo, an HTTP server and an
  RTMP media server on top of it, and a teacher back end that combines the two.

  \<^bold>\<open>The program.\<close> One event loop per thread (\<open>src/net\<close>) waits for descriptors, runs timers and runs
  the functors that other threads queue. A TCP server accepts connections in its base loop and
  hands them to the loops of its pool; a connection reads into an input buffer, calls the message
  callback, and writes through an output buffer. The HTTP server (\<open>src/http\<close>, \<open>src/api\<close>) and the RTMP
  server (\<open>src/rtmp\<close>) are message callbacks. An RTMP connection goes through a handshake, splits the
  bytes into chunks, assembles messages and handles commands; a session per stream relays the
  media of one publisher to its players and keeps what a late player needs. The back end
  (\<open>src/example/login_server.cc\<close>, \<open>src/auth\<close>) logs users in over HTTP and issues the tickets with
  which the RTMP server authorises publishing and playing.

  \<^bold>\<open>The theories\<close>, in the order of their imports.

  \<^item> \<open>Prelude\<close>: machine words and bytes, ordered maps, decimal numbers; shared lemmas.
  \<^item> \<open>Interfaces\<close>: the contracts between components as locales. Each is interpreted on the model.
    \<open>StagedParser\<close>: two incremental parsers in sequence over one buffer are again one.
  \<^item> \<open>Buffer\<close> (\<open>net/Buffer\<close>): the byte buffer; it refines a byte queue.
  \<^item> \<open>Poller\<close> (\<open>net/Channel\<close>, \<open>Poller\<close>, \<open>EPollPoller\<close>): what epoll has registered is what the channels
    want. \<open>EventLoop\<close> (\<open>net/EventLoop\<close>): the functor queue under interleaving threads; it refines a
    sequential executor. \<open>TimerQueue\<close> (\<open>net/Timer\<close>, \<open>TimerQueue\<close>, \<open>Timestamp\<close>): timers on a heap with
    manual deletion. \<open>Timestamp\<close> (\<open>net/Timestamp\<close>): times as text. \<open>EventLoopThread\<close> (\<open>net/CountDownLatch\<close>, \<open>Thread\<close>, \<open>CurrentThread\<close>,
    \<open>EventLoopThread\<close>): the thread of a loop and the thread that starts and destroys it.
  \<^item> \<open>TcpConnection\<close> (\<open>net/TcpConnection\<close>): one connection in its loop. \<open>TcpServer\<close> (\<open>net/TcpServer\<close>,
    \<open>EventLoopThreadPool\<close>): all connections of a server over its loops; \<open>ServerShutdown\<close>: its
    destructor. \<open>Backpressure\<close>: the notices about the fill of an output buffer. \<open>Socket\<close> (\<open>net/Socket\<close>, \<open>InetAddress\<close>, \<open>util.h\<close>) and \<open>Acceptor\<close> (\<open>net/Acceptor\<close>): listening and
    accepting over the system calls, into the server. \<open>LoopLife\<close> (\<open>net/EventLoop\<close>, \<open>DefaultPoller\<close>,
    the channel of \<open>TimerQueue\<close>): construction and destruction of a loop. \<open>EchoServer\<close>
    (\<open>example/echo_server.cc\<close>, \<open>test.cpp\<close>): the smallest complete use of a connection.
  \<^item> \<open>RtmpTypes\<close>, \<open>Amf0\<close>, \<open>RtmpChunkParser\<close>, \<open>RtmpChunkWriter\<close>, \<open>RtmpHandshake\<close>: the RTMP wire formats.
    \<open>RtmpCommand\<close>: command messages, stream targets and replies. \<open>RtmpSession\<close>: one stream.
    \<open>RtmpServer\<close> (\<open>rtmp/RtmpServer\<close>, \<open>RtmpConnection\<close>, \<open>RtmpConnectionContext\<close>, \<open>RtmpSessionManager\<close>): the
    handlers over the shared state; \<open>RtmpChunkTyping\<close>: what the parser returns, the writer can send;
    \<open>RtmpRelay\<close>: what whole runs of the server do with media, down to the bytes on a player's wire.
    \<open>RtmpStream\<close>: the bytes of one connection, from the handshake on, as the sequence of messages the
    server handles. \<open>RtmpLive\<close> and \<open>RtmpJoin\<close>: from the bytes a publisher sends, and a player sends, to
    the bytes a player reads.
  \<^item> \<open>Json\<close> (\<open>api/JsonRequest\<close>, \<open>JsonResponse\<close>), \<open>Http\<close> (\<open>http/HttpRequest\<close>, \<open>HttpContext\<close>), \<open>HttpServer\<close>
    (\<open>http/HttpResponse\<close>, \<open>HttpServer\<close>, \<open>api/Router\<close>): requests, responses, routes. \<open>HttpSession\<close>: many
    requests over one connection, and the demonstration server (\<open>example/Httpserver_test.cc\<close>).
  \<^item> \<open>Auth\<close> (\<open>src/auth\<close>): users, tokens, tickets. \<open>LoginServer\<close> (\<open>example/login_server.cc\<close>): the routes
    and the authorisation callback.
  \<^item> This theory: the back end and the RTMP server together.

  \<^bold>\<open>How the code is represented.\<close> A class is a record with the names of its members, an operation
  a function that returns the updated record; where the code throws, returns early or fails, the
  model returns that branch as a value. Integers that are truncated on the wire are words; a
  string is a list of characters, a \<open>double\<close> on the wire its 64 bits. Undefined behaviour is an
  explicit result (\<open>OutOfBounds\<close>, \<open>None\<close>). What the sources only call is a parameter: \<open>readv\<close>, \<open>write\<close>,
  \<open>epoll_ctl\<close>, the calls on sockets and descriptors (the record \<open>sys\<close>, with \<open>descriptor_calls\<close> as the
  documented behaviour that is relied on), the clock, the allocator, the random generators, the hash
  of a password, user callbacks. Threads are interleaved steps of relations (\<open>loop_step\<close>,
  \<open>tcp_step\<close>, \<open>thread_step\<close>), one step per critical section, loop turn or wait; condition variables
  may wake up for no reason. The managers of \<open>src/auth\<close> hold a mutex and are atomic; the handlers
  of the HTTP and RTMP servers run one at a time, as they do in the back end, which gives both
  servers the one base loop.

  \<^bold>\<open>What is shown.\<close>

  \<^item> Wire formats: what the chunk writer and the AMF0 encoder write is read back, for every way TCP
    cuts the bytes; the parsers never read outside their input and always return; every message
    the chunk parser returns can be passed on and arrives unchanged.
  \<^item> Streams: for every segmentation of its input a connection handles exactly the messages that
    were sent, one after another; a publisher that connects and publishes is heard by every
    player, whatever TCP does with its bytes, and a player that joins late reads the headers, the group of
    pictures and then the live media.
  \<^item> Loops: functors are run in order and none is lost or left waiting, as by a sequential executor;
    \<open>startLoop\<close> returns the running loop of the new thread, and does return; a loop watches its timer
    and its wake-up descriptor from construction to destruction; no timer operation uses a
    freed timer and none is leaked, due timers run, a cancelled one never runs again, the descriptor is armed in time; a formatted time denotes the time;
    epoll's interest is the channels' interest.
  \<^item> Connections: bytes reach the wire complete and in order; every connection goes once through
    its life cycle, is removed and destroyed, under every interleaving of the loops; the
    callbacks about a full and an empty output buffer are called exactly when it fills and empties;
    accepted descriptors reach the server once, in order and without leaks; destroying the server destroys
    every connection; the echo server returns exactly what it gets.
  \<^item> RTMP server: session tables stay consistent, every event is answered, publishing needs a
    ticket, a publisher is not displaced, the media of a publisher reaches exactly the players and is
    read from their connections as it was sent, a late player gets the headers and the group of
    pictures, closing frees the stream.
  \<^item> HTTP and back end: the requests of a connection are answered once each, in order, with the callback's responses; tokens and tickets
    are honoured exactly as issued; a ticket's address opens its stream; without a live token the
    protected routes refuse; streaming needs a login.
  \<^item> Defects that the model exhibits are stated as theorems of their own: a split chunk adds its
    timestamp delta twice, extended timestamps are not read back, a chunk size of 0 makes the
    writer loop, a change of the chunk size comes too late, a second publish leaves a stale
    publisher, a pipelined request waits, the event loop never quits and its thread can not be
    joined, running out of descriptors leaves the peer waiting, a connection that is shutting down
    when the server is destroyed is never announced as down, a second loop in a thread is only logged.

  \<^bold>\<open>Bounds and termination.\<close> Loops over input are recursive functions with termination proofs. Two
  loops of the code need not end and are partial functions: the payload loop of the chunk writer
  (\<open>EncodeMessage_returns_iff\<close> says when it ends) and the loop that draws an unused token
  (\<open>generateUnused_returns\<close>: it ends as soon as one of the later draws is unused). No fuel is used.
  The connection counter of the TCP server is bounded by \<open>INT_MAX\<close>, as the code's \<open>int\<close> is.

  \<^bold>\<open>Not modelled.\<close> Logging (only what is written with \<open>LOG_ERROR\<close> by sockets and loops is recorded),
  the difference of times in doubles, and the type aliases of \<open>Callbacks.h\<close> and \<open>global.h\<close>: they have no state that
  the rest depends on. Data races on the state of a connection, the lifetime of objects that queued
  functors refer to by raw pointer, and RTMP sessions shared by the threads of a server with more
  than one loop are left out: they are undefined behaviour of the memory model, not steps of the
  program. Of \<open>src/example\<close>, the functions \<open>main\<close>, which construct the servers from constants and the
  command line, and the program \<open>rtmp_server_test.cc\<close>, which is nothing else, are left out.
\<close>

section \<open>The teacher back end as a whole\<close>

text \<open>
  The HTTP server and the RTMP server of \<open>src/example/login_server.cc\<close> share the ticket manager.
  Their events interleave in any order; \<open>reqs\<close> is the history of the HTTP requests handled. The
  RTMP server starts with no streams, whatever connections it has.
\<close>

inductive system_reach :: "(string \<Rightarrow> u64) \<Rightarrow> HttpRequest list \<Rightarrow> Backend \<Rightarrow> RtmpServer \<Rightarrow> bool" for h where
  start: "sessions srv = Map.empty \<Longrightarrow> sessionHeap srv = Map.empty \<Longrightarrow> system_reach h [] (newBackend h) srv"
| http: "system_reach h reqs b srv \<Longrightarrow> env_hash env = h \<Longrightarrow>
    route (login_router env) req resp (Some b) = (resp', Some b') \<Longrightarrow> system_reach h (req # reqs) b' srv"
| rtmp: "system_reach h reqs b srv \<Longrightarrow>
    server_step rd (rtmp_auth now (rtmpTicketManager b)) ev srv = Some srv' \<Longrightarrow> system_reach h reqs b srv'"
| erase: "system_reach h reqs b srv \<Longrightarrow>
    system_reach h reqs (b\<lparr>rtmpTicketManager := snd (rt_verify now t key pub (rtmpTicketManager b))\<rparr>) srv"

text \<open>Some registered user presented a password and then got the ticket the stream needs.\<close>

definition entitled :: "(string \<Rightarrow> u64) \<Rightarrow> HttpRequest list \<Rightarrow> string \<Rightarrow> bool \<Rightarrow> bool" where
  "entitled h reqs key publish \<longleftrightarrow> (\<exists>name. granted h name key publish reqs)"

definition system_ok :: "(string \<Rightarrow> u64) \<Rightarrow> HttpRequest list \<Rightarrow> Backend \<Rightarrow> RtmpServer \<Rightarrow> bool" where
  "system_ok h reqs b srv \<longleftrightarrow> backend_ok h reqs b \<and> srv_ok srv \<and>
     (\<forall>key c. publisher_of srv key = Some c \<longrightarrow> entitled h reqs key True) \<and>
     (\<forall>key c. c \<in> players_of srv key \<longrightarrow> entitled h reqs key False)"

lemma rtmp_auth_entitled:
  assumes "backend_ok h reqs b"
  shows "authorizePublish (rtmp_auth now (rtmpTicketManager b)) key t \<Longrightarrow> entitled h reqs key True"
    "authorizePlay (rtmp_auth now (rtmpTicketManager b)) key t \<Longrightarrow> entitled h reqs key False"
  using assms unfolding authorize_rtmp
  by (auto simp: verifyPublish_def verifyPlay_def rt_verify_def backend_ok_def ticket_vouched_def entitled_def
      intro: ranI dest: ranI split: option.splits if_splits)

lemma entitled_later: "entitled h reqs key pub \<Longrightarrow> entitled h (req # reqs) key pub"
  by (auto simp: entitled_def)

lemma system_reach_ok: "system_reach h reqs b srv \<Longrightarrow> system_ok h reqs b srv"
proof (induction rule: system_reach.induct)
  case (start srv)
  then show ?case
    by (simp add: system_ok_def newBackend_ok srv_ok_def publisher_of_def players_of_def session_of_def)
next
  case (http reqs b srv env req resp resp' b')
  then show ?case using route_ok [of env reqs b req resp resp' b'] by (auto simp: system_ok_def entitled_later)
next
  case (rtmp reqs b srv rd now ev srv')
  then have b: "backend_ok h reqs b" "srv_ok srv" by (auto simp: system_ok_def)
  have old: "publisher_of srv key = Some c \<Longrightarrow> entitled h reqs key True"
    "c \<in> players_of srv key \<Longrightarrow> entitled h reqs key False" for key c
    using rtmp.IH by (auto simp: system_ok_def)
  have ev: "srv_ok srv'"
    "publisher_of srv' key = Some c \<Longrightarrow> publisher_of srv key = Some c \<or>
       (\<exists>t. authorizePublish (rtmp_auth now (rtmpTicketManager b)) key t)"
    "c \<in> players_of srv' key \<Longrightarrow> c \<in> players_of srv key \<or>
       (\<exists>t. authorizePlay (rtmp_auth now (rtmpTicketManager b)) key t)" for key c
    using server_step_evolves [OF rtmp.hyps(2)] b(2) by (auto simp: evolves_def)
  show ?case
    unfolding system_ok_def using b(1) ev old rtmp_auth_entitled [OF b(1)] by metis
next
  case (erase reqs b srv now t key pub)
  then show ?case using rt_verify_shrinks by (fastforce simp: system_ok_def backend_ok_def)
qed

text \<open>A run: the teacher logs in, asks for a ticket to publish \<open>a1\<close> and publishes with it.\<close>

definition login_request :: HttpRequest where
  "login_request = newHttpRequest\<lparr>http_method := kPost, path := ''/api/login'',
     body := ''{'' @ makeField ''username'' ''teacher01'' @ '','' @ makeField ''password'' ''123456'' @ '','' @
       makeField ''role'' ''teacher'' @ ''}''\<rparr>"

definition credential :: string where "credential = ''00000000000000000000000000000001''"

definition live_request :: HttpRequest where
  "live_request = ticket_request\<lparr>headers := [(''Authorization'', ''Bearer '' @ credential)]\<rparr>"

definition live_session :: AuthSession where
  "live_session = sample_session\<lparr>token := credential\<rparr>"

definition live_service :: AuthService where
  "live_service = (newAuthService (\<lambda>_. 7))\<lparr>tokenManager :=
     \<lparr>tm_sessions = [credential \<mapsto> live_session], tm_ttlSeconds = 7200, tm_position = 2\<rparr>\<rparr>"

definition live_ticket :: RtmpTicket where
  "live_ticket = \<lparr>ticket = credential, ticket_userId = ''teacher01'', ticket_username = ''teacher01'',
     ticket_role = kTeacher, ticket_streamKey = ''/live/a1'', allowPublish = True, allowPlay = False,
     ticket_expireAt = 400\<rparr>"

definition live_tickets :: RtmpTicketManager where
  "live_tickets = \<lparr>tickets = [credential \<mapsto> live_ticket], rt_ttlSeconds = 300, rt_position = 2\<rparr>"

definition live_backend :: Backend where
  "live_backend = \<lparr>authService = live_service, rtmpTicketManager = live_tickets\<rparr>"

lemma first_draw: "hex16 (sample_gen 0) @ hex16 (sample_gen (Suc 0)) = credential"
  by code_simp

lemma sample_login:
  "login (\<lambda>_. 7) sample_gen 100 ''teacher01'' ''123456'' kTeacher (newAuthService (\<lambda>_. 7))
     = Some (Inr live_session, live_service)"
  by (simp add: login_def findByUsername_def newAuthService_def newUserStore_def addUser_def defaultUser_def
      createSession_def newTokenManager_def removeExpired_def generateUnused.simps first_draw Let_def
      live_session_def live_service_def sample_session_def)

lemma sample_ticket:
  "createTicket sample_gen 100 live_session ''/live/a1'' kPublish (newRtmpTicketManager 300)
     = Some (live_ticket, live_tickets)"
  by (simp add: createTicket_def newRtmpTicketManager_def removeExpired_def generateUnused.simps first_draw Let_def
      live_session_def sample_session_def live_ticket_def live_tickets_def)

lemma login_body:
  "map_option (\<lambda>obj. (obj ''username'', obj ''password'', obj ''role'')) (parseJsonObject (body login_request))
     = Some (Some ''teacher01'', Some ''123456'', Some ''teacher'')"
  by code_simp

lemma live_request_parts: "getBearerToken live_request = Some credential" "body live_request = body ticket_request"
  by code_simp (simp add: live_request_def)

lemma run_login:
  "\<exists>resp'. route (login_router sample_env) login_request resp (Some (newBackend (\<lambda>_. 7)))
     = (resp', Some ((newBackend (\<lambda>_. 7))\<lparr>authService := live_service\<rparr>))"
proof -
  obtain obj where "parseJsonObject (body login_request) = Some obj" "obj ''username'' = Some ''teacher01''"
    "obj ''password'' = Some ''123456''" "obj ''role'' = Some ''teacher''" using login_body by auto
  then have "\<exists>resp'. login_handler sample_env login_request resp (newBackend (\<lambda>_. 7)) =
      Some (resp', (newBackend (\<lambda>_. 7))\<lparr>authService := live_service\<rparr>)"
    using sample_login by (simp add: login_handler_def getString_def sample_env_def roleFromString_def newBackend_def)
  then show ?thesis
    by (auto simp: route_def login_router_def router_post_def router_get_def addRoute_def lift_handler_def login_request_def)
qed

lemma run_ticket:
  "\<exists>resp'. route (login_router sample_env) live_request resp (Some ((newBackend (\<lambda>_. 7))\<lparr>authService := live_service\<rparr>))
     = (resp', Some live_backend)"
proof -
  let ?b = "(newBackend (\<lambda>_. 7))\<lparr>authService := live_service\<rparr>"
  obtain obj where "parseJsonObject (body live_request) = Some obj" "obj ''streamName'' = Some ''a1''"
    "obj ''permission'' = Some ''publish''" using ticket_request_parts(2) live_request_parts(2) by auto
  moreover have "verifyToken 100 credential live_service = (Some live_session, live_service)"
    by (rule verifyToken_live) (simp_all add: live_service_def live_session_def sample_session_def credential_def)
  ultimately have "\<exists>resp'. ticket_handler sample_env live_request resp ?b = Some (resp', live_backend)"
    using sample_ticket live_request_parts(1) ticket_request_parts(3,4)
    by (simp add: ticket_handler_def getString_def sample_env_def newBackend_def live_backend_def
        login_makeStreamKey_def kRtmpApp_def Let_def)
  then show ?thesis
    by (auto simp: route_def login_router_def router_post_def router_get_def addRoute_def lift_handler_def
        live_request_def ticket_request_def)
qed

lemma run_publish:
  "map_option (\<lambda>srv'. publisher_of srv' ''/live/a1'')
     (server_step (\<lambda>_. 0) (rtmp_auth 150 (rtmpTicketManager live_backend))
        (Receive ''c1'' (RtmpServer.request ''publish'' (''a1?ticket='' @ credential))) ready_server)
   = Some (Some ''c1'')"
  by code_simp

text \<open>
  C1: All streaming needs a login first. However HTTP requests and RTMP events interleave, a stream
  of the teacher back end has a publisher or a player only if an HTTP request presented the
  password of a registered, enabled user and a later request with a bearer token asked for a
  ticket with that permission for that very stream.
\<close>

theorem streaming_needs_login:
  assumes "system_reach h reqs b srv"
  shows "(publisher_of srv key = Some c \<longrightarrow> entitled h reqs key True) \<and>
    (c \<in> players_of srv key \<longrightarrow> entitled h reqs key False)"
  using system_reach_ok [OF assms] by (auto simp: system_ok_def)

theorem streaming_needs_login_witness:
  "\<exists>b srv. system_reach (\<lambda>_. 7) [live_request, login_request] b srv \<and>
     publisher_of srv ''/live/a1'' = Some ''c1'' \<and>
     entitled (\<lambda>_. 7) [live_request, login_request] ''/live/a1'' True"
proof -
  let ?new = "newBackend (\<lambda>_. 7)"
  obtain srv where publish: "server_step (\<lambda>_. 0) (rtmp_auth 150 (rtmpTicketManager live_backend))
         (Receive ''c1'' (RtmpServer.request ''publish'' (''a1?ticket='' @ credential))) ready_server = Some srv"
    and pub: "publisher_of srv ''/live/a1'' = Some ''c1''"
    using run_publish by auto
  have env: "env_hash sample_env = (\<lambda>_. 7)" by (simp add: sample_env_def)
  have "system_reach (\<lambda>_. 7) [] ?new ready_server"
    by (intro system_reach.start) (simp_all add: ready_server_def newRtmpServer_def)
  then have "system_reach (\<lambda>_. 7) [login_request] (?new\<lparr>authService := live_service\<rparr>) ready_server"
    using run_login env by (blast intro: system_reach.http)
  then have "system_reach (\<lambda>_. 7) [live_request, login_request] live_backend ready_server"
    using run_ticket env by (blast intro: system_reach.http)
  then have "system_reach (\<lambda>_. 7) [live_request, login_request] live_backend srv"
    by (rule system_reach.rtmp) (rule publish)
  with streaming_needs_login [OF this, of "''/live/a1''" "''c1''"] pub show ?thesis by blast
qed

end
